(* ===== verification/Vos_Prelude.thy ===== *)
theory Vos_Prelude
  imports Main "HOL-Library.Word"
begin

text \<open>
  Shared vocabulary of the development.

  \<^item> Machine integers: bytes are 8-bit words; the saturating operations of Rust are written out.
  \<^item> \<open>BTreeMap\<close> and \<open>BTreeSet\<close> of the Rust standard library are association lists and
    lists in ascending key order, so that iteration order, \<open>next_back\<close>, \<open>range\<close> and
    \<open>retain\<close> are executable. The laws the components use are proved once here.
  \<^item> \<open>Result\<close> values are sums, \<open>Inl\<close> for the error.
\<close>

named_theorems worker_simps \<open>field equations of the small worker helpers\<close>
named_theorems worker_step \<open>operations that keep the durable step relation\<close>
named_theorems btree_simps \<open>lookup laws of the ordered maps\<close>

type_synonym byte = "8 word"

section \<open>Saturating arithmetic\<close>

abbreviation u64_max :: nat where
  "u64_max \<equiv> 18446744073709551615"

abbreviation u32_max :: nat where
  "u32_max \<equiv> 4294967295"

definition sat_add_u64 :: "nat \<Rightarrow> nat \<Rightarrow> nat" where
  "sat_add_u64 a b = min (a + b) u64_max"

definition sat_mul_u64 :: "nat \<Rightarrow> nat \<Rightarrow> nat" where
  "sat_mul_u64 a b = min (a * b) u64_max"

definition sat_add_u32 :: "nat \<Rightarrow> nat \<Rightarrow> nat" where
  "sat_add_u32 a b = min (a + b) u32_max"

lemma sat_add_u64_ge: "a \<le> u64_max \<Longrightarrow> a \<le> sat_add_u64 a b"
  by (simp add: sat_add_u64_def)

section \<open>Ordered maps\<close>

type_synonym ('k, 'v) btree = "('k \<times> 'v) list"

definition bt_wf :: "('k::linorder, 'v) btree \<Rightarrow> bool" where
  "bt_wf m \<longleftrightarrow> sorted_wrt (<) (map fst m)"

definition bt_get :: "('k, 'v) btree \<Rightarrow> 'k \<Rightarrow> 'v option" where
  "bt_get m k = map_of m k"

definition bt_remove :: "'k \<Rightarrow> ('k, 'v) btree \<Rightarrow> ('k, 'v) btree" where
  "bt_remove k m = filter (\<lambda>p. fst p \<noteq> k) m"

definition bt_insert :: "'k::linorder \<Rightarrow> 'v \<Rightarrow> ('k, 'v) btree \<Rightarrow> ('k, 'v) btree" where
  "bt_insert k v m = insort_key fst (k, v) (bt_remove k m)"

text \<open>\<open>entry(k).or_insert(v)\<close>: insert only when the key is absent.\<close>

definition bt_or_insert :: "'k::linorder \<Rightarrow> 'v \<Rightarrow> ('k, 'v) btree \<Rightarrow> ('k, 'v) btree" where
  "bt_or_insert k v m = (if bt_get m k = None then bt_insert k v m else m)"

definition bt_retain :: "('k \<Rightarrow> bool) \<Rightarrow> ('k, 'v) btree \<Rightarrow> ('k, 'v) btree" where
  "bt_retain P m = filter (\<lambda>p. P (fst p)) m"

definition bt_range :: "'k::linorder \<Rightarrow> 'k \<Rightarrow> ('k, 'v) btree \<Rightarrow> ('k, 'v) btree" where
  "bt_range lo hi m = bt_retain (\<lambda>k. lo \<le> k \<and> k \<le> hi) m"

definition bt_last :: "('k, 'v) btree \<Rightarrow> ('k \<times> 'v) option" where
  "bt_last m = (if m = [] then None else Some (last m))"

text \<open>\<open>collect()\<close> of an iterator of pairs: insertion in iteration order.\<close>

fun bt_insert_all :: "('k::linorder \<times> 'v) list \<Rightarrow> ('k, 'v) btree \<Rightarrow> ('k, 'v) btree" where
  "bt_insert_all [] m = m"
| "bt_insert_all ((k, v) # ps) m = bt_insert_all ps (bt_insert k v m)"

lemma bt_get_Nil [simp, btree_simps]: "bt_get [] k = None"
  by (simp add: bt_get_def)

lemma bt_get_Cons [btree_simps]: "bt_get ((k, v) # m) k' = (if k = k' then Some v else bt_get m k')"
  by (simp add: bt_get_def)

lemma bt_get_retain [simp, btree_simps]:
  "bt_get (bt_retain P m) k = (if P k then bt_get m k else None)"
  unfolding bt_get_def bt_retain_def by (induction m) auto

lemma bt_get_range [simp, btree_simps]:
  "bt_get (bt_range lo hi m) k = (if lo \<le> k \<and> k \<le> hi then bt_get m k else None)"
  by (simp add: bt_range_def)

lemma bt_get_remove [simp, btree_simps]:
  "bt_get (bt_remove k m) k' = (if k' = k then None else bt_get m k')"
  unfolding bt_get_def bt_remove_def by (induction m) auto

lemma map_of_insort_fresh:
  "k \<notin> fst ` set m \<Longrightarrow> map_of (insort_key fst (k, v) m) = (map_of m)(k \<mapsto> v)"
  by (induction m) auto

lemma bt_remove_fresh: "k \<notin> fst ` set (bt_remove k m)"
  by (auto simp: bt_remove_def)

lemma bt_get_insert [simp, btree_simps]:
  "bt_get (bt_insert k v m) k' = (if k' = k then Some v else bt_get m k')"
  using bt_get_remove [of k m k']
  by (simp add: bt_insert_def bt_get_def map_of_insort_fresh [OF bt_remove_fresh])

lemma bt_get_or_insert [simp, btree_simps]:
  "bt_get (bt_or_insert k v m) k' =
     (if k' = k \<and> bt_get m k = None then Some v else bt_get m k')"
  by (simp add: bt_or_insert_def)

lemma bt_get_insert_all:
  "bt_get (bt_insert_all ps m) k = (case map_of (rev ps) k of Some v \<Rightarrow> Some v | None \<Rightarrow> bt_get m k)"
  by (induction ps m rule: bt_insert_all.induct) (auto simp: map_add_def split: option.splits)

lemma bt_get_Some_in: "bt_get m k = Some v \<Longrightarrow> (k, v) \<in> set m"
  by (simp add: bt_get_def map_of_SomeD)

lemma bt_get_None_iff: "bt_get m k = None \<longleftrightarrow> k \<notin> fst ` set m"
  by (simp add: bt_get_def map_of_eq_None_iff)

subsection \<open>Well-formedness\<close>

lemma bt_wf_Nil [simp]: "bt_wf []"
  by (simp add: bt_wf_def)

lemma bt_wf_distinct: "bt_wf m \<Longrightarrow> distinct (map fst m)"
  by (simp add: bt_wf_def strict_sorted_iff)

lemma bt_wf_sorted: "bt_wf m \<Longrightarrow> sorted (map fst m)"
  by (simp add: bt_wf_def strict_sorted_iff)

lemma bt_wf_retain [simp, intro]: "bt_wf m \<Longrightarrow> bt_wf (bt_retain P m)"
  unfolding bt_wf_def bt_retain_def
  by (simp add: sorted_wrt_map sorted_wrt_filter)

lemma bt_wf_remove [simp, intro]: "bt_wf m \<Longrightarrow> bt_wf (bt_remove k m)"
  unfolding bt_wf_def bt_remove_def
  by (simp add: sorted_wrt_map sorted_wrt_filter)

lemma map_fst_insort: "map fst (insort_key fst (k, v) m) = insort k (map fst m)"
  by (induction m) auto

lemma bt_wf_insert [simp, intro]: "bt_wf m \<Longrightarrow> bt_wf (bt_insert k v m)"
proof -
  assume "bt_wf m"
  then have wf: "bt_wf (bt_remove k m)" by simp
  have "k \<notin> set (map fst (bt_remove k m))"
    using bt_remove_fresh [of k m] by simp
  with wf show ?thesis
    by (simp add: bt_wf_def bt_insert_def map_fst_insort strict_sorted_iff sorted_insort
        distinct_insort)
qed

lemma bt_wf_or_insert [simp, intro]: "bt_wf m \<Longrightarrow> bt_wf (bt_or_insert k v m)"
  by (simp add: bt_or_insert_def)

lemma bt_wf_insert_all [simp, intro]: "bt_wf m \<Longrightarrow> bt_wf (bt_insert_all ps m)"
  by (induction ps m rule: bt_insert_all.induct) auto

lemma bt_wf_ext:
  assumes "bt_wf m" and "bt_wf m'" and "\<And>k. bt_get m k = bt_get m' k"
  shows "m = m'"
proof -
  have "set m = set m'"
    using assms bt_wf_distinct [of m] bt_wf_distinct [of m']
    by (auto simp: bt_get_def) (metis map_of_eq_Some_iff)+
  then have "set (map fst m) = set (map fst m')" by simp
  then have keys: "map fst m = map fst m'"
    using assms(1,2) by (auto simp: bt_wf_def strict_sorted_iff intro: sorted_distinct_set_unique)
  show ?thesis
  proof (rule nth_equalityI)
    show len: "length m = length m'" using keys by (metis length_map)
    fix i assume i: "i < length m"
    then have "fst (m ! i) = fst (m' ! i)" using keys len by (metis nth_map)
    moreover have "bt_get m (fst (m ! i)) = Some (snd (m ! i))"
      using bt_wf_distinct [OF assms(1)] i by (simp add: bt_get_def)
    moreover have "bt_get m' (fst (m' ! i)) = Some (snd (m' ! i))"
      using bt_wf_distinct [OF assms(2)] i len by (simp add: bt_get_def)
    ultimately show "m ! i = m' ! i"
      using assms(3) by (metis option.inject prod.collapse)
  qed
qed

lemma bt_last_None [simp]: "bt_last m = None \<longleftrightarrow> m = []"
  by (simp add: bt_last_def)

lemma bt_wf_last_max:
  assumes "bt_wf m" and "bt_last m = Some (k, v)"
  shows "bt_get m k = Some v \<and> (\<forall>k'. bt_get m k' \<noteq> None \<longrightarrow> k' \<le> k)"
proof -
  from assms(2) have ne: "m \<noteq> []" and last: "last m = (k, v)"
    by (auto simp: bt_last_def split: if_splits)
  then have "(k, v) \<in> set m" by (metis last_in_set)
  then have get: "bt_get m k = Some v"
    using bt_wf_distinct [OF assms(1)] by (simp add: bt_get_def)
  have "k' \<le> k" if "k' \<in> fst ` set m" for k'
  proof -
    have lst: "last (map fst m) = k" using ne last by (simp add: last_map)
    have "sorted (map fst m)" by (rule bt_wf_sorted [OF assms(1)])
    moreover have "map fst m \<noteq> []" "k' \<in> set (map fst m)" using ne that by auto
    ultimately have "k' \<le> last (map fst m)"
      by (metis (no_types, lifting) append_butlast_last_id in_set_conv_decomp last_in_set
          le_cases list.distinct(1) rotate1.simps(2) set_ConsD set_rotate1 sorted_append)
    with lst show ?thesis by simp
  qed
  with get show ?thesis by (auto simp: bt_get_None_iff)
qed

section \<open>Ordered sets\<close>

text \<open>A \<open>BTreeSet\<close> is the ascending list of its elements.\<close>

definition bs_insert :: "'a::linorder \<Rightarrow> 'a list \<Rightarrow> 'a list" where
  "bs_insert x xs = (if x \<in> set xs then xs else insort x xs)"

fun bs_extend :: "'a::linorder list \<Rightarrow> 'a list \<Rightarrow> 'a list" where
  "bs_extend [] s = s"
| "bs_extend (x # xs) s = bs_extend xs (bs_insert x s)"

definition bs_wf :: "'a::linorder list \<Rightarrow> bool" where
  "bs_wf s \<longleftrightarrow> sorted_wrt (<) s"

lemma set_bs_insert [simp]: "set (bs_insert x s) = insert x (set s)"
  by (auto simp: bs_insert_def set_insort_key)

lemma set_bs_extend [simp]: "set (bs_extend xs s) = set xs \<union> set s"
  by (induction xs s rule: bs_extend.induct) auto

lemma bs_wf_Nil [simp]: "bs_wf []"
  by (simp add: bs_wf_def)

lemma bs_wf_insert [simp, intro]: "bs_wf s \<Longrightarrow> bs_wf (bs_insert x s)"
  by (auto simp: bs_wf_def bs_insert_def strict_sorted_iff sorted_insort distinct_insort)

lemma bs_wf_extend [simp, intro]: "bs_wf s \<Longrightarrow> bs_wf (bs_extend xs s)"
  by (induction xs s rule: bs_extend.induct) auto

lemma bs_wf_filter [simp, intro]: "bs_wf s \<Longrightarrow> bs_wf (filter P s)"
  by (simp add: bs_wf_def sorted_wrt_filter)

lemma bs_wf_distinct: "bs_wf s \<Longrightarrow> distinct s"
  by (simp add: bs_wf_def strict_sorted_iff)

lemma bs_wf_ext: "bs_wf s \<Longrightarrow> bs_wf t \<Longrightarrow> set s = set t \<Longrightarrow> s = t"
  by (auto simp: bs_wf_def strict_sorted_iff intro: sorted_distinct_set_unique)

section \<open>Options\<close>

definition opt_filter :: "('a \<Rightarrow> bool) \<Rightarrow> 'a option \<Rightarrow> 'a option" where
  "opt_filter P x = (case x of None \<Rightarrow> None | Some a \<Rightarrow> if P a then Some a else None)"

lemma opt_filter_Some [simp]: "opt_filter P x = Some a \<longleftrightarrow> x = Some a \<and> P a"
  by (auto simp: opt_filter_def split: option.splits if_splits)

lemma opt_filter_simps [simp]:
  "opt_filter P None = None" "opt_filter P (Some a) = (if P a then Some a else None)"
  by (simp_all add: opt_filter_def)

end
