(* ===== verification/Raft_Types.thy ===== *)
theory Raft_Types
  imports Vos_Prelude
begin

text \<open>
  The data of the Raft core \<open>support/vos-raft\<close>: the replica's role with its 8-bit mirror
  (\<open>role.rs\<close>), log entries (\<open>log_entry.rs\<close>), the durable scalars (\<open>meta.rs\<close>),
  the per-replica configuration (\<open>config.rs\<close>), the RPC requests and replies
  (\<open>rpc.rs\<close>). Node identities are a type \<open>'n\<close> with a total order, as the trait
  \<open>NodeId\<close> asks. Log indices and terms are natural numbers: \<open>u64\<close> counters of the code
  that grow one at a time and are compared, never wrapped; where the code saturates, so does the
  model.
\<close>

section \<open>Roles\<close>

datatype role = Follower | PreCandidate | Candidate | Leader

fun as_u8 :: "role \<Rightarrow> byte" where
  "as_u8 Follower = 0"
| "as_u8 Candidate = 1"
| "as_u8 Leader = 2"
| "as_u8 PreCandidate = 3"

definition from_u8 :: "byte \<Rightarrow> role" where
  "from_u8 v = (if v = 1 then Candidate else if v = 2 then Leader
                else if v = 3 then PreCandidate else Follower)"

lemma from_u8_as_u8 [simp]: "from_u8 (as_u8 r) = r"
  by (cases r) (simp_all add: from_u8_def)

lemma as_u8_inject [simp]: "as_u8 r = as_u8 r' \<longleftrightarrow> r = r'"
  by (metis from_u8_as_u8)

section \<open>Configuration\<close>

record 'n config =
  cfg_me :: 'n
  cfg_members :: "'n list"
  election_timeout_ms :: "nat \<times> nat"
  heartbeat_interval_ms :: nat
  replication_id :: "byte list"
  compact_hysteresis :: nat
  pre_vote :: bool
  install_snapshot_chunk_bytes :: nat
  max_pending_reads :: nat
  max_snapshot_bytes :: nat
  pre_candidate_misses_before_revert :: nat

definition config_new :: "'n \<Rightarrow> 'n list \<Rightarrow> byte list \<Rightarrow> 'n config" where
  "config_new me members rid =
     \<lparr>cfg_me = me, cfg_members = members, election_timeout_ms = (150, 300),
      heartbeat_interval_ms = 50, replication_id = rid, compact_hysteresis = 16,
      pre_vote = True, install_snapshot_chunk_bytes = 32 * 1024, max_pending_reads = 1024,
      max_snapshot_bytes = 512 * 1024 * 1024, pre_candidate_misses_before_revert = 3\<rparr>"

definition config_quorum :: "'n config \<Rightarrow> nat" where
  "config_quorum c = length (cfg_members c) div 2 + 1"

section \<open>Log entries and durable scalars\<close>

datatype 'n entry_kind =
    Data (data_payload: "byte list")
  | ConfigChange (cc_joint_old: "'n list option") (cc_members: "'n list")

record 'n log_entry =
  le_index :: nat
  le_term :: nat
  le_kind :: "'n entry_kind"

definition entry_data :: "nat \<Rightarrow> nat \<Rightarrow> byte list \<Rightarrow> 'n log_entry" where
  "entry_data i t p = \<lparr>le_index = i, le_term = t, le_kind = Data p\<rparr>"

definition entry_config_change ::
  "nat \<Rightarrow> nat \<Rightarrow> 'n list option \<Rightarrow> 'n list \<Rightarrow> 'n log_entry" where
  "entry_config_change i t jo ms = \<lparr>le_index = i, le_term = t, le_kind = ConfigChange jo ms\<rparr>"

definition entry_payload :: "'n log_entry \<Rightarrow> byte list option" where
  "entry_payload e = (case le_kind e of Data p \<Rightarrow> Some p | ConfigChange _ _ \<Rightarrow> None)"

lemma entry_data_sel [simp]:
  "le_index (entry_data i t p) = i" "le_term (entry_data i t p) = t"
  "le_kind (entry_data i t p) = Data p"
  by (simp_all add: entry_data_def)

lemma entry_config_change_sel [simp]:
  "le_index (entry_config_change i t jo ms) = i" "le_term (entry_config_change i t jo ms) = t"
  "le_kind (entry_config_change i t jo ms) = ConfigChange jo ms"
  by (simp_all add: entry_config_change_def)

record 'n meta =
  current_term :: nat
  voted_for :: "'n option"
  commit_index :: nat
  snap_last_index :: nat
  snap_last_term :: nat

definition meta_default :: "'n meta" where
  "meta_default = \<lparr>current_term = 0, voted_for = None, commit_index = 0,
                   snap_last_index = 0, snap_last_term = 0\<rparr>"

section \<open>RPCs\<close>

record 'n append_entries_req =
  ae_leader :: 'n
  ae_term :: nat
  ae_prev_log_index :: nat
  ae_prev_log_term :: nat
  ae_leader_commit :: nat
  ae_entries :: "'n log_entry list"

record append_entries_resp =
  ar_term :: nat
  ar_success :: bool
  ar_match_index :: nat

record 'n request_vote_req =
  rv_candidate :: 'n
  rv_term :: nat
  rv_last_log_index :: nat
  rv_last_log_term :: nat

record request_vote_resp =
  vr_term :: nat
  vr_vote_granted :: bool

record 'n pre_vote_req =
  pv_candidate :: 'n
  pv_next_term :: nat
  pv_last_log_index :: nat
  pv_last_log_term :: nat

record pre_vote_resp =
  pr_term :: nat
  pr_vote_granted :: bool

record 'n install_snapshot_req =
  is_leader :: 'n
  is_term :: nat
  is_last_included_index :: nat
  is_last_included_term :: nat
  is_offset :: nat
  is_done :: bool
  is_data :: "byte list"
  is_members :: "'n list"
  is_joint_old :: "'n list option"
  is_active_config_index :: "nat option"

record install_snapshot_resp =
  ir_term :: nat
  ir_bytes_received :: nat

section \<open>Configuration changes found in a log\<close>

fun is_config_change :: "'n entry_kind \<Rightarrow> bool" where
  "is_config_change (Data _) = False"
| "is_config_change (ConfigChange _ _) = True"

text \<open>
  The loops \<open>for e in entries.iter().rev()\<close> that stop at the first
  \<open>ConfigChange\<close>: the latest one, with its index.
\<close>

fun first_config :: "(nat \<times> 'n entry_kind) list \<Rightarrow> (nat \<times> 'n list option \<times> 'n list) option" where
  "first_config [] = None"
| "first_config ((i, Data _) # es) = first_config es"
| "first_config ((i, ConfigChange jo ms) # es) = Some (i, jo, ms)"

definition latest_config ::
  "(nat \<times> 'n entry_kind) list \<Rightarrow> (nat \<times> 'n list option \<times> 'n list) option" where
  "latest_config es = first_config (rev es)"

lemma first_config_None: "first_config es = None \<longleftrightarrow> (\<forall>(i, k)\<in>set es. \<not> is_config_change k)"
  by (induction es rule: first_config.induct) auto

lemma latest_config_None: "latest_config es = None \<longleftrightarrow> (\<forall>(i, k)\<in>set es. \<not> is_config_change k)"
  by (simp add: latest_config_def first_config_None)

lemma first_config_Some: "first_config es = Some (i, jo, ms) \<Longrightarrow> (i, ConfigChange jo ms) \<in> set es"
  by (induction es rule: first_config.induct) auto

lemma latest_config_Some: "latest_config es = Some (i, jo, ms) \<Longrightarrow> (i, ConfigChange jo ms) \<in> set es"
  using first_config_Some [of "rev es"] by (simp add: latest_config_def)

end
