(* ===== verification/Raft_Storage.thy ===== *)
theory Raft_Storage
  imports Raft_Types
begin

text \<open>
  The storage interface of the Raft core (\<open>storage.rs\<close>): the atomic \<open>WriteBatch\<close>,
  the in-memory backend \<open>MemStorage\<close>, and the trait \<open>Storage\<close> as a record of
  operations that the worker takes as an argument. The locale \<open>raft_storage\<close> states what
  the trait documents: every backend behaves like \<open>MemStorage\<close> through an abstraction
  function, a batch lands whole or not at all. \<open>MemStorage\<close> itself and the
  fault-injecting wrapper of the crate's own test suite are interpretations.
\<close>

record 'n active_config_record =
  acr_log_index :: "nat option"
  acr_current :: "'n list"
  acr_joint_old :: "'n list option"

record 'n write_batch =
  wb_truncate_after :: "nat option"
  wb_compact_to :: "(nat \<times> nat) option"
  wb_appends :: "'n log_entry list"
  wb_state :: "byte list option"
  wb_meta :: "'n meta option"
  wb_active_config :: "'n active_config_record option"

definition write_batch_default :: "'n write_batch" where
  "write_batch_default = \<lparr>wb_truncate_after = None, wb_compact_to = None, wb_appends = [],
     wb_state = None, wb_meta = None, wb_active_config = None\<rparr>"

section \<open>MemStorage\<close>

record 'n mem_storage =
  ms_log :: "(nat, 'n log_entry) btree"
  ms_state :: "byte list"
  ms_meta :: "'n meta"
  ms_applied_index :: "nat option"
  ms_active_config :: "'n active_config_record option"

definition mem_new :: "'n mem_storage" where
  "mem_new = \<lparr>ms_log = [], ms_state = [], ms_meta = meta_default, ms_applied_index = None,
              ms_active_config = None\<rparr>"

definition mem_with_applied_index :: "nat \<Rightarrow> 'n mem_storage \<Rightarrow> 'n mem_storage" where
  "mem_with_applied_index i s = s\<lparr>ms_applied_index := Some i\<rparr>"

definition mem_last_index :: "'n mem_storage \<Rightarrow> nat" where
  "mem_last_index s = (case bt_last (ms_log s) of Some (k, _) \<Rightarrow> k
                       | None \<Rightarrow> snap_last_index (ms_meta s))"

definition mem_last_term :: "'n mem_storage \<Rightarrow> nat" where
  "mem_last_term s = (case bt_last (ms_log s) of Some (_, e) \<Rightarrow> le_term e
                      | None \<Rightarrow> snap_last_term (ms_meta s))"

definition mem_term_at :: "'n mem_storage \<Rightarrow> nat \<Rightarrow> nat option" where
  "mem_term_at s i =
     (if i = 0 then Some 0
      else if i < snap_last_index (ms_meta s) then None
      else if i = snap_last_index (ms_meta s) \<and> snap_last_index (ms_meta s) > 0
        then Some (snap_last_term (ms_meta s))
      else map_option le_term (bt_get (ms_log s) i))"

definition mem_entries :: "'n mem_storage \<Rightarrow> nat \<Rightarrow> nat \<Rightarrow> 'n log_entry list" where
  "mem_entries s start stop =
     (if start > stop then []
      else map snd (bt_range (max start (snap_last_index (ms_meta s) + 1)) stop (ms_log s)))"

text \<open>The six parts of a batch in the documented order.\<close>

definition mem_truncate :: "nat option \<Rightarrow> 'n mem_storage \<Rightarrow> 'n mem_storage" where
  "mem_truncate t s = (case t of None \<Rightarrow> s
     | Some after \<Rightarrow> s\<lparr>ms_log := bt_retain (\<lambda>k. k \<le> after) (ms_log s)\<rparr>)"

definition mem_compact :: "(nat \<times> nat) option \<Rightarrow> 'n mem_storage \<Rightarrow> 'n mem_storage" where
  "mem_compact c s = (case c of None \<Rightarrow> s
     | Some (idx, t) \<Rightarrow> s\<lparr>ms_log := bt_retain (\<lambda>k. k > idx) (ms_log s),
         ms_meta := (ms_meta s)\<lparr>snap_last_index := idx, snap_last_term := t\<rparr>\<rparr>)"

definition mem_append :: "'n log_entry list \<Rightarrow> 'n mem_storage \<Rightarrow> 'n mem_storage" where
  "mem_append es s = s\<lparr>ms_log := bt_insert_all (map (\<lambda>e. (le_index e, e)) es) (ms_log s)\<rparr>"

definition mem_set_state ::
  "byte list option \<Rightarrow> (nat \<times> nat) option \<Rightarrow> 'n mem_storage \<Rightarrow> 'n mem_storage" where
  "mem_set_state st c s = (case st of None \<Rightarrow> s
     | Some b \<Rightarrow> s\<lparr>ms_state := b,
         ms_applied_index := (case c of None \<Rightarrow> ms_applied_index s | Some (i, _) \<Rightarrow> Some i)\<rparr>)"

definition mem_set_meta :: "'n meta option \<Rightarrow> 'n mem_storage \<Rightarrow> 'n mem_storage" where
  "mem_set_meta m s = (case m of None \<Rightarrow> s | Some m' \<Rightarrow> s\<lparr>ms_meta := m'\<rparr>)"

definition mem_set_active_config ::
  "'n active_config_record option \<Rightarrow> 'n mem_storage \<Rightarrow> 'n mem_storage" where
  "mem_set_active_config c s = (case c of None \<Rightarrow> s | Some r \<Rightarrow> s\<lparr>ms_active_config := Some r\<rparr>)"

definition mem_commit_batch :: "'n mem_storage \<Rightarrow> 'n write_batch \<Rightarrow> 'n mem_storage" where
  "mem_commit_batch s b =
     mem_set_active_config (wb_active_config b)
       (mem_set_meta (wb_meta b)
         (mem_set_state (wb_state b) (wb_compact_to b)
           (mem_append (wb_appends b)
             (mem_compact (wb_compact_to b)
               (mem_truncate (wb_truncate_after b) s)))))"

section \<open>The trait\<close>

record ('n, 's, 'e) storage_ops =
  st_last_index :: "'s \<Rightarrow> nat"
  st_last_term :: "'s \<Rightarrow> nat"
  st_snap_last_index :: "'s \<Rightarrow> nat"
  st_snap_last_term :: "'s \<Rightarrow> nat"
  st_term_at :: "'s \<Rightarrow> nat \<Rightarrow> 'e + nat option"
  st_entries :: "'s \<Rightarrow> nat \<Rightarrow> nat \<Rightarrow> 'e + 'n log_entry list"
  st_read_state :: "'s \<Rightarrow> 'e + byte list"
  st_applied_index :: "'s \<Rightarrow> 'e + nat option"
  st_load_meta :: "'s \<Rightarrow> 'e + 'n meta"
  st_active_config :: "'s \<Rightarrow> 'e + 'n active_config_record option"
  st_commit_batch :: "'s \<Rightarrow> 'n write_batch \<Rightarrow> ('e + unit) \<times> 's"

definition mem_ops :: "('n, 'n mem_storage, 'e) storage_ops" where
  "mem_ops = \<lparr>st_last_index = mem_last_index, st_last_term = mem_last_term,
     st_snap_last_index = (\<lambda>s. snap_last_index (ms_meta s)),
     st_snap_last_term = (\<lambda>s. snap_last_term (ms_meta s)),
     st_term_at = (\<lambda>s i. Inr (mem_term_at s i)),
     st_entries = (\<lambda>s a b. Inr (mem_entries s a b)),
     st_read_state = (\<lambda>s. Inr (ms_state s)),
     st_applied_index = (\<lambda>s. Inr (ms_applied_index s)),
     st_load_meta = (\<lambda>s. Inr (ms_meta s)),
     st_active_config = (\<lambda>s. Inr (ms_active_config s)),
     st_commit_batch = (\<lambda>s b. (Inr (), mem_commit_batch s b))\<rparr>"

text \<open>
  The crate's fault-injection backend: a wrapper that fails the next calls of an operation
  and otherwise delegates. A failed \<open>commit_batch\<close> leaves the inner backend untouched.
  The budgets of the read operations are interior-mutable counters in the code; here a read
  fails as long as its budget is not spent, which the harness lowers between handler calls.
\<close>

record ('n) fault_storage =
  fs_inner :: "'n mem_storage"
  fs_fail_commit :: nat
  fs_fail_load_meta :: nat
  fs_fail_term_at :: nat
  fs_fail_entries :: nat

datatype fault_err = FaultErr

definition fault_ops :: "('n, 'n fault_storage, fault_err) storage_ops" where
  "fault_ops = \<lparr>st_last_index = (\<lambda>s. mem_last_index (fs_inner s)),
     st_last_term = (\<lambda>s. mem_last_term (fs_inner s)),
     st_snap_last_index = (\<lambda>s. snap_last_index (ms_meta (fs_inner s))),
     st_snap_last_term = (\<lambda>s. snap_last_term (ms_meta (fs_inner s))),
     st_term_at = (\<lambda>s i. if fs_fail_term_at s > 0 then Inl FaultErr
                         else Inr (mem_term_at (fs_inner s) i)),
     st_entries = (\<lambda>s a b. if fs_fail_entries s > 0 then Inl FaultErr
                           else Inr (mem_entries (fs_inner s) a b)),
     st_read_state = (\<lambda>s. Inr (ms_state (fs_inner s))),
     st_applied_index = (\<lambda>s. Inr None),
     st_load_meta = (\<lambda>s. if fs_fail_load_meta s > 0 then Inl FaultErr
                         else Inr (ms_meta (fs_inner s))),
     st_active_config = (\<lambda>s. Inr None),
     st_commit_batch = (\<lambda>s b. if fs_fail_commit s > 0
        then (Inl FaultErr, s\<lparr>fs_fail_commit := fs_fail_commit s - 1\<rparr>)
        else (Inr (), s\<lparr>fs_inner := mem_commit_batch (fs_inner s) b\<rparr>))\<rparr>"

locale raft_storage =
  fixes S :: "('n::linorder, 's, 'e) storage_ops"
    and view :: "'s \<Rightarrow> 'n mem_storage"
  assumes last_index: "st_last_index S s = mem_last_index (view s)"
    and last_term: "st_last_term S s = mem_last_term (view s)"
    and snap_index: "st_snap_last_index S s = snap_last_index (ms_meta (view s))"
    and snap_term: "st_snap_last_term S s = snap_last_term (ms_meta (view s))"
    and term_at: "st_term_at S s i = Inr t \<Longrightarrow> t = mem_term_at (view s) i"
    and entries: "st_entries S s a b = Inr es \<Longrightarrow> es = mem_entries (view s) a b"
    and read_state: "st_read_state S s = Inr bs \<Longrightarrow> bs = ms_state (view s)"
    and load_meta: "st_load_meta S s = Inr m \<Longrightarrow> m = ms_meta (view s)"
    and active_config: "st_active_config S s = Inr c \<Longrightarrow> c = None \<or> c = ms_active_config (view s)"
    and commit_ok: "st_commit_batch S s wb = (Inr (), s') \<Longrightarrow> view s' = mem_commit_batch (view s) wb"
    and commit_err: "st_commit_batch S s wb = (Inl e, s') \<Longrightarrow> view s' = view s"

interpretation mem: raft_storage mem_ops "\<lambda>s. s"
  by unfold_locales (auto simp: mem_ops_def)

interpretation fault: raft_storage fault_ops fs_inner
  by unfold_locales (auto simp: fault_ops_def split: if_splits)

context raft_storage
begin

lemmas storage_reads = last_index last_term snap_index snap_term

end

section \<open>Contiguous logs\<close>

text \<open>
  \<open>log_ok\<close>: the live log holds exactly the indices after the snapshot boundary, without a
  gap, and every entry carries its own index. This is the shape the \<open>WriteBatch\<close> contract
  asks of \<open>appends\<close>.
\<close>

definition log_ok :: "'n mem_storage \<Rightarrow> bool" where
  "log_ok s \<longleftrightarrow>
     map fst (ms_log s) = [Suc (snap_last_index (ms_meta s)) ..<
                           Suc (snap_last_index (ms_meta s) + length (ms_log s))] \<and>
     list_all (\<lambda>(k, e). le_index e = k) (ms_log s)"

lemma log_ok_wf: "log_ok s \<Longrightarrow> bt_wf (ms_log s)"
  by (simp add: log_ok_def bt_wf_def del: upt_Suc)

lemma log_ok_last: "log_ok s \<Longrightarrow> mem_last_index s = snap_last_index (ms_meta s) + length (ms_log s)"
proof -
  assume ok: "log_ok s"
  show ?thesis
  proof (cases "ms_log s = []")
    case True
    then show ?thesis by (simp add: mem_last_index_def bt_last_def)
  next
    case False
    then have "fst (last (ms_log s)) = last (map fst (ms_log s))" by (simp add: last_map)
    also have "\<dots> = snap_last_index (ms_meta s) + length (ms_log s)"
      using ok False by (auto simp: log_ok_def Suc_le_eq)
    finally show ?thesis
      using False by (simp add: mem_last_index_def bt_last_def case_prod_beta)
  qed
qed

lemma log_ok_get:
  assumes "log_ok s"
  shows "bt_get (ms_log s) k \<noteq> None \<longleftrightarrow>
           snap_last_index (ms_meta s) < k \<and> k \<le> mem_last_index s"
proof -
  have "bt_get (ms_log s) k \<noteq> None \<longleftrightarrow> k \<in> set (map fst (ms_log s))"
    by (simp add: bt_get_None_iff)
  also have "\<dots> \<longleftrightarrow> k \<in> set [Suc (snap_last_index (ms_meta s)) ..<
                         Suc (snap_last_index (ms_meta s) + length (ms_log s))]"
    using assms unfolding log_ok_def by (simp only:)
  finally show ?thesis using log_ok_last [OF assms] by auto
qed

lemma log_ok_le_index:
  assumes "log_ok s" and "bt_get (ms_log s) k = Some e"
  shows "le_index e = k"
  using assms bt_get_Some_in [OF assms(2)] by (auto simp: log_ok_def list_all_iff)

lemma sorted_keys_upt:
  assumes "sorted_wrt (<) xs" and "set xs = {a<..b}" and "a \<le> (b::nat)"
  shows "xs = [Suc a ..< Suc (a + length xs)] \<and> length xs = b - a"
proof -
  have "distinct xs" using assms(1) by (simp add: strict_sorted_iff)
  then have len: "length xs = b - a"
    using assms(2) distinct_card [of xs] by simp
  have "xs = sorted_list_of_set {a<..b}"
    using assms(1,2) by (metis sorted_list_of_set.idem_if_sorted_distinct strict_sorted_iff)
  also have "\<dots> = [Suc a ..< Suc b]"
    by (metis atLeastSucAtMost_greaterThanAtMost atLeastLessThanSuc_atLeastAtMost
        sorted_list_of_set_range)
  finally show ?thesis using len assms(3) by simp
qed

text \<open>The way every operation establishes \<open>log_ok\<close>: by what the new log holds.\<close>

lemma log_okI:
  assumes wf: "bt_wf (ms_log s)"
    and keys: "\<And>k. bt_get (ms_log s) k \<noteq> None \<longleftrightarrow> snap_last_index (ms_meta s) < k \<and> k \<le> b"
    and le: "snap_last_index (ms_meta s) \<le> b"
    and idx: "\<And>k e. bt_get (ms_log s) k = Some e \<Longrightarrow> le_index e = k"
  shows "log_ok s \<and> mem_last_index s = b"
proof -
  have "k \<in> fst ` set (ms_log s) \<longleftrightarrow> k \<in> {snap_last_index (ms_meta s)<..b}" for k
    using keys [of k] by (simp add: bt_get_None_iff)
  then have st: "set (map fst (ms_log s)) = {snap_last_index (ms_meta s)<..b}"
    by (simp add: set_eq_iff)
  have srt: "sorted_wrt (<) (map fst (ms_log s))" using wf by (simp add: bt_wf_def)
  note upt = sorted_keys_upt [OF srt st le]
  have "le_index e = k" if "(k, e) \<in> set (ms_log s)" for k e
    using idx [of k e] that bt_wf_distinct [OF wf] by (simp add: bt_get_def)
  then have "list_all (\<lambda>(k, e). le_index e = k) (ms_log s)" by (auto simp: list_all_iff)
  with upt have ok: "log_ok s" by (simp add: log_ok_def)
  with log_ok_last [OF ok] upt le show ?thesis by simp
qed

lemma log_ok_snap_le_last: "log_ok s \<Longrightarrow> snap_last_index (ms_meta s) \<le> mem_last_index s"
  by (simp add: log_ok_last)

lemma mem_new_log_ok [simp]: "log_ok mem_new"
  by (simp add: log_ok_def mem_new_def meta_default_def)

subsection \<open>What a batch leaves in the store\<close>

lemma mem_commit_batch_sel [simp]:
  "ms_log (mem_commit_batch s b) =
     bt_insert_all (map (\<lambda>e. (le_index e, e)) (wb_appends b))
       ((case wb_compact_to b of None \<Rightarrow> id | Some (i, _) \<Rightarrow> bt_retain (\<lambda>k. k > i))
         ((case wb_truncate_after b of None \<Rightarrow> id | Some a \<Rightarrow> bt_retain (\<lambda>k. k \<le> a)) (ms_log s)))"
  "ms_meta (mem_commit_batch s b) =
     (case wb_meta b of Some m \<Rightarrow> m
      | None \<Rightarrow> (case wb_compact_to b of None \<Rightarrow> ms_meta s
          | Some (i, t) \<Rightarrow> (ms_meta s)\<lparr>snap_last_index := i, snap_last_term := t\<rparr>))"
  "ms_state (mem_commit_batch s b) =
     (case wb_state b of Some st \<Rightarrow> st | None \<Rightarrow> ms_state s)"
  "ms_active_config (mem_commit_batch s b) =
     (case wb_active_config b of Some c \<Rightarrow> Some c | None \<Rightarrow> ms_active_config s)"
  by (auto simp: mem_commit_batch_def mem_set_active_config_def mem_set_meta_def
      mem_set_state_def mem_append_def mem_compact_def mem_truncate_def
      split: option.splits prod.splits)

end
