(* ===== verification/Raft_Quorum.thy ===== *)
theory Raft_Quorum
  imports Raft_Types "HOL-Library.Multiset"
begin

text \<open>
  The membership view \<open>ActiveConfig\<close> of \<open>worker.rs\<close> and its quorum arithmetic, steady
  and joint. The theorems are the two facts every Raft argument rests on: two quorums of the
  same or of overlapping configurations share a voter, and \<open>majority_floor\<close> is the highest
  score that a quorum reaches.
\<close>

record 'n active_config =
  ac_current :: "'n list"
  ac_joint_old :: "'n list option"

definition steady :: "'n list \<Rightarrow> 'n active_config" where
  "steady ms = \<lparr>ac_current = ms, ac_joint_old = None\<rparr>"

definition is_joint :: "'n active_config \<Rightarrow> bool" where
  "is_joint c \<longleftrightarrow> ac_joint_old c \<noteq> None"

definition quorum_current :: "'n active_config \<Rightarrow> nat" where
  "quorum_current c = length (ac_current c) div 2 + 1"

definition quorum_old :: "'n active_config \<Rightarrow> nat" where
  "quorum_old c = (case ac_joint_old c of Some m \<Rightarrow> length m div 2 + 1 | None \<Rightarrow> 0)"

fun push_missing :: "'n list \<Rightarrow> 'n list \<Rightarrow> 'n list" where
  "push_missing seen [] = seen"
| "push_missing seen (m # ms) =
     (if m \<in> set seen then push_missing seen ms else push_missing (seen @ [m]) ms)"

definition all_members :: "'n active_config \<Rightarrow> 'n list" where
  "all_members c = (case ac_joint_old c of None \<Rightarrow> ac_current c
                    | Some old \<Rightarrow> push_missing (ac_current c) old)"

definition quorum_holds :: "'n active_config \<Rightarrow> ('n \<Rightarrow> bool) \<Rightarrow> bool" where
  "quorum_holds c P =
     (if length (filter P (ac_current c)) < quorum_current c then False
      else case ac_joint_old c of None \<Rightarrow> True
           | Some old \<Rightarrow> \<not> length (filter P old) < quorum_old c)"

definition sort_desc :: "nat list \<Rightarrow> nat list" where
  "sort_desc xs = rev (sort xs)"

definition majority_floor :: "'n active_config \<Rightarrow> ('n \<Rightarrow> nat) \<Rightarrow> nat option" where
  "majority_floor c score =
     (let current_scores = sort_desc (map score (ac_current c)); q_cur = quorum_current c
      in if q_cur = 0 \<or> q_cur > length current_scores then None
         else let floor = current_scores ! (q_cur - 1)
         in case ac_joint_old c of None \<Rightarrow> Some floor
            | Some old \<Rightarrow>
                let old_scores = sort_desc (map score old); q_old = quorum_old c
                in if q_old = 0 \<or> q_old > length old_scores then None
                   else Some (min floor (old_scores ! (q_old - 1))))"

lemma steady_sel [simp]: "ac_current (steady ms) = ms" "ac_joint_old (steady ms) = None"
  by (simp_all add: steady_def)

lemma set_push_missing [simp]: "set (push_missing seen ms) = set seen \<union> set ms"
  by (induction seen ms rule: push_missing.induct) auto

lemma set_all_members:
  "set (all_members c) = set (ac_current c) \<union> (case ac_joint_old c of None \<Rightarrow> {} | Some o' \<Rightarrow> set o')"
  by (simp add: all_members_def split: option.splits)

lemma all_members_steady [simp]: "all_members (steady ms) = ms"
  by (simp add: all_members_def)

lemma push_missing_distinct: "distinct seen \<Longrightarrow> distinct (push_missing seen ms)"
  by (induction seen ms rule: push_missing.induct) auto

section \<open>Quorum intersection\<close>

lemma filter_overlap:
  "length xs < length (filter P xs) + length (filter Q xs) \<Longrightarrow> \<exists>x\<in>set xs. P x \<and> Q x"
proof (rule ccontr)
  assume len: "length xs < length (filter P xs) + length (filter Q xs)"
    and no: "\<not> (\<exists>x\<in>set xs. P x \<and> Q x)"
  have "length (filter P xs) + length (filter Q xs) \<le> length xs"
    using no by (induction xs) auto
  with len show False by simp
qed

lemma quorum_holds_current:
  "quorum_holds c P \<Longrightarrow> length (ac_current c) < 2 * length (filter P (ac_current c))"
  by (auto simp: quorum_holds_def quorum_current_def split: if_splits)

lemma quorum_holds_old:
  "quorum_holds c P \<Longrightarrow> ac_joint_old c = Some old \<Longrightarrow> length old < 2 * length (filter P old)"
  by (auto simp: quorum_holds_def quorum_old_def split: if_splits)

lemma quorum_holds_steady:
  "quorum_holds (steady ms) P \<longleftrightarrow> length ms < 2 * length (filter P ms)"
  by (auto simp: quorum_holds_def quorum_current_def)

lemma quorum_holds_mono:
  assumes "quorum_holds c P" and "\<And>m. m \<in> set (all_members c) \<Longrightarrow> P m \<Longrightarrow> Q m"
  shows "quorum_holds c Q"
proof -
  have mono: "length (filter P xs) \<le> length (filter Q xs)" if "set xs \<subseteq> set (all_members c)" for xs
    using that assms(2) by (induction xs) auto
  have "length (filter P (ac_current c)) \<le> length (filter Q (ac_current c))"
    by (rule mono) (auto simp: set_all_members)
  moreover have "length (filter P old) \<le> length (filter Q old)" if "ac_joint_old c = Some old" for old
    by (rule mono) (use that in \<open>auto simp: set_all_members\<close>)
  ultimately show ?thesis
    using assms(1) by (fastforce simp: quorum_holds_def split: if_splits option.splits)
qed

lemma quorum_holds_cong:
  assumes "\<And>m. m \<in> set (all_members c) \<Longrightarrow> P m = Q m"
  shows "quorum_holds c P \<longleftrightarrow> quorum_holds c Q"
  using quorum_holds_mono [of c P Q] quorum_holds_mono [of c Q P] assms by blast

text \<open>
  Two membership views that share a voter list -- the same configuration, the joint
  configuration and the old one, or the joint configuration and the new one.
\<close>

definition shares_voters :: "'n active_config \<Rightarrow> 'n active_config \<Rightarrow> 'n list \<Rightarrow> bool" where
  "shares_voters c d ms \<longleftrightarrow>
     (ac_current c = ms \<or> ac_joint_old c = Some ms) \<and> (ac_current d = ms \<or> ac_joint_old d = Some ms)"

lemma quorum_majority:
  "quorum_holds c P \<Longrightarrow> ac_current c = ms \<or> ac_joint_old c = Some ms \<Longrightarrow>
     length ms < 2 * length (filter P ms)"
  using quorum_holds_current quorum_holds_old by blast

lemma quorums_intersect:
  assumes "quorum_holds c P" and "quorum_holds d Q" and "shares_voters c d ms"
  shows "\<exists>m\<in>set ms. P m \<and> Q m"
proof (rule filter_overlap)
  have "length ms < 2 * length (filter P ms)" "length ms < 2 * length (filter Q ms)"
    using assms quorum_majority [of c P ms] quorum_majority [of d Q ms]
    by (auto simp: shares_voters_def)
  then show "length ms < length (filter P ms) + length (filter Q ms)" by linarith
qed

section \<open>The majority floor\<close>

lemma length_sort_desc [simp]: "length (sort_desc xs) = length xs"
  by (simp add: sort_desc_def)

lemma sorted_filter_ge_drop:
  "sorted xs \<Longrightarrow> filter (\<lambda>x. g \<le> x) xs = drop (length xs - length (filter (\<lambda>x. g \<le> x) xs)) (xs::nat list)"
proof (induction xs)
  case (Cons a xs)
  show ?case
  proof (cases "g \<le> a")
    case True
    then have "filter (\<lambda>x. g \<le> x) (a # xs) = a # xs"
      using Cons.prems by (auto intro!: filter_True)
    then show ?thesis by simp
  next
    case False
    have "length (filter (\<lambda>x. g \<le> x) xs) \<le> length xs" by (rule length_filter_le)
    then have "Suc (length xs) - length (filter (\<lambda>x. g \<le> x) xs) =
               Suc (length xs - length (filter (\<lambda>x. g \<le> x) xs))" by (rule Suc_diff_le)
    with Cons False show ?thesis by simp
  qed
qed simp

lemma sort_desc_nth_ge:
  assumes "0 < q" and "q \<le> length xs"
  shows "g \<le> sort_desc xs ! (q - 1) \<longleftrightarrow> q \<le> length (filter (\<lambda>x. g \<le> x) xs)"
proof -
  let ?s = "sort xs"
  let ?n = "length (filter (\<lambda>x. g \<le> x) ?s)"
  have same: "?n = length (filter (\<lambda>x. g \<le> x) xs)"
    by (metis mset_filter mset_sort size_mset)
  have nth: "sort_desc xs ! (q - 1) = ?s ! (length xs - q)"
    using assms by (simp add: sort_desc_def rev_nth)
  have le: "?n \<le> length xs" using length_filter_le [of "\<lambda>x. g \<le> x" ?s] by simp
  have dropeq: "filter (\<lambda>x. g \<le> x) ?s = drop (length xs - ?n) ?s"
    using sorted_filter_ge_drop [of ?s g] by simp
  show ?thesis
  proof
    assume "g \<le> sort_desc xs ! (q - 1)"
    then have ge: "g \<le> ?s ! (length xs - q)" by (simp only: nth)
    have "g \<le> x" if "x \<in> set (drop (length xs - q) ?s)" for x
    proof -
      from that obtain i where "i < q" and x: "x = ?s ! (length xs - q + i)"
        using assms by (auto simp: in_set_conv_nth)
      moreover from this have "length xs - q + i < length xs" using assms by linarith
      ultimately have "?s ! (length xs - q) \<le> x"
        by (auto intro: sorted_nth_mono)
      with ge show ?thesis by simp
    qed
    then have "filter (\<lambda>x. g \<le> x) (drop (length xs - q) ?s) = drop (length xs - q) ?s"
      by (auto intro!: filter_True)
    then have "length (drop (length xs - q) ?s) \<le> ?n"
      by (metis append_take_drop_id filter_append le_add2 length_append)
    then show "q \<le> length (filter (\<lambda>x. g \<le> x) xs)" using assms same by simp
  next
    assume "q \<le> length (filter (\<lambda>x. g \<le> x) xs)"
    then have qn: "q \<le> ?n" by (simp add: same)
    have "?s ! (length xs - q) = drop (length xs - ?n) ?s ! (?n - q)"
      using qn le by simp
    also have "\<dots> \<in> set (filter (\<lambda>x. g \<le> x) ?s)"
      unfolding dropeq [symmetric] using qn assms(1) by (intro nth_mem) simp
    finally show "g \<le> sort_desc xs ! (q - 1)" using nth by simp
  qed
qed

lemma sort_desc_map_nth_ge:
  assumes "0 < q" and "q \<le> length ms"
  shows "g \<le> sort_desc (map score ms) ! (q - 1) \<longleftrightarrow> q \<le> length (filter (\<lambda>m. g \<le> score m) ms)"
  using sort_desc_nth_ge [of q "map score ms" g] assms
  by (simp add: filter_map o_def)

lemma majority_floor_iff:
  assumes "majority_floor c score = Some f"
  shows "g \<le> f \<longleftrightarrow> quorum_holds c (\<lambda>m. g \<le> score m)"
proof (cases "ac_joint_old c")
  case None
  with assms show ?thesis
    by (auto simp: majority_floor_def Let_def quorum_holds_def sort_desc_map_nth_ge not_less
        simp del: One_nat_def split: if_splits)
next
  case (Some old)
  with assms show ?thesis
    by (auto simp: majority_floor_def Let_def quorum_holds_def sort_desc_map_nth_ge not_less
        simp del: One_nat_def split: if_splits)
qed

lemma majority_exceeds_iff: "length ms < Suc (length ms div 2) \<longleftrightarrow> ms = []"
proof (cases ms)
  case (Cons a list)
  then have "length ms div 2 < length ms" by simp
  with Cons show ?thesis by simp
qed simp

lemma majority_floor_None_iff:
  "majority_floor c score = None \<longleftrightarrow> ac_current c = [] \<or> ac_joint_old c = Some []"
  by (auto simp: majority_floor_def Let_def quorum_current_def quorum_old_def majority_exceeds_iff
      split: option.splits if_splits)

section \<open>Properties\<close>

text \<open>C17 (\<open>majority_floor_spec\<close>). The sort-and-pick computation of the commit floor is the
  declarative one: an index is at or below the floor exactly when a quorum -- of both voter lists
  while the membership is joint -- has a score at least as high.\<close>

theorem majority_floor_spec:
  assumes "majority_floor c score = Some f"
  shows "g \<le> f \<longleftrightarrow> quorum_holds c (\<lambda>m. g \<le> score m)"
  using majority_floor_iff [OF assms] .

theorem majority_floor_spec_witness:
  "majority_floor \<lparr>ac_current = [1, 2, 3::nat], ac_joint_old = Some [1, 4]\<rparr> (\<lambda>m. 2 * m) = Some 2 \<and>
   ((2::nat) \<le> 2 \<longleftrightarrow> quorum_holds \<lparr>ac_current = [1, 2, 3::nat], ac_joint_old = Some [1, 4]\<rparr> (\<lambda>m. 2 \<le> 2 * m))"
proof -
  have "majority_floor \<lparr>ac_current = [1, 2, 3::nat], ac_joint_old = Some [1, 4]\<rparr> (\<lambda>m. 2 * m) = Some 2"
    by code_simp
  with majority_floor_spec [OF this, of 2] show ?thesis by blast
qed

end
