(* ===== verification/Raft_Clock.thy ===== *)
theory Raft_Clock
  imports Raft_Types
begin

unbundle bit_operations_syntax

text \<open>
  Entropy and timers: the \<open>xorshift64*\<close> generator \<open>StdRng\<close> of \<open>clock.rs\<close>, the
  FNV-style hash of the replica identity and the election-timeout jitter of
  \<open>WorkerState::reset_election_timer\<close>, all on 64-bit words.
\<close>

type_synonym u64 = "64 word"

section \<open>StdRng\<close>

definition std_rng_from_entropy :: "u64 \<Rightarrow> u64 \<Rightarrow> u64" where
  "std_rng_from_entropy nanos pid =
     (let seed = (nanos * 0x9E3779B97F4A7C15) XOR pid
      in if seed = 0 then 0x1234567890ABCDEF else seed)"

definition std_rng_next_u64 :: "u64 \<Rightarrow> u64 \<times> u64" where
  "std_rng_next_u64 st =
     (let x = st XOR drop_bit 12 st;
          y = x XOR push_bit 25 x;
          z = y XOR drop_bit 27 y
      in (z * 0x2545F4914F6CDD1D, z))"

section \<open>Election jitter\<close>

fun fnv_write :: "u64 \<Rightarrow> byte list \<Rightarrow> u64" where
  "fnv_write h [] = h"
| "fnv_write h (b # bs) = fnv_write ((h * 1099511628211) XOR ucast b) bs"

definition me_seed :: "byte list \<Rightarrow> u64" where
  "me_seed bs = fnv_write 0xCBF29CE484222325 bs"

definition election_timeout :: "nat \<times> nat \<Rightarrow> u64 \<Rightarrow> byte list \<Rightarrow> nat \<Rightarrow> nat" where
  "election_timeout window r me_bytes term =
     (let (lo, hi) = window;
          span = max (hi - lo) 1;
          jitter = unat (r XOR me_seed me_bytes XOR word_of_nat term) mod span
      in lo + jitter)"

lemma election_timeout_bounds:
  "fst window \<le> election_timeout window r bs t \<and>
   election_timeout window r bs t < max (snd window) (fst window + 1)"
proof -
  obtain lo hi where w: "window = (lo, hi)" by (cases window)
  define jitter where "jitter = unat (r XOR me_seed bs XOR word_of_nat t) mod max (hi - lo) 1"
  have "jitter < max (hi - lo) 1"
    unfolding jitter_def by (rule mod_less_divisor) simp
  then have "lo + jitter < max hi (lo + 1)" by (auto simp: max_def split: if_splits)
  then show ?thesis by (simp add: w election_timeout_def Let_def jitter_def)
qed

section \<open>The generator never reaches its fixed point zero\<close>

lemma drop_bit_fix_zero:
  fixes x :: u64
  assumes "0 < n" and "x = drop_bit n x"
  shows "x = 0"
proof -
  have "x = drop_bit (n * k) x" for k
  proof (induction k)
    case (Suc k)
    have "x = drop_bit n x" by (rule assms(2))
    also have "\<dots> = drop_bit n (drop_bit (n * k) x)" by (rule arg_cong [OF Suc])
    also have "\<dots> = drop_bit (n * Suc k) x" by (simp add: algebra_simps)
    finally show ?case .
  qed simp
  then have "x = drop_bit (n * 64) x" .
  moreover have "drop_bit (n * 64) x = 0"
  proof (rule bit_eqI)
    fix i assume "possible_bit TYPE(u64) i"
    have "64 \<le> n * 64 + i" using assms(1) by (cases n) auto
    then show "bit (drop_bit (n * 64) x) i = bit 0 i"
      using bit_imp_le_length [of x "n * 64 + i"] by (auto simp: bit_drop_bit_eq)
  qed
  ultimately show ?thesis by (rule trans)
qed

lemma push_bit_fix_zero:
  fixes x :: u64
  assumes "0 < n" and "x = push_bit n x"
  shows "x = 0"
proof -
  have "x = push_bit (n * k) x" for k
  proof (induction k)
    case (Suc k)
    have "x = push_bit n x" by (rule assms(2))
    also have "\<dots> = push_bit n (push_bit (n * k) x)" by (rule arg_cong [OF Suc])
    also have "\<dots> = push_bit (n * Suc k) x" by (simp add: algebra_simps)
    finally show ?case .
  qed simp
  then have "x = push_bit (n * 64) x" .
  moreover have "push_bit (n * 64) x = 0"
  proof (rule bit_eqI)
    fix i assume i: "possible_bit TYPE(u64) i"
    have "64 \<le> n * 64" using assms(1) by (cases n) auto
    with i show "bit (push_bit (n * 64) x) i = bit 0 i"
      by (simp add: bit_push_bit_iff)
  qed
  ultimately show ?thesis by (rule trans)
qed

lemma xor_zero_eq: "(a::u64) XOR b = 0 \<Longrightarrow> a = b"
proof -
  assume "a XOR b = 0"
  then have "(a XOR b) XOR b = 0 XOR b" by simp
  then show ?thesis by (simp add: xor.assoc)
qed

lemma std_rng_state_nonzero: "s \<noteq> 0 \<Longrightarrow> snd (std_rng_next_u64 s) \<noteq> 0"
proof
  assume s: "s \<noteq> 0" and z: "snd (std_rng_next_u64 s) = 0"
  define x where "x = s XOR drop_bit 12 s"
  define y where "y = x XOR push_bit 25 x"
  from z have "y XOR drop_bit 27 y = 0" by (simp add: std_rng_next_u64_def Let_def x_def y_def)
  from drop_bit_fix_zero [OF _ xor_zero_eq [OF this]] have "y = 0" by simp
  then have "x XOR push_bit 25 x = 0" by (simp only: y_def)
  from push_bit_fix_zero [OF _ xor_zero_eq [OF this]] have "x = 0" by simp
  then have "s XOR drop_bit 12 s = 0" by (simp only: x_def)
  from drop_bit_fix_zero [OF _ xor_zero_eq [OF this]] have "s = 0" by simp
  with s show False by simp
qed

lemma std_rng_from_entropy_nonzero: "std_rng_from_entropy nanos pid \<noteq> 0"
  by (simp add: std_rng_from_entropy_def Let_def)

section \<open>Properties\<close>

text \<open>C18 (\<open>election_timeout_in_window\<close>). Whatever the random draw, the node identity and the
  term, the election timeout lies in the configured window: at least its lower bound and below its
  upper bound, or exactly the lower bound when the window is empty.\<close>

theorem election_timeout_in_window:
  "fst window \<le> election_timeout window r me_bytes term \<and>
   election_timeout window r me_bytes term < max (snd window) (fst window + 1)"
  by (rule election_timeout_bounds)

text \<open>C19 (\<open>std_rng_never_stuck\<close>). The generator seeded by \<open>from_entropy\<close> never reaches
  state zero, the only state it could not leave, after any number of draws.\<close>

theorem std_rng_never_stuck:
  "((\<lambda>st. snd (std_rng_next_u64 st)) ^^ n) (std_rng_from_entropy nanos pid) \<noteq> 0"
  by (induction n) (simp_all add: std_rng_from_entropy_nonzero std_rng_state_nonzero)

end
