(* ===== verification/Raft_Worker.thy ===== *)
theory Raft_Worker
  imports Raft_Storage Raft_Quorum Raft_Clock
begin

text \<open>
  The Raft worker of \<open>support/vos-raft/src/worker.rs\<close>: its state and the transitions its
  handlers share; the handlers and the driver loop follow in \<open>Raft_Handlers\<close> and
  \<open>Raft_Driver\<close>. A handler takes the storage operations, the worker state and
  the request, and returns its \<open>Result\<close> (\<open>Inl\<close> the storage error) with the state it
  leaves, on the error paths too.

  The environment is part of the state: \<open>w_clock\<close> and \<open>w_rng\<close> give the \<open>i\<close>-th
  reading of the clock and the \<open>i\<close>-th drawn number, with a counter of the readings made so
  far, so successive readings inside one handler may differ. The apply sink, the replies to
  read requests and the outbound calls are lists of what the code has sent; a one-shot reply
  channel is a number.
\<close>

section \<open>State\<close>

datatype read_index_error = ReadNotLeader | LeaderStepped | Backpressure | TimedOut

datatype propose_error = ProposeNotLeader | ProposeStorage

datatype change_membership_error = ChangeNotLeader | InProgress | EmptyConfig | ChangeStorage

record snapshot_send_state =
  ss_last_included_index :: nat
  ss_last_included_term :: nat
  ss_offset :: nat

record 'n leader_state =
  next_index :: "('n, nat) btree"
  match_index :: "('n, nat) btree"
  snapshot_send :: "('n, snapshot_send_state) btree"

record 'n incoming_snapshot =
  in_leader :: 'n
  in_term :: nat
  in_last_included_index :: nat
  in_last_included_term :: nat
  in_buffer :: "byte list"

record pending_read =
  pri_required_index :: nat
  pri_deadline :: "nat option"
  pri_reply :: nat

record 'n worker_snapshot =
  ws_role :: role
  ws_current_term :: nat
  ws_voted_for :: "'n option"
  ws_last_log_index :: nat
  ws_commit_index :: nat
  ws_snap_last_index :: nat
  ws_members :: "'n list"
  ws_joint_old :: "'n list option"
  ws_active_config_index :: "nat option"
  ws_leader_hint :: "'n option"

datatype 'n rpc_call =
    CallAppend 'n "'n append_entries_req"
  | CallVote 'n "'n request_vote_req"
  | CallPreVote 'n nat "'n pre_vote_req"
  | CallInstall 'n "'n install_snapshot_req" nat nat nat bool

datatype 'n rpc_outcome =
    OutAppend 'n "append_entries_resp option"
  | OutVote 'n "request_vote_resp option"
  | OutPreVote 'n nat "pre_vote_resp option"
  | OutInstall 'n "install_snapshot_resp option" nat nat nat bool

record ('n, 's) worker =
  w_storage :: 's
  w_cfg :: "'n config"
  w_role :: role
  w_meta :: "'n meta"
  w_election_deadline :: nat
  w_last_heartbeat_received :: "nat option"
  w_votes_received :: "'n list"
  w_leader :: "'n leader_state option"
  w_pending_read_index :: "pending_read list"
  w_incoming_snapshot :: "'n incoming_snapshot option"
  w_effective_cfg :: "'n active_config"
  w_pending_joint_entry :: "nat option"
  w_active_config_index :: "nat option"
  w_current_term_first_index :: "nat option"
  w_seen_leader :: "'n option"
  w_pre_candidate_misses :: nat
  w_apply_sink :: "nat list"
  w_role_atomic :: byte
  w_status :: "('n worker_snapshot \<times> nat) option"
  w_status_valid_for :: nat
  w_clock :: "nat \<Rightarrow> nat"
  w_clock_reads :: nat
  w_rng :: "nat \<Rightarrow> u64"
  w_rng_draws :: nat
  w_me_hash_bytes :: "byte list"
  w_read_replies :: "(nat \<times> (read_index_error + nat)) list"

section \<open>Small helpers\<close>

definition set_role :: "role \<Rightarrow> ('n, 's) worker \<Rightarrow> ('n, 's) worker" where
  "set_role r w = w\<lparr>w_role := r, w_role_atomic := as_u8 r\<rparr>"

definition worker_snapshot_of :: "('n, 's, 'e) storage_ops \<Rightarrow> ('n, 's) worker \<Rightarrow> 'n worker_snapshot" where
  "worker_snapshot_of S w =
     \<lparr>ws_role = w_role w, ws_current_term = current_term (w_meta w),
      ws_voted_for = voted_for (w_meta w), ws_last_log_index = st_last_index S (w_storage w),
      ws_commit_index = commit_index (w_meta w),
      ws_snap_last_index = st_snap_last_index S (w_storage w),
      ws_members = ac_current (w_effective_cfg w), ws_joint_old = ac_joint_old (w_effective_cfg w),
      ws_active_config_index = w_active_config_index w, ws_leader_hint = w_seen_leader w\<rparr>"

definition publish_status ::
  "('n, 's, 'e) storage_ops \<Rightarrow> nat \<Rightarrow> ('n, 's) worker \<Rightarrow> ('n, 's) worker" where
  "publish_status S std_now w =
     w\<lparr>w_status := Some (worker_snapshot_of S w, std_now + w_status_valid_for w)\<rparr>"

definition cached_snapshot :: "nat \<Rightarrow> ('n, 's) worker \<Rightarrow> 'n worker_snapshot option" where
  "cached_snapshot std_now w = (case w_status w of None \<Rightarrow> None
     | Some (snap, valid_until) \<Rightarrow> if valid_until > std_now then Some snap else None)"

definition fire_apply_notification :: "('n, 's) worker \<Rightarrow> ('n, 's) worker" where
  "fire_apply_notification w = w\<lparr>w_apply_sink := w_apply_sink w @ [commit_index (w_meta w)]\<rparr>"

definition clock_now :: "('n, 's) worker \<Rightarrow> nat \<times> ('n, 's) worker" where
  "clock_now w = (w_clock w (w_clock_reads w), w\<lparr>w_clock_reads := Suc (w_clock_reads w)\<rparr>)"

definition rng_next_u64 :: "('n, 's) worker \<Rightarrow> u64 \<times> ('n, 's) worker" where
  "rng_next_u64 w = (w_rng w (w_rng_draws w), w\<lparr>w_rng_draws := Suc (w_rng_draws w)\<rparr>)"

definition reset_election_timer :: "('n, 's) worker \<Rightarrow> ('n, 's) worker" where
  "reset_election_timer w =
     (let (r, w1) = rng_next_u64 w;
          timeout = election_timeout (election_timeout_ms (w_cfg w1)) r (w_me_hash_bytes w1)
                      (current_term (w_meta w1));
          (now, w2) = clock_now w1
      in w2\<lparr>w_election_deadline := now + timeout\<rparr>)"

definition deadline_now :: "('n, 's) worker \<Rightarrow> ('n, 's) worker" where
  "deadline_now w = (let (now, w1) = clock_now w in w1\<lparr>w_election_deadline := now\<rparr>)"

definition member_match_score :: "('n, 's, 'e) storage_ops \<Rightarrow> ('n, 's) worker \<Rightarrow> 'n \<Rightarrow> nat" where
  "member_match_score S w m =
     (if m = cfg_me (w_cfg w) then st_last_index S (w_storage w)
      else case w_leader w of None \<Rightarrow> 0
           | Some l \<Rightarrow> (case bt_get (match_index l) m of None \<Rightarrow> 0 | Some i \<Rightarrow> i))"

definition match_index_majority_floor ::
  "('n, 's, 'e) storage_ops \<Rightarrow> ('n, 's) worker \<Rightarrow> nat option" where
  "match_index_majority_floor S w =
     (case w_leader w of None \<Rightarrow> None
      | Some _ \<Rightarrow> majority_floor (w_effective_cfg w) (member_match_score S w))"

definition is_solo_cluster :: "('n, 's) worker \<Rightarrow> bool" where
  "is_solo_cluster w =
     (let only_me_in = list_all (\<lambda>m. m = cfg_me (w_cfg w))
      in only_me_in (ac_current (w_effective_cfg w)) \<and>
         (case ac_joint_old (w_effective_cfg w) of None \<Rightarrow> True | Some old \<Rightarrow> only_me_in old))"

text \<open>A \<open>commit_batch\<close> through the worker.\<close>

definition commit ::
  "('n, 's, 'e) storage_ops \<Rightarrow> ('n, 's) worker \<Rightarrow> 'n write_batch \<Rightarrow> ('e + unit) \<times> ('n, 's) worker" where
  "commit S w b = (let (r, s') = st_commit_batch S (w_storage w) b in (r, w\<lparr>w_storage := s'\<rparr>))"

definition meta_batch :: "'n meta \<Rightarrow> 'n write_batch" where
  "meta_batch m = write_batch_default\<lparr>wb_meta := Some m\<rparr>"

definition leader_state_fresh :: "'n::linorder list \<Rightarrow> 'n \<Rightarrow> nat \<Rightarrow> 'n leader_state" where
  "leader_state_fresh members me last_log_index =
     \<lparr>next_index = bt_insert_all (map (\<lambda>p. (p, last_log_index + 1)) (filter (\<lambda>p. p \<noteq> me) members)) [],
      match_index = bt_insert_all (map (\<lambda>p. (p, 0)) (filter (\<lambda>p. p \<noteq> me) members)) [],
      snapshot_send = []\<rparr>"

section \<open>Pending reads\<close>

definition reply_reads ::
  "(nat \<times> (read_index_error + nat)) list \<Rightarrow> pending_read list \<Rightarrow> ('n, 's) worker \<Rightarrow> ('n, 's) worker" where
  "reply_reads replies still w =
     w\<lparr>w_read_replies := w_read_replies w @ replies, w_pending_read_index := still\<rparr>"

definition drain_pending_reads_on_step_down :: "('n, 's) worker \<Rightarrow> ('n, 's) worker" where
  "drain_pending_reads_on_step_down w =
     reply_reads (map (\<lambda>p. (pri_reply p, Inl LeaderStepped)) (w_pending_read_index w)) [] w"

definition read_expired :: "nat \<Rightarrow> pending_read \<Rightarrow> bool" where
  "read_expired now p = (case pri_deadline p of None \<Rightarrow> False | Some d \<Rightarrow> d \<le> now)"

definition expire_pending_reads :: "nat \<Rightarrow> ('n, 's) worker \<Rightarrow> ('n, 's) worker" where
  "expire_pending_reads now w =
     reply_reads
       (map (\<lambda>p. (pri_reply p, Inl TimedOut)) (filter (read_expired now) (w_pending_read_index w)))
       (filter (\<lambda>p. \<not> read_expired now p) (w_pending_read_index w)) w"

definition resolve_read :: "nat \<Rightarrow> nat \<Rightarrow> pending_read \<Rightarrow> (read_index_error + nat) option" where
  "resolve_read now mf p =
     (if read_expired now p then Some (Inl TimedOut)
      else if pri_required_index p \<le> mf then Some (Inr (pri_required_index p))
      else None)"

definition try_resolve_pending_reads ::
  "('n, 's, 'e) storage_ops \<Rightarrow> ('n, 's) worker \<Rightarrow> ('n, 's) worker" where
  "try_resolve_pending_reads S w =
     (if w_pending_read_index w = [] then w
      else case match_index_majority_floor S w of None \<Rightarrow> w
           | Some mf \<Rightarrow>
               let (now, w1) = clock_now w
               in reply_reads
                    (List.map_filter (\<lambda>p. map_option (\<lambda>r. (pri_reply p, r)) (resolve_read now mf p))
                       (w_pending_read_index w1))
                    (filter (\<lambda>p. resolve_read now mf p = None) (w_pending_read_index w1)) w1)"

section \<open>Transitions shared by the handlers\<close>

definition step_down :: "('n, 's) worker \<Rightarrow> ('n, 's) worker" where
  "step_down w =
     (let w1 = set_role Follower w;
          w2 = w1\<lparr>w_votes_received := [], w_leader := None, w_current_term_first_index := None,
                  w_pre_candidate_misses := 0, w_incoming_snapshot := None\<rparr>
      in reset_election_timer (drain_pending_reads_on_step_down w2))"

definition persist_term_bump ::
  "('n, 's, 'e) storage_ops \<Rightarrow> ('n, 's) worker \<Rightarrow> nat \<Rightarrow> ('e + unit) \<times> ('n, 's) worker" where
  "persist_term_bump S w new_term =
     (let next = (w_meta w)\<lparr>current_term := new_term, voted_for := None\<rparr>
      in case commit S w (meta_batch next) of
           (Inl e, w1) \<Rightarrow> (Inl e, w1)
         | (Inr _, w1) \<Rightarrow> (Inr (), w1\<lparr>w_meta := next\<rparr>))"

text \<open>What every response handler does with a higher term.\<close>

definition term_bump_step_down ::
  "('n, 's, 'e) storage_ops \<Rightarrow> ('n, 's) worker \<Rightarrow> nat \<Rightarrow> ('e + unit) \<times> ('n, 's) worker" where
  "term_bump_step_down S w t =
     (case persist_term_bump S w t of
        (Inl e, w1) \<Rightarrow> (Inl e, w1)
      | (Inr _, w1) \<Rightarrow> (Inr (), step_down w1))"

text \<open>The block both \<open>handle_append_entries\<close> and \<open>handle_install_snapshot\<close> run on
  hearing from a current-term leader.\<close>

definition follow_leader :: "'n \<Rightarrow> ('n, 's) worker \<Rightarrow> ('n, 's) worker" where
  "follow_leader ldr w =
     (let was_leader = (w_role w = Leader);
          w1 = (set_role Follower w)\<lparr>w_votes_received := [], w_leader := None,
                                     w_current_term_first_index := None\<rparr>;
          w2 = (if was_leader then drain_pending_reads_on_step_down w1 else w1);
          w3 = reset_election_timer w2;
          (now, w4) = clock_now w3
      in w4\<lparr>w_last_heartbeat_received := Some now, w_seen_leader := Some ldr\<rparr>)"

definition rebuild_leader_tracking ::
  "('n::linorder, 's, 'e) storage_ops \<Rightarrow> ('n, 's) worker \<Rightarrow> ('n, 's) worker" where
  "rebuild_leader_tracking S w =
     (case w_leader w of None \<Rightarrow> w
      | Some l \<Rightarrow>
          let last = st_last_index S (w_storage w);
              members = all_members (w_effective_cfg w);
              peers = filter (\<lambda>m. m \<noteq> cfg_me (w_cfg w)) members;
              ni = fold (\<lambda>m. bt_or_insert m (last + 1)) peers (next_index l);
              mi = fold (\<lambda>m. bt_or_insert m 0) peers (match_index l)
          in w\<lparr>w_leader := Some
                 \<lparr>next_index = bt_retain (\<lambda>m. m \<in> set members) ni,
                  match_index = bt_retain (\<lambda>m. m \<in> set members) mi,
                  snapshot_send = bt_retain (\<lambda>m. m \<in> set members) (snapshot_send l)\<rparr>\<rparr>)"

definition adopt_config ::
  "('n::linorder, 's, 'e) storage_ops \<Rightarrow> 'n active_config \<Rightarrow> nat option \<Rightarrow> nat option
     \<Rightarrow> ('n, 's) worker \<Rightarrow> ('n, 's) worker" where
  "adopt_config S active idx joint w =
     rebuild_leader_tracking S
       (w\<lparr>w_effective_cfg := active, w_active_config_index := idx, w_pending_joint_entry := joint\<rparr>)"

section \<open>Recovering the membership view\<close>

record 'n config_recovery =
  cr_active :: "'n active_config"
  cr_pending_joint :: "nat option"
  cr_active_config_index :: "nat option"

text \<open>The view a \<open>ConfigChange\<close> entry at an index establishes.\<close>

definition config_view :: "nat \<Rightarrow> 'n list option \<Rightarrow> 'n list \<Rightarrow> 'n config_recovery" where
  "config_view i jo ms =
     (let active = \<lparr>ac_current = ms, ac_joint_old = jo\<rparr>
      in \<lparr>cr_active = active, cr_pending_joint = (if is_joint active then Some i else None),
          cr_active_config_index = Some i\<rparr>)"

definition static_view :: "'n config \<Rightarrow> 'n config_recovery" where
  "static_view c = \<lparr>cr_active = steady (cfg_members c), cr_pending_joint = None,
                    cr_active_config_index = Some 0\<rparr>"

definition entry_configs :: "'n log_entry list \<Rightarrow> (nat \<times> 'n entry_kind) list" where
  "entry_configs es = map (\<lambda>e. (le_index e, le_kind e)) es"

definition recover_active_config ::
  "('n, 's, 'e) storage_ops \<Rightarrow> 's \<Rightarrow> 'n config \<Rightarrow> bool \<Rightarrow> 'e + 'n config_recovery" where
  "recover_active_config S st c consult_persisted =
     (let last = st_last_index S st; snap = st_snap_last_index S st;
          live = (if last > snap then st_entries S st (snap + 1) last else Inr [])
      in case live of Inl e \<Rightarrow> Inl e
         | Inr es \<Rightarrow>
             (case latest_config (entry_configs es) of
                Some (i, jo, ms) \<Rightarrow> Inr (config_view i jo ms)
              | None \<Rightarrow>
                  if consult_persisted then
                    (case st_active_config S st of Inl e \<Rightarrow> Inl e
                     | Inr (Some r) \<Rightarrow>
                         Inr \<lparr>cr_active = \<lparr>ac_current = acr_current r, ac_joint_old = acr_joint_old r\<rparr>,
                              cr_pending_joint = None, cr_active_config_index = acr_log_index r\<rparr>
                     | Inr None \<Rightarrow> Inr (static_view c))
                  else Inr (static_view c)))"

end
