(* ===== verification/Raft_Handlers.thy ===== *)
theory Raft_Handlers
  imports Raft_Worker
begin

text \<open>
  The handlers of \<open>worker.rs\<close>, in the order of their dependencies: commit advancement and
  the automatic end of a joint configuration, leadership, the inbound RPCs, proposals and
  membership changes, the RPC responses.
\<close>

section \<open>Commit advancement\<close>

definition auto_finalize_joint_config ::
  "('n::linorder, 's, 'e) storage_ops \<Rightarrow> ('n, 's) worker \<Rightarrow> ('e + unit) \<times> ('n, 's) worker" where
  "auto_finalize_joint_config S w =
     (if w_role w \<noteq> Leader \<or> \<not> is_joint (w_effective_cfg w) then (Inr (), w)
      else case w_pending_joint_entry w of None \<Rightarrow> (Inr (), w)
      | Some joint_idx \<Rightarrow>
          if commit_index (w_meta w) < joint_idx then (Inr (), w)
          else
            let term = current_term (w_meta w);
                new_index = st_last_index S (w_storage w) + 1;
                final_members = ac_current (w_effective_cfg w);
                entry = entry_config_change new_index term None final_members
            in case commit S w (write_batch_default\<lparr>wb_appends := [entry],
                    wb_active_config := Some \<lparr>acr_log_index = Some new_index,
                      acr_current = final_members, acr_joint_old = None\<rparr>\<rparr>) of
                 (Inl e, w1) \<Rightarrow> (Inl e, w1)
               | (Inr _, w1) \<Rightarrow>
                   let w2 = adopt_config S (steady final_members) (Some new_index) None w1
                   in (Inr (), if cfg_me (w_cfg w) \<in> set final_members then w2 else step_down w2))"

definition try_advance_commit_index ::
  "('n::linorder, 's, 'e) storage_ops \<Rightarrow> ('n, 's) worker \<Rightarrow> ('e + unit) \<times> ('n, 's) worker" where
  "try_advance_commit_index S w =
     (case match_index_majority_floor S w of None \<Rightarrow> (Inr (), w)
      | Some majority \<Rightarrow>
          if majority \<le> commit_index (w_meta w) then (Inr (), w)
          else case st_term_at S (w_storage w) majority of Inl e \<Rightarrow> (Inl e, w)
          | Inr entry_term \<Rightarrow>
              if entry_term \<noteq> Some (current_term (w_meta w)) then (Inr (), w)
              else
                let prev_commit = commit_index (w_meta w);
                    w1 = w\<lparr>w_meta := (w_meta w)\<lparr>commit_index := majority\<rparr>\<rparr>
                in case commit S w1 (meta_batch (w_meta w1)) of
                     (Inl e, w2) \<Rightarrow> (Inl e, w2\<lparr>w_meta := (w_meta w2)\<lparr>commit_index := prev_commit\<rparr>\<rparr>)
                   | (Inr _, w2) \<Rightarrow> auto_finalize_joint_config S (fire_apply_notification w2))"

definition become_leader_no_heartbeat ::
  "('n::linorder, 's, 'e) storage_ops \<Rightarrow> ('n, 's) worker \<Rightarrow> ('e + unit) \<times> ('n, 's) worker" where
  "become_leader_no_heartbeat S w =
     (let last = st_last_index S (w_storage w);
          term = current_term (w_meta w);
          new_index = last + 1;
          no_op = entry_data new_index term []
      in case commit S w (write_batch_default\<lparr>wb_appends := [no_op]\<rparr>) of
           (Inl e, w1) \<Rightarrow> (Inl e, w1)
         | (Inr _, w1) \<Rightarrow>
             let w2 = (set_role Leader w1)\<lparr>w_votes_received := [],
                        w_leader := Some (leader_state_fresh (all_members (w_effective_cfg w1))
                                           (cfg_me (w_cfg w1)) last),
                        w_seen_leader := Some (cfg_me (w_cfg w1)),
                        w_current_term_first_index := Some new_index\<rparr>
             in (Inr (), snd (try_advance_commit_index S w2)))"

section \<open>AppendEntries\<close>

definition append_adopt_term :: "nat \<Rightarrow> ('n, 's) worker \<Rightarrow> ('n, 's) worker" where
  "append_adopt_term t w =
     (if t > current_term (w_meta w)
      then w\<lparr>w_meta := (w_meta w)\<lparr>current_term := t, voted_for := None\<rparr>, w_seen_leader := None\<rparr>
      else w)"

text \<open>The conflict scan: the first index whose term differs, and how many entries are
  already present.\<close>

fun scan_conflict ::
  "('n, 's, 'e) storage_ops \<Rightarrow> 's \<Rightarrow> nat \<Rightarrow> 'n log_entry list \<Rightarrow> nat \<Rightarrow> 'e + (nat option \<times> nat)" where
  "scan_conflict S st idx [] present = Inr (None, present)"
| "scan_conflict S st idx (e # es) present =
     (case st_term_at S st idx of Inl err \<Rightarrow> Inl err
      | Inr (Some t) \<Rightarrow> if t = le_term e then scan_conflict S st (idx + 1) es (present + 1)
                        else Inr (Some idx, present)
      | Inr None \<Rightarrow> Inr (None, present))"

definition reindexed :: "nat \<Rightarrow> 'n log_entry list \<Rightarrow> 'n log_entry list" where
  "reindexed prev es =
     map (\<lambda>(i, e). \<lparr>le_index = prev + 1 + i, le_term = le_term e, le_kind = le_kind e\<rparr>) (enumerate 0 es)"

definition truncate_invalidates :: "nat option \<Rightarrow> nat option \<Rightarrow> bool" where
  "truncate_invalidates truncate_after active_idx =
     (case (truncate_after, active_idx) of (Some ta, Some idx) \<Rightarrow> ta < idx | _ \<Rightarrow> False)"

definition post_active_view ::
  "('n, 's, 'e) storage_ops \<Rightarrow> ('n, 's) worker \<Rightarrow> 'n append_entries_req \<Rightarrow> 'n log_entry list
     \<Rightarrow> nat option \<Rightarrow> 'e + 'n config_recovery option" where
  "post_active_view S w req appends truncate_after =
     (if list_ex (\<lambda>e. is_config_change (le_kind e)) appends then
        Inr (case latest_config (entry_configs (reindexed (ae_prev_log_index req) (ae_entries req))) of
               None \<Rightarrow> None | Some (i, jo, ms) \<Rightarrow> Some (config_view i jo ms))
      else if truncate_invalidates truncate_after (w_active_config_index w) then
        let snap = st_snap_last_index S (w_storage w);
            scan_end = (case truncate_after of Some ta \<Rightarrow> ta | None \<Rightarrow> 0);
            surviving = (if scan_end > snap then st_entries S (w_storage w) (snap + 1) scan_end
                         else Inr [])
        in case surviving of Inl e \<Rightarrow> Inl e
           | Inr es \<Rightarrow> Inr (Some (case latest_config (entry_configs es) of
                 Some (i, jo, ms) \<Rightarrow> config_view i jo ms
               | None \<Rightarrow> static_view (w_cfg w)))
      else Inr None)"

definition view_record :: "'n config_recovery \<Rightarrow> 'n active_config_record" where
  "view_record v = \<lparr>acr_log_index = cr_active_config_index v, acr_current = ac_current (cr_active v),
                    acr_joint_old = ac_joint_old (cr_active v)\<rparr>"

definition adopt_view ::
  "('n::linorder, 's, 'e) storage_ops \<Rightarrow> 'n config_recovery option \<Rightarrow> ('n, 's) worker \<Rightarrow> ('n, 's) worker" where
  "adopt_view S v w = (case v of None \<Rightarrow> w
     | Some r \<Rightarrow> adopt_config S (cr_active r) (cr_active_config_index r) (cr_pending_joint r) w)"

definition append_commit_target :: "('n, 's) worker \<Rightarrow> 'n append_entries_req \<Rightarrow> nat option" where
  "append_commit_target w req =
     (let last_new_index = ae_prev_log_index req + length (ae_entries req);
          new_commit = min (ae_leader_commit req) last_new_index
      in if ae_leader_commit req > commit_index (w_meta w) \<and> new_commit > commit_index (w_meta w)
         then Some new_commit else None)"

definition append_consistent ::
  "('n::linorder, 's, 'e) storage_ops \<Rightarrow> ('n, 's) worker \<Rightarrow> 'n meta \<Rightarrow> 'n append_entries_req
     \<Rightarrow> ('e + append_entries_resp) \<times> ('n, 's) worker" where
  "append_consistent S w meta_snapshot req =
     (case scan_conflict S (w_storage w) (ae_prev_log_index req + 1) (ae_entries req) 0 of
        Inl e \<Rightarrow> (Inl e, w\<lparr>w_meta := meta_snapshot\<rparr>)
      | Inr (conflict_at, already_present) \<Rightarrow>
          let truncate_after = map_option (\<lambda>i. i - 1) conflict_at;
              appends = drop already_present (reindexed (ae_prev_log_index req) (ae_entries req));
              last_new_index = ae_prev_log_index req + length (ae_entries req);
              target = append_commit_target w req;
              w1 = (case target of None \<Rightarrow> w
                    | Some c \<Rightarrow> w\<lparr>w_meta := (w_meta w)\<lparr>commit_index := c\<rparr>\<rparr>)
          in case post_active_view S w1 req appends truncate_after of
               Inl e \<Rightarrow> (Inl e, w1\<lparr>w_meta := meta_snapshot\<rparr>)
             | Inr v \<Rightarrow>
                 (case commit S w1 \<lparr>wb_truncate_after = truncate_after, wb_compact_to = None,
                        wb_appends = appends, wb_state = None, wb_meta = Some (w_meta w1),
                        wb_active_config = map_option view_record v\<rparr> of
                    (Inl e, w2) \<Rightarrow> (Inl e, w2\<lparr>w_meta := meta_snapshot\<rparr>)
                  | (Inr _, w2) \<Rightarrow>
                      let w3 = (if target \<noteq> None then fire_apply_notification w2 else w2);
                          w4 = adopt_view S v w3
                      in (Inr \<lparr>ar_term = current_term (w_meta w4), ar_success = True,
                               ar_match_index = last_new_index\<rparr>, w4)))"

definition handle_append_entries ::
  "('n::linorder, 's, 'e) storage_ops \<Rightarrow> ('n, 's) worker \<Rightarrow> 'n append_entries_req
     \<Rightarrow> ('e + append_entries_resp) \<times> ('n, 's) worker" where
  "handle_append_entries S w req =
     (if ae_term req < current_term (w_meta w)
      then (Inr \<lparr>ar_term = current_term (w_meta w), ar_success = False, ar_match_index = 0\<rparr>, w)
      else
        let meta_snapshot = w_meta w;
            w1 = follow_leader (ae_leader req) (append_adopt_term (ae_term req) w)
        in case st_term_at S (w_storage w1) (ae_prev_log_index req) of
             Inl e \<Rightarrow> (Inl e, w1\<lparr>w_meta := meta_snapshot\<rparr>)
           | Inr our_prev_term \<Rightarrow>
               if our_prev_term \<noteq> Some (ae_prev_log_term req) then
                 (case commit S w1 (meta_batch (w_meta w1)) of
                    (Inl e, w2) \<Rightarrow> (Inl e, w2\<lparr>w_meta := meta_snapshot\<rparr>)
                  | (Inr _, w2) \<Rightarrow> (Inr \<lparr>ar_term = current_term (w_meta w2), ar_success = False,
                                         ar_match_index = 0\<rparr>, w2))
               else append_consistent S w1 meta_snapshot req)"

section \<open>RequestVote and PreVote\<close>

definition log_up_to_date ::
  "('n, 's, 'e) storage_ops \<Rightarrow> ('n, 's) worker \<Rightarrow> nat \<Rightarrow> nat \<Rightarrow> bool" where
  "log_up_to_date S w last_term last_index =
     (let our_last_term = st_last_term S (w_storage w);
          our_last_index = st_last_index S (w_storage w)
      in last_term > our_last_term \<or> (last_term = our_last_term \<and> last_index \<ge> our_last_index))"

text \<open>The three parts of \<open>handle_request_vote\<close> before its batch: adopting a higher term,
  deciding, and casting the vote.\<close>

definition vote_term_state :: "'n request_vote_req \<Rightarrow> ('n, 's) worker \<Rightarrow> ('n, 's) worker" where
  "vote_term_state req w =
     (if rv_term req > current_term (w_meta w) then step_down (append_adopt_term (rv_term req) w) else w)"

definition vote_grant :: "('n, 's, 'e) storage_ops \<Rightarrow> ('n, 's) worker \<Rightarrow> 'n request_vote_req \<Rightarrow> bool" where
  "vote_grant S w req =
     (let candidate_up_to_date = log_up_to_date S w (rv_last_log_term req) (rv_last_log_index req);
          already_voted_otherwise = (case voted_for (w_meta w) of None \<Rightarrow> False
                                     | Some v \<Rightarrow> v \<noteq> rv_candidate req)
      in \<not> already_voted_otherwise \<and> candidate_up_to_date)"

definition vote_cast :: "'n request_vote_req \<Rightarrow> bool \<Rightarrow> ('n, 's) worker \<Rightarrow> ('n, 's) worker" where
  "vote_cast req granted w =
     (if granted
      then reset_election_timer (w\<lparr>w_meta := (w_meta w)\<lparr>voted_for := Some (rv_candidate req)\<rparr>\<rparr>)
      else w)"

definition handle_request_vote ::
  "('n, 's, 'e) storage_ops \<Rightarrow> ('n, 's) worker \<Rightarrow> 'n request_vote_req
     \<Rightarrow> ('e + request_vote_resp) \<times> ('n, 's) worker" where
  "handle_request_vote S w req =
     (if rv_term req < current_term (w_meta w)
      then (Inr \<lparr>vr_term = current_term (w_meta w), vr_vote_granted = False\<rparr>, w)
      else
        let meta_snapshot = w_meta w;
            bumped = (rv_term req > current_term (w_meta w));
            w1 = vote_term_state req w;
            granted = vote_grant S w1 req;
            w2 = vote_cast req granted w1
        in if bumped \<or> granted then
             (case commit S w2 (meta_batch (w_meta w2)) of
                (Inl e, w3) \<Rightarrow> (Inl e, w3\<lparr>w_meta := meta_snapshot\<rparr>)
              | (Inr _, w3) \<Rightarrow> (Inr \<lparr>vr_term = current_term (w_meta w3), vr_vote_granted = granted\<rparr>, w3))
           else (Inr \<lparr>vr_term = current_term (w_meta w2), vr_vote_granted = granted\<rparr>, w2))"

definition handle_request_prevote ::
  "('n, 's, 'e) storage_ops \<Rightarrow> ('n, 's) worker \<Rightarrow> 'n pre_vote_req \<Rightarrow> pre_vote_resp \<times> ('n, 's) worker" where
  "handle_request_prevote S w req =
     (if pv_next_term req \<le> current_term (w_meta w)
      then (\<lparr>pr_term = current_term (w_meta w), pr_vote_granted = False\<rparr>, w)
      else
        let (now, w1) = clock_now w;
            heard_recently = (case w_last_heartbeat_received w of None \<Rightarrow> False
              | Some last_hb \<Rightarrow> now < last_hb + fst (election_timeout_ms (w_cfg w)))
        in if heard_recently
           then (\<lparr>pr_term = current_term (w_meta w), pr_vote_granted = False\<rparr>, w1)
           else (\<lparr>pr_term = current_term (w_meta w),
                  pr_vote_granted = log_up_to_date S w1 (pv_last_log_term req) (pv_last_log_index req)\<rparr>,
                 w1))"

section \<open>InstallSnapshot\<close>

definition snapshot_identity_matches :: "'n \<Rightarrow> 'n install_snapshot_req \<Rightarrow> 'n incoming_snapshot \<Rightarrow> bool" where
  "snapshot_identity_matches from req s \<longleftrightarrow>
     in_leader s = from \<and> in_term s = is_term req \<and>
     in_last_included_index s = is_last_included_index req \<and>
     in_last_included_term s = is_last_included_term req"

definition fresh_incoming :: "'n \<Rightarrow> 'n install_snapshot_req \<Rightarrow> 'n incoming_snapshot" where
  "fresh_incoming from req =
     \<lparr>in_leader = from, in_term = is_term req, in_last_included_index = is_last_included_index req,
      in_last_included_term = is_last_included_term req, in_buffer = []\<rparr>"

definition current_incoming ::
  "'n \<Rightarrow> 'n install_snapshot_req \<Rightarrow> 'n incoming_snapshot option \<Rightarrow> 'n incoming_snapshot" where
  "current_incoming from req inc =
     (case inc of Some s \<Rightarrow> if snapshot_identity_matches from req s then s else fresh_incoming from req
      | None \<Rightarrow> fresh_incoming from req)"

definition supplied_config_index :: "'n install_snapshot_req \<Rightarrow> nat option option" where
  "supplied_config_index req =
     (case (is_members req = [], is_active_config_index req) of
        (False, Some index) \<Rightarrow> if index \<le> is_last_included_index req then Some (Some index) else None
      | (True, None) \<Rightarrow> if is_joint_old req = None then Some None else None
      | _ \<Rightarrow> None)"

text \<open>The membership row of the batch and the membership adopted after it: the leader's claim
  when it sent one, else what this replica already held as committed.\<close>

definition kept_config_index :: "'n meta \<Rightarrow> ('n, 's) worker \<Rightarrow> nat option" where
  "kept_config_index meta_snapshot w =
     opt_filter (\<lambda>i. i \<le> commit_index meta_snapshot) (w_active_config_index w)"

definition snapshot_record ::
  "'n meta \<Rightarrow> ('n, 's) worker \<Rightarrow> 'n install_snapshot_req \<Rightarrow> nat option \<Rightarrow> 'n active_config_record" where
  "snapshot_record meta_snapshot w req supplied =
     (if is_members req \<noteq> []
      then \<lparr>acr_log_index = supplied, acr_current = is_members req, acr_joint_old = is_joint_old req\<rparr>
      else \<lparr>acr_log_index = kept_config_index meta_snapshot w,
            acr_current = ac_current (w_effective_cfg w),
            acr_joint_old = ac_joint_old (w_effective_cfg w)\<rparr>)"

definition adopt_snapshot_config ::
  "('n::linorder, 's, 'e) storage_ops \<Rightarrow> 'n meta \<Rightarrow> 'n install_snapshot_req \<Rightarrow> nat option
     \<Rightarrow> ('n, 's) worker \<Rightarrow> ('n, 's) worker" where
  "adopt_snapshot_config S meta_snapshot req supplied w =
     (if is_members req \<noteq> []
      then adopt_config S \<lparr>ac_current = is_members req, ac_joint_old = is_joint_old req\<rparr> supplied None w
      else w\<lparr>w_active_config_index := kept_config_index meta_snapshot w,
             w_pending_joint_entry :=
               opt_filter (\<lambda>i. \<not> i \<le> is_last_included_index req) (w_pending_joint_entry w)\<rparr>)"

definition install_meta :: "'n meta \<Rightarrow> 'n install_snapshot_req \<Rightarrow> 'n meta" where
  "install_meta m req =
     m\<lparr>snap_last_index := is_last_included_index req, snap_last_term := is_last_included_term req,
       commit_index := max (commit_index m) (is_last_included_index req)\<rparr>"

definition commit_snapshot ::
  "('n::linorder, 's, 'e) storage_ops \<Rightarrow> ('n, 's) worker \<Rightarrow> 'n meta \<Rightarrow> 'n install_snapshot_req
     \<Rightarrow> byte list \<Rightarrow> ('e + install_snapshot_resp) \<times> ('n, 's) worker" where
  "commit_snapshot S w meta_snapshot req snapshot =
     (case supplied_config_index req of
        None \<Rightarrow> (Inr \<lparr>ir_term = current_term (w_meta w), ir_bytes_received = 0\<rparr>, w)
      | Some supplied \<Rightarrow>
          let w1 = w\<lparr>w_meta := install_meta (w_meta w) req\<rparr>
          in case commit S w1 (write_batch_default\<lparr>
                    wb_compact_to := Some (is_last_included_index req, is_last_included_term req),
                    wb_state := Some snapshot, wb_meta := Some (w_meta w1),
                    wb_active_config := Some (snapshot_record meta_snapshot w1 req supplied)\<rparr>) of
               (Inl e, w2) \<Rightarrow> (Inl e, w2\<lparr>w_meta := meta_snapshot\<rparr>)
             | (Inr _, w2) \<Rightarrow>
                 let w3 = adopt_snapshot_config S meta_snapshot req supplied w2
                 in (Inr \<lparr>ir_term = current_term (w_meta w3), ir_bytes_received = length snapshot\<rparr>,
                     fire_apply_notification w3))"

definition receive_chunk ::
  "('n::linorder, 's, 'e) storage_ops \<Rightarrow> ('n, 's) worker \<Rightarrow> 'n meta \<Rightarrow> 'n \<Rightarrow> 'n install_snapshot_req
     \<Rightarrow> ('e + install_snapshot_resp) \<times> ('n, 's) worker" where
  "receive_chunk S w meta_snapshot from req =
     (let inc = current_incoming from req (w_incoming_snapshot w);
          w1 = w\<lparr>w_incoming_snapshot := Some inc\<rparr>;
          current_len = length (in_buffer inc)
      in if is_offset req > current_len
         then (Inr \<lparr>ir_term = current_term (w_meta w1), ir_bytes_received = current_len\<rparr>, w1)
         else if is_offset req = current_len
              \<and> sat_add_u64 current_len (length (is_data req)) > max_snapshot_bytes (w_cfg w1)
         then (Inr \<lparr>ir_term = current_term (w_meta w1), ir_bytes_received = 0\<rparr>,
               w1\<lparr>w_incoming_snapshot := None\<rparr>)
         else
           let buffer = (if is_offset req = current_len then in_buffer inc @ is_data req
                         else in_buffer inc);
               w2 = w1\<lparr>w_incoming_snapshot := Some (inc\<lparr>in_buffer := buffer\<rparr>)\<rparr>
           in if \<not> is_done req
              then (Inr \<lparr>ir_term = current_term (w_meta w2), ir_bytes_received = length buffer\<rparr>, w2)
              else commit_snapshot S (w2\<lparr>w_incoming_snapshot := None\<rparr>) meta_snapshot req buffer)"

definition install_at_term ::
  "('n::linorder, 's, 'e) storage_ops \<Rightarrow> ('n, 's) worker \<Rightarrow> 'n \<Rightarrow> 'n install_snapshot_req
     \<Rightarrow> ('e + install_snapshot_resp) \<times> ('n, 's) worker" where
  "install_at_term S w from req =
     (let meta_snapshot = w_meta w;
          w1 = follow_leader (is_leader req) w
      in if is_last_included_index req \<le> st_snap_last_index S (w_storage w1)
         then (Inr \<lparr>ir_term = current_term (w_meta w1),
                    ir_bytes_received = sat_add_u64 (is_offset req) (length (is_data req))\<rparr>,
               w1\<lparr>w_incoming_snapshot := None\<rparr>)
         else receive_chunk S w1 meta_snapshot from req)"

definition handle_install_snapshot ::
  "('n::linorder, 's, 'e) storage_ops \<Rightarrow> ('n, 's) worker \<Rightarrow> 'n \<Rightarrow> 'n install_snapshot_req
     \<Rightarrow> ('e + install_snapshot_resp) \<times> ('n, 's) worker" where
  "handle_install_snapshot S w from req =
     (if is_term req < current_term (w_meta w)
      then (Inr \<lparr>ir_term = current_term (w_meta w), ir_bytes_received = 0\<rparr>, w)
      else if is_term req > current_term (w_meta w) then
        (case persist_term_bump S w (is_term req) of
           (Inl e, w1) \<Rightarrow> (Inl e, w1)
         | (Inr _, w1) \<Rightarrow>
             install_at_term S (w1\<lparr>w_seen_leader := None, w_incoming_snapshot := None\<rparr>) from req)
      else install_at_term S w from req)"

section \<open>RPC responses\<close>

definition lookup_or :: "nat \<Rightarrow> ('n, nat) btree \<Rightarrow> 'n \<Rightarrow> nat" where
  "lookup_or d m k = (case bt_get m k of None \<Rightarrow> d | Some v \<Rightarrow> v)"

definition handle_append_response ::
  "('n::linorder, 's, 'e) storage_ops \<Rightarrow> ('n, 's) worker \<Rightarrow> 'n \<Rightarrow> append_entries_resp
     \<Rightarrow> ('e + unit) \<times> ('n, 's) worker" where
  "handle_append_response S w from resp =
     (if ar_term resp > current_term (w_meta w) then term_bump_step_down S w (ar_term resp)
      else if w_role w \<noteq> Leader \<or> ar_term resp \<noteq> current_term (w_meta w) then (Inr (), w)
      else case w_leader w of None \<Rightarrow> (Inr (), w)
      | Some l \<Rightarrow>
          if ar_success resp then
            let new_match = max (ar_match_index resp) (lookup_or 0 (match_index l) from);
                w1 = w\<lparr>w_leader := Some (l\<lparr>match_index := bt_insert from new_match (match_index l),
                                          next_index := bt_insert from (new_match + 1) (next_index l)\<rparr>)\<rparr>
            in case try_advance_commit_index S w1 of
                 (Inl e, w2) \<Rightarrow> (Inl e, w2)
               | (Inr _, w2) \<Rightarrow> (Inr (), try_resolve_pending_reads S w2)
          else
            let new_next = max (lookup_or 1 (next_index l) from - 1) 1
            in (Inr (), w\<lparr>w_leader := Some (l\<lparr>next_index := bt_insert from new_next (next_index l)\<rparr>)\<rparr>))"

definition handle_install_snapshot_response ::
  "('n::linorder, 's, 'e) storage_ops \<Rightarrow> ('n, 's) worker \<Rightarrow> 'n \<Rightarrow> install_snapshot_resp
     \<Rightarrow> nat \<Rightarrow> nat \<Rightarrow> nat \<Rightarrow> bool \<Rightarrow> ('e + unit) \<times> ('n, 's) worker" where
  "handle_install_snapshot_response S w from resp lii lit chunk_end_offset was_final =
     (if ir_term resp > current_term (w_meta w) then term_bump_step_down S w (ir_term resp)
      else if w_role w \<noteq> Leader \<or> ir_term resp \<noteq> current_term (w_meta w) then (Inr (), w)
      else case w_leader w of None \<Rightarrow> (Inr (), w)
      | Some l \<Rightarrow>
          let cursor = min (ir_bytes_received resp) chunk_end_offset;
              entry = (case bt_get (snapshot_send l) from of Some s \<Rightarrow> s
                       | None \<Rightarrow> \<lparr>ss_last_included_index = lii, ss_last_included_term = lit, ss_offset = 0\<rparr>);
              l1 = (if ss_last_included_index entry = lii \<and> ss_last_included_term entry = lit
                    then l\<lparr>snapshot_send := bt_insert from (entry\<lparr>ss_offset := cursor\<rparr>) (snapshot_send l)\<rparr>
                    else l\<lparr>snapshot_send := bt_remove from (snapshot_send l)\<rparr>);
              l2 = (if was_final \<and> ir_bytes_received resp \<ge> chunk_end_offset
                    then l1\<lparr>match_index := (if lii > lookup_or 0 (match_index l1) from
                                            then bt_insert from lii (match_index l1)
                                            else match_index l1),
                            next_index := bt_insert from (lii + 1) (next_index l1),
                            snapshot_send := bt_remove from (snapshot_send l1)\<rparr>
                    else l1)
          in (Inr (), w\<lparr>w_leader := Some l2\<rparr>))"

definition handle_vote_response ::
  "('n::linorder, 's, 'e) storage_ops \<Rightarrow> ('n, 's) worker \<Rightarrow> 'n \<Rightarrow> request_vote_resp
     \<Rightarrow> ('e + unit) \<times> ('n, 's) worker" where
  "handle_vote_response S w from resp =
     (if vr_term resp > current_term (w_meta w) then term_bump_step_down S w (vr_term resp)
      else if w_role w \<noteq> Candidate \<or> vr_term resp \<noteq> current_term (w_meta w) then (Inr (), w)
      else if \<not> vr_vote_granted resp then (Inr (), w)
      else if from \<notin> set (all_members (w_effective_cfg w)) then (Inr (), w)
      else
        let w1 = w\<lparr>w_votes_received := bs_insert from (w_votes_received w)\<rparr>
        in if quorum_holds (w_effective_cfg w1) (\<lambda>m. m \<in> set (w_votes_received w1)) then
             (case become_leader_no_heartbeat S w1 of
                (Inl e, w2) \<Rightarrow> (Inl e, w2)
              | (Inr _, w2) \<Rightarrow> (Inr (), deadline_now w2))
           else (Inr (), w1))"

definition handle_prevote_response ::
  "('n::linorder, 's, 'e) storage_ops \<Rightarrow> ('n, 's) worker \<Rightarrow> 'n \<Rightarrow> nat \<Rightarrow> pre_vote_resp
     \<Rightarrow> ('e + unit) \<times> ('n, 's) worker" where
  "handle_prevote_response S w from next_term resp =
     (if pr_term resp > current_term (w_meta w) then term_bump_step_down S w (pr_term resp)
      else if w_role w \<noteq> PreCandidate \<or> next_term \<noteq> current_term (w_meta w) + 1 then (Inr (), w)
      else if \<not> pr_vote_granted resp then (Inr (), w)
      else if from \<notin> set (all_members (w_effective_cfg w)) then (Inr (), w)
      else
        let w1 = w\<lparr>w_votes_received := bs_insert from (w_votes_received w)\<rparr>
        in if quorum_holds (w_effective_cfg w1) (\<lambda>m. m \<in> set (w_votes_received w1))
           then (Inr (), deadline_now ((set_role Candidate w1)\<lparr>w_pre_candidate_misses := 0\<rparr>))
           else (Inr (), w1))"

section \<open>Proposals and membership changes\<close>

definition handle_propose ::
  "('n::linorder, 's, 'e) storage_ops \<Rightarrow> ('n, 's) worker \<Rightarrow> byte list
     \<Rightarrow> (propose_error + nat) \<times> ('n, 's) worker" where
  "handle_propose S w payload =
     (if w_role w \<noteq> Leader then (Inl ProposeNotLeader, w)
      else
        let term = current_term (w_meta w);
            new_index = st_last_index S (w_storage w) + 1;
            entry = entry_data new_index term payload
        in case commit S w (write_batch_default\<lparr>wb_appends := [entry]\<rparr>) of
             (Inl _, w1) \<Rightarrow> (Inl ProposeStorage, w1)
           | (Inr _, w1) \<Rightarrow> (Inr new_index, snd (try_advance_commit_index S w1)))"

definition handle_change_membership ::
  "('n::linorder, 's, 'e) storage_ops \<Rightarrow> ('n, 's) worker \<Rightarrow> 'n list
     \<Rightarrow> (change_membership_error + nat) \<times> ('n, 's) worker" where
  "handle_change_membership S w new_members =
     (if w_role w \<noteq> Leader then (Inl ChangeNotLeader, w)
      else if is_joint (w_effective_cfg w) then (Inl InProgress, w)
      else if new_members = [] then (Inl EmptyConfig, w)
      else
        let term = current_term (w_meta w);
            new_index = st_last_index S (w_storage w) + 1;
            old_members = ac_current (w_effective_cfg w);
            entry = entry_config_change new_index term (Some old_members) new_members
        in case commit S w (write_batch_default\<lparr>wb_appends := [entry],
                wb_active_config := Some \<lparr>acr_log_index = Some new_index, acr_current = new_members,
                                         acr_joint_old = Some old_members\<rparr>\<rparr>) of
             (Inl _, w1) \<Rightarrow> (Inl ChangeStorage, w1)
           | (Inr _, w1) \<Rightarrow>
               let w2 = adopt_config S \<lparr>ac_current = new_members, ac_joint_old = Some old_members\<rparr>
                          (Some new_index) (Some new_index) w1
               in (Inr new_index, snd (try_advance_commit_index S w2)))"

end
