(* ===== verification/Raft_Driver.thy ===== *)
theory Raft_Driver
  imports Raft_Handlers
begin

text \<open>
  The active side of \<open>worker.rs\<close>: heartbeats with chunked snapshots, compaction, the two
  election phases, timers, the message dispatcher, the outcomes of outbound calls, start-up
  and one turn of the driver loop. The set of calls in flight (\<open>FuturesUnordered\<close>) is the
  list of the requests the worker has pushed; it is threaded through the functions that push.
\<close>

section \<open>Heartbeats\<close>

text \<open>The write of a compaction, with its rollback.\<close>

definition commit_compaction ::
  "('n::linorder, 's, 'e) storage_ops \<Rightarrow> ('n, 's) worker \<Rightarrow> nat \<Rightarrow> nat \<Rightarrow> ('e + unit) \<times> ('n, 's) worker" where
  "commit_compaction S w floor term_at_floor =
     (let prev_snap_index = snap_last_index (w_meta w);
          prev_snap_term = snap_last_term (w_meta w);
          w1 = w\<lparr>w_meta := (w_meta w)\<lparr>snap_last_index := floor, snap_last_term := term_at_floor\<rparr>\<rparr>
      in case commit S w1 (write_batch_default\<lparr>wb_compact_to := Some (floor, term_at_floor),
                wb_meta := Some (w_meta w1)\<rparr>) of
           (Inl e, w2) \<Rightarrow> (Inl e, w2\<lparr>w_meta := (w_meta w2)\<lparr>snap_last_index := prev_snap_index,
                                         snap_last_term := prev_snap_term\<rparr>\<rparr>)
         | (Inr _, w2) \<Rightarrow> (Inr (), w2))"

definition try_compact ::
  "('n::linorder, 's, 'e) storage_ops \<Rightarrow> ('n, 's) worker \<Rightarrow> ('e + unit) \<times> ('n, 's) worker" where
  "try_compact S w =
     (if w_leader w = None then (Inr (), w)
      else case match_index_majority_floor S w of None \<Rightarrow> (Inr (), w)
      | Some majority \<Rightarrow>
          let committed_floor = min majority (commit_index (w_meta w))
          in case st_applied_index S (w_storage w) of Inl e \<Rightarrow> (Inl e, w)
          | Inr applied \<Rightarrow>
              let applied_floor = (case applied of Some a \<Rightarrow> a | None \<Rightarrow> committed_floor);
                  floor = min committed_floor applied_floor;
                  snap = st_snap_last_index S (w_storage w)
              in if floor \<le> snap \<or> floor - snap < compact_hysteresis (w_cfg w) then (Inr (), w)
                 else case st_term_at S (w_storage w) floor of Inl e \<Rightarrow> (Inl e, w)
                 | Inr None \<Rightarrow> (Inr (), w)
                 | Inr (Some term_at_floor) \<Rightarrow> commit_compaction S w floor term_at_floor)"

definition resume_offset :: "('n, 's) worker \<Rightarrow> 'n \<Rightarrow> nat \<Rightarrow> nat \<Rightarrow> nat" where
  "resume_offset w peer snap_idx snap_term =
     (case w_leader w of None \<Rightarrow> 0
      | Some l \<Rightarrow>
          (case bt_get (snapshot_send l) peer of None \<Rightarrow> 0
           | Some s \<Rightarrow> if ss_last_included_index s = snap_idx \<and> ss_last_included_term s = snap_term
                       then ss_offset s else 0))"

definition snapshot_chunk :: "byte list \<Rightarrow> nat \<Rightarrow> nat \<Rightarrow> byte list \<times> nat \<times> bool" where
  "snapshot_chunk snapshot offset chunk_bytes =
     (let total_len = length snapshot;
          chunk_max = max chunk_bytes 1;
          start = min offset total_len;
          stop = min (start + chunk_max) total_len
      in (take (stop - start) (drop start snapshot), stop, stop \<ge> total_len))"

definition send_snapshot_chunk ::
  "('n::linorder, 's, 'e) storage_ops \<Rightarrow> ('n, 's) worker \<Rightarrow> 'n \<Rightarrow> nat \<Rightarrow> nat
     \<Rightarrow> 'n rpc_call \<times> ('n, 's) worker" where
  "send_snapshot_chunk S w peer snap_idx snap_term =
     (let offset = resume_offset w peer snap_idx snap_term;
          snapshot = (case st_read_state S (w_storage w) of Inl _ \<Rightarrow> [] | Inr b \<Rightarrow> b);
          (chunk, chunk_end_offset, was_final) =
            snapshot_chunk snapshot offset (install_snapshot_chunk_bytes (w_cfg w));
          w1 = (case w_leader w of None \<Rightarrow> w
                | Some l \<Rightarrow> w\<lparr>w_leader := Some (l\<lparr>snapshot_send := bt_insert peer
                    \<lparr>ss_last_included_index = snap_idx, ss_last_included_term = snap_term,
                     ss_offset = offset\<rparr> (snapshot_send l)\<rparr>)\<rparr>);
          carries = (was_final \<and> (case w_active_config_index w1 of None \<Rightarrow> False
                                  | Some index \<Rightarrow> index \<le> snap_idx));
          req = \<lparr>is_leader = cfg_me (w_cfg w1), is_term = current_term (w_meta w1),
                 is_last_included_index = snap_idx, is_last_included_term = snap_term,
                 is_offset = offset, is_done = was_final, is_data = chunk,
                 is_members = (if carries then ac_current (w_effective_cfg w1) else []),
                 is_joint_old = (if carries then ac_joint_old (w_effective_cfg w1) else None),
                 is_active_config_index = (if carries then w_active_config_index w1 else None)\<rparr>
      in (CallInstall peer req snap_idx snap_term chunk_end_offset was_final, w1))"

definition append_request ::
  "('n, 's, 'e) storage_ops \<Rightarrow> ('n, 's) worker \<Rightarrow> nat \<Rightarrow> 'e + 'n append_entries_req" where
  "append_request S w next_idx =
     (let prev_log_index = next_idx - 1; leader_last_index = st_last_index S (w_storage w)
      in case st_term_at S (w_storage w) prev_log_index of Inl e \<Rightarrow> Inl e
         | Inr t \<Rightarrow>
             (case (if next_idx \<le> leader_last_index
                    then st_entries S (w_storage w) next_idx leader_last_index else Inr []) of
                Inl e \<Rightarrow> Inl e
              | Inr es \<Rightarrow> Inr \<lparr>ae_leader = cfg_me (w_cfg w), ae_term = current_term (w_meta w),
                  ae_prev_log_index = prev_log_index,
                  ae_prev_log_term = (case t of Some t' \<Rightarrow> t' | None \<Rightarrow> 0),
                  ae_leader_commit = commit_index (w_meta w), ae_entries = es\<rparr>))"

text \<open>The loop over the peers. \<open>l\<close> is the copy of the leader state taken before it.\<close>

fun heartbeat_peers ::
  "('n::linorder, 's, 'e) storage_ops \<Rightarrow> 'n leader_state \<Rightarrow> 'n list \<Rightarrow> ('n, 's) worker \<Rightarrow> 'n rpc_call list
     \<Rightarrow> ('e + unit) \<times> ('n, 's) worker \<times> 'n rpc_call list" where
  "heartbeat_peers S l [] w pending = (Inr (), w, pending)"
| "heartbeat_peers S l (peer # peers) w pending =
     (if peer = cfg_me (w_cfg w) then heartbeat_peers S l peers w pending
      else
        let next_idx = lookup_or 1 (next_index l) peer;
            snap_idx = st_snap_last_index S (w_storage w);
            snap_term = st_snap_last_term S (w_storage w)
        in if next_idx \<le> snap_idx \<and> snap_idx > 0 then
             (let (call, w1) = send_snapshot_chunk S w peer snap_idx snap_term
              in heartbeat_peers S l peers w1 (pending @ [call]))
           else case append_request S w next_idx of Inl e \<Rightarrow> (Inl e, w, pending)
           | Inr req \<Rightarrow> heartbeat_peers S l peers w (pending @ [CallAppend peer req]))"

definition send_heartbeats ::
  "('n::linorder, 's, 'e) storage_ops \<Rightarrow> ('n, 's) worker \<Rightarrow> 'n rpc_call list
     \<Rightarrow> ('e + unit) \<times> ('n, 's) worker \<times> 'n rpc_call list" where
  "send_heartbeats S w pending =
     (case w_leader w of None \<Rightarrow> (Inr (), w, pending)
      | Some l \<Rightarrow>
          (case heartbeat_peers S l (all_members (w_effective_cfg w)) w pending of
             (Inl e, w1, p1) \<Rightarrow> (Inl e, w1, p1)
           | (Inr _, w1, p1) \<Rightarrow>
               let (now, w2) = clock_now (snd (try_compact S w1))
               in (Inr (), w2\<lparr>w_election_deadline := now + heartbeat_interval_ms (w_cfg w2)\<rparr>, p1)))"

definition handle_read_index ::
  "('n::linorder, 's, 'e) storage_ops \<Rightarrow> ('n, 's) worker \<Rightarrow> 'n rpc_call list \<Rightarrow> nat option \<Rightarrow> nat
     \<Rightarrow> ('n, 's) worker \<times> 'n rpc_call list" where
  "handle_read_index S w pending timeout reply =
     (let answer = (\<lambda>r. (w\<lparr>w_read_replies := w_read_replies w @ [(reply, r)]\<rparr>, pending))
      in if w_role w \<noteq> Leader then answer (Inl ReadNotLeader)
         else if is_solo_cluster w then answer (Inr (commit_index (w_meta w)))
         else if length (w_pending_read_index w) \<ge> max_pending_reads (w_cfg w)
           then answer (Inl Backpressure)
         else
           let r0 = commit_index (w_meta w);
               r = (case w_current_term_first_index w of
                      Some noop_idx \<Rightarrow> if noop_idx > r0 then noop_idx else r0 | None \<Rightarrow> r0);
               (deadline, w1) = (case timeout of None \<Rightarrow> (None, w)
                  | Some t \<Rightarrow> let (now, w') = clock_now w in (Some (now + t), w'));
               w2 = w1\<lparr>w_pending_read_index := w_pending_read_index w1 @
                         [\<lparr>pri_required_index = r, pri_deadline = deadline, pri_reply = reply\<rparr>]\<rparr>;
               (_, w3, p3) = send_heartbeats S w2 pending
           in (w3, p3))"

section \<open>Elections\<close>

definition start_election ::
  "('n::linorder, 's, 'e) storage_ops \<Rightarrow> ('n, 's) worker \<Rightarrow> 'n rpc_call list
     \<Rightarrow> ('e + unit) \<times> ('n, 's) worker \<times> 'n rpc_call list" where
  "start_election S w pending =
     (if cfg_me (w_cfg w) \<notin> set (all_members (w_effective_cfg w))
      then (Inr (), reset_election_timer w, pending)
      else
        let me = cfg_me (w_cfg w);
            w1 = (set_role Candidate w)\<lparr>w_meta := (w_meta w)\<lparr>
                    current_term := current_term (w_meta w) + 1, voted_for := Some me\<rparr>\<rparr>
        in case commit S w1 (meta_batch (w_meta w1)) of
             (Inl e, w2) \<Rightarrow>
               (Inl e, set_role Follower (w2\<lparr>w_meta := (w_meta w2)\<lparr>
                   current_term := current_term (w_meta w), voted_for := voted_for (w_meta w)\<rparr>\<rparr>), pending)
           | (Inr _, w2) \<Rightarrow>
               let w3 = w2\<lparr>w_votes_received := bs_insert me []\<rparr>;
                   req = \<lparr>rv_candidate = me, rv_term = current_term (w_meta w3),
                          rv_last_log_index = st_last_index S (w_storage w3),
                          rv_last_log_term = st_last_term S (w_storage w3)\<rparr>;
                   p1 = pending @ map (\<lambda>p. CallVote p req)
                          (filter (\<lambda>p. p \<noteq> me) (all_members (w_effective_cfg w3)))
               in if quorum_holds (w_effective_cfg w3) (\<lambda>m. m \<in> set (w_votes_received w3)) then
                    (case become_leader_no_heartbeat S w3 of
                       (Inl e, w4) \<Rightarrow> (Inl e, w4, p1)
                     | (Inr _, w4) \<Rightarrow> (Inr (), deadline_now w4, p1))
                  else (Inr (), reset_election_timer w3, p1))"

definition start_pre_election ::
  "('n::linorder, 's, 'e) storage_ops \<Rightarrow> ('n, 's) worker \<Rightarrow> 'n rpc_call list
     \<Rightarrow> ('e + unit) \<times> ('n, 's) worker \<times> 'n rpc_call list" where
  "start_pre_election S w pending =
     (if cfg_me (w_cfg w) \<notin> set (all_members (w_effective_cfg w))
      then (Inr (), reset_election_timer w, pending)
      else if is_solo_cluster w then start_election S w pending
      else
        let me = cfg_me (w_cfg w);
            w1 = (set_role PreCandidate w)\<lparr>w_votes_received := bs_insert me []\<rparr>;
            next_term = current_term (w_meta w1) + 1;
            req = \<lparr>pv_candidate = me, pv_next_term = next_term,
                   pv_last_log_index = st_last_index S (w_storage w1),
                   pv_last_log_term = st_last_term S (w_storage w1)\<rparr>;
            p1 = pending @ map (\<lambda>p. CallPreVote p next_term req)
                   (filter (\<lambda>p. p \<noteq> me) (all_members (w_effective_cfg w1)))
        in (Inr (), reset_election_timer w1, p1))"

section \<open>Timers\<close>

definition on_timer ::
  "('n::linorder, 's, 'e) storage_ops \<Rightarrow> ('n, 's) worker \<Rightarrow> 'n rpc_call list
     \<Rightarrow> ('n, 's) worker \<times> 'n rpc_call list" where
  "on_timer S w pending =
     (case w_role w of
        Follower \<Rightarrow> if pre_vote (w_cfg w) then snd (start_pre_election S w pending)
                    else snd (start_election S w pending)
      | PreCandidate \<Rightarrow>
          let w1 = w\<lparr>w_pre_candidate_misses := sat_add_u32 (w_pre_candidate_misses w) 1\<rparr>;
              cap = pre_candidate_misses_before_revert (w_cfg w1)
          in if cap > 0 \<and> w_pre_candidate_misses w1 \<ge> cap
             then (reset_election_timer ((set_role Follower w1)\<lparr>w_votes_received := [],
                                           w_pre_candidate_misses := 0\<rparr>), pending)
             else snd (start_pre_election S w1 pending)
      | Candidate \<Rightarrow> snd (start_election S w pending)
      | Leader \<Rightarrow> snd (send_heartbeats S w pending))"

definition on_worker_timer ::
  "('n::linorder, 's, 'e) storage_ops \<Rightarrow> ('n, 's) worker \<Rightarrow> 'n rpc_call list
     \<Rightarrow> ('n, 's) worker \<times> 'n rpc_call list" where
  "on_worker_timer S w pending =
     (let (now, w1) = clock_now w;
          w2 = expire_pending_reads now w1
      in if now \<ge> w_election_deadline w2 then on_timer S w2 pending else (w2, pending))"

definition wake_deadline :: "('n, 's) worker \<Rightarrow> nat" where
  "wake_deadline w =
     fold (\<lambda>d acc. min acc d) (List.map_filter pri_deadline (w_pending_read_index w))
       (w_election_deadline w)"

section \<open>Outcomes of outbound calls\<close>

definition handle_rpc_outcome ::
  "('n::linorder, 's, 'e) storage_ops \<Rightarrow> ('n, 's) worker \<Rightarrow> 'n rpc_outcome \<Rightarrow> ('n, 's) worker" where
  "handle_rpc_outcome S w out =
     (case out of
        OutAppend from (Some resp) \<Rightarrow> snd (handle_append_response S w from resp)
      | OutVote from (Some resp) \<Rightarrow> snd (handle_vote_response S w from resp)
      | OutPreVote from next_term (Some resp) \<Rightarrow> snd (handle_prevote_response S w from next_term resp)
      | OutInstall from (Some resp) lii lit chunk_end was_final \<Rightarrow>
          snd (handle_install_snapshot_response S w from resp lii lit chunk_end was_final)
      | _ \<Rightarrow> w)"

text \<open>What a call in flight may resolve to: the transport's reply of the matching kind, or
  nothing when the transport fails.\<close>

fun call_outcome :: "'n rpc_call \<Rightarrow> 'n rpc_outcome \<Rightarrow> bool" where
  "call_outcome (CallAppend p req) (OutAppend from r) = (from = p)"
| "call_outcome (CallVote p req) (OutVote from r) = (from = p)"
| "call_outcome (CallPreVote p t req) (OutPreVote from t' r) = (from = p \<and> t' = t)"
| "call_outcome (CallInstall p req i t e f) (OutInstall from r i' t' e' f') =
     (from = p \<and> i' = i \<and> t' = t \<and> e' = e \<and> f' = f)"
| "call_outcome _ _ = False"

section \<open>Messages\<close>

datatype 'n raft_msg =
    MsgAppendEntries 'n "'n append_entries_req"
  | MsgRequestVote 'n "'n request_vote_req"
  | MsgPreVote 'n "'n pre_vote_req"
  | MsgInstallSnapshot 'n "'n install_snapshot_req"
  | MsgPropose "byte list"
  | MsgReadIndex "nat option" nat
  | MsgChangeMembership "'n list"
  | MsgQueryState
  | MsgShutdown

text \<open>What is sent on the message's reply channel; \<open>None\<close> when the channel is dropped, as it
  is when an inbound RPC meets a storage error.\<close>

datatype 'n raft_reply =
    ReplyAppend append_entries_resp
  | ReplyVote request_vote_resp
  | ReplyPreVote pre_vote_resp
  | ReplyInstall install_snapshot_resp
  | ReplyPropose "propose_error + nat"
  | ReplyChange "change_membership_error + nat"
  | ReplyState "'n worker_snapshot"

definition ok_reply :: "('a \<Rightarrow> 'n raft_reply) \<Rightarrow> 'e + 'a \<Rightarrow> 'n raft_reply option" where
  "ok_reply f r = (case r of Inl _ \<Rightarrow> None | Inr a \<Rightarrow> Some (f a))"

definition handle_msg ::
  "('n::linorder, 's, 'e) storage_ops \<Rightarrow> ('n, 's) worker \<Rightarrow> 'n rpc_call list \<Rightarrow> 'n raft_msg
     \<Rightarrow> 'n raft_reply option \<times> ('n, 's) worker \<times> 'n rpc_call list" where
  "handle_msg S w pending msg =
     (case msg of
        MsgAppendEntries from req \<Rightarrow>
          (let (r, w1) = handle_append_entries S w req in (ok_reply ReplyAppend r, w1, pending))
      | MsgRequestVote from req \<Rightarrow>
          (let (r, w1) = handle_request_vote S w req in (ok_reply ReplyVote r, w1, pending))
      | MsgPreVote from req \<Rightarrow>
          (let (r, w1) = handle_request_prevote S w req in (Some (ReplyPreVote r), w1, pending))
      | MsgInstallSnapshot from req \<Rightarrow>
          (let (r, w1) = handle_install_snapshot S w from req in (ok_reply ReplyInstall r, w1, pending))
      | MsgPropose payload \<Rightarrow>
          (let (r, w1) = handle_propose S w payload in (Some (ReplyPropose r), w1, pending))
      | MsgReadIndex timeout reply \<Rightarrow> (None, handle_read_index S w pending timeout reply)
      | MsgChangeMembership ms \<Rightarrow>
          (let (r, w1) = handle_change_membership S w ms in (Some (ReplyChange r), w1, pending))
      | MsgQueryState \<Rightarrow> (Some (ReplyState (worker_snapshot_of S w)), w, pending)
      | MsgShutdown \<Rightarrow> (None, w, pending))"

text \<open>The handle's side of an inbound RPC: the fallback it answers when the inbox is closed or
  the reply channel was dropped.\<close>

definition handle_inbound_append ::
  "'n append_entries_req \<Rightarrow> append_entries_resp option \<Rightarrow> append_entries_resp" where
  "handle_inbound_append req answer = (case answer of Some r \<Rightarrow> r
     | None \<Rightarrow> \<lparr>ar_term = ae_term req, ar_success = False, ar_match_index = 0\<rparr>)"

definition handle_inbound_vote :: "'n request_vote_req \<Rightarrow> request_vote_resp option \<Rightarrow> request_vote_resp" where
  "handle_inbound_vote req answer = (case answer of Some r \<Rightarrow> r
     | None \<Rightarrow> \<lparr>vr_term = rv_term req, vr_vote_granted = False\<rparr>)"

definition handle_inbound_prevote :: "'n pre_vote_req \<Rightarrow> pre_vote_resp option \<Rightarrow> pre_vote_resp" where
  "handle_inbound_prevote req answer = (case answer of Some r \<Rightarrow> r
     | None \<Rightarrow> \<lparr>pr_term = pv_next_term req, pr_vote_granted = False\<rparr>)"

definition handle_inbound_install ::
  "'n install_snapshot_req \<Rightarrow> install_snapshot_resp option \<Rightarrow> install_snapshot_resp" where
  "handle_inbound_install req answer = (case answer of Some r \<Rightarrow> r
     | None \<Rightarrow> \<lparr>ir_term = is_term req, ir_bytes_received = 0\<rparr>)"

definition handle_client_propose :: "(propose_error + nat) option \<Rightarrow> propose_error + nat" where
  "handle_client_propose answer = (case answer of Some r \<Rightarrow> r | None \<Rightarrow> Inl ProposeNotLeader)"

section \<open>Start-up\<close>

definition status_valid_for :: "'n config \<Rightarrow> nat" where
  "status_valid_for c =
     max (max (snd (election_timeout_ms c)) (sat_mul_u64 (heartbeat_interval_ms c) 3)) 1"

definition run_worker_init ::
  "('n, 's, 'e) storage_ops \<Rightarrow> 's \<Rightarrow> 'n config \<Rightarrow> (nat \<Rightarrow> nat) \<Rightarrow> (nat \<Rightarrow> u64) \<Rightarrow> byte list \<Rightarrow> nat
     \<Rightarrow> 'e + ('n, 's) worker" where
  "run_worker_init S st c clk rng me_bytes std_now =
     (case st_load_meta S st of Inl e \<Rightarrow> Inl e
      | Inr meta \<Rightarrow>
          (case recover_active_config S st c True of Inl e \<Rightarrow> Inl e
           | Inr rec \<Rightarrow>
               let w = \<lparr>w_storage = st, w_cfg = c, w_role = Follower, w_meta = meta,
                        w_election_deadline = clk 0, w_last_heartbeat_received = None,
                        w_votes_received = [], w_leader = None, w_pending_read_index = [],
                        w_incoming_snapshot = None, w_effective_cfg = cr_active rec,
                        w_pending_joint_entry = cr_pending_joint rec,
                        w_active_config_index = cr_active_config_index rec,
                        w_current_term_first_index = None, w_seen_leader = None,
                        w_pre_candidate_misses = 0, w_apply_sink = [],
                        w_role_atomic = as_u8 Follower, w_status = None,
                        w_status_valid_for = status_valid_for c,
                        w_clock = clk, w_clock_reads = 1, w_rng = rng, w_rng_draws = 0,
                        w_me_hash_bytes = me_bytes, w_read_replies = []\<rparr>
               in Inr (publish_status S std_now (reset_election_timer w))))"

section \<open>The driver loop\<close>

text \<open>One turn of the loop handles the event the \<open>select!\<close> picked: a message from the
  inbox, the timer, or the outcome of one call in flight, which leaves the set. A shutdown
  message or a closed inbox ends the loop.\<close>

datatype 'n event = EvMsg "'n raft_msg" | EvTimer | EvOutcome nat "'n rpc_outcome" | EvInboxClosed

definition event_enabled :: "'n rpc_call list \<Rightarrow> 'n event \<Rightarrow> bool" where
  "event_enabled pending ev = (case ev of EvOutcome i out \<Rightarrow> i < length pending \<and> call_outcome (pending ! i) out
     | _ \<Rightarrow> True)"

definition loop_turn ::
  "('n::linorder, 's, 'e) storage_ops \<Rightarrow> nat \<Rightarrow> 'n event \<Rightarrow> ('n, 's) worker \<times> 'n rpc_call list
     \<Rightarrow> (('n, 's) worker \<times> 'n rpc_call list) option" where
  "loop_turn S std_now ev wp =
     (let (w, pending) = wp
      in case ev of
           EvInboxClosed \<Rightarrow> None
         | EvMsg MsgShutdown \<Rightarrow> None
         | EvMsg m \<Rightarrow> (let (_, w1, p1) = handle_msg S w pending m in Some (publish_status S std_now w1, p1))
         | EvTimer \<Rightarrow> (let (w1, p1) = on_worker_timer S w pending in Some (publish_status S std_now w1, p1))
         | EvOutcome i out \<Rightarrow>
             Some (publish_status S std_now (handle_rpc_outcome S w out),
                   take i pending @ drop (Suc i) pending))"

text \<open>The loop over a sequence of events, each with the wall clock its status publication reads;
  \<open>None\<close> when one of them ends it.\<close>

fun loop_run ::
  "('n::linorder, 's, 'e) storage_ops \<Rightarrow> (nat \<times> 'n event) list \<Rightarrow> ('n, 's) worker \<times> 'n rpc_call list
     \<Rightarrow> (('n, 's) worker \<times> 'n rpc_call list) option" where
  "loop_run S [] wp = Some wp"
| "loop_run S ((now, ev) # evs) wp =
     (case loop_turn S now ev wp of None \<Rightarrow> None | Some wp' \<Rightarrow> loop_run S evs wp')"

end
