(* ===== verification/Raft_Frame.thy ===== *)
theory Raft_Frame
  imports Raft_Driver
begin

text \<open>
  What each transition of the worker leaves alone. The lemmas here are the selectors of the
  shared transitions, so that the invariant proofs over the handlers are simplification, and
  the two rules for a \<open>commit_batch\<close> issued through the worker.
\<close>

section \<open>Selectors of the shared transitions\<close>

lemma set_role_sel [simp]:
  "w_storage (set_role r w) = w_storage w" "w_cfg (set_role r w) = w_cfg w"
  "w_role (set_role r w) = r" "w_meta (set_role r w) = w_meta w"
  "w_votes_received (set_role r w) = w_votes_received w" "w_leader (set_role r w) = w_leader w"
  "w_pending_read_index (set_role r w) = w_pending_read_index w"
  "w_incoming_snapshot (set_role r w) = w_incoming_snapshot w"
  "w_effective_cfg (set_role r w) = w_effective_cfg w"
  "w_pending_joint_entry (set_role r w) = w_pending_joint_entry w"
  "w_active_config_index (set_role r w) = w_active_config_index w"
  "w_current_term_first_index (set_role r w) = w_current_term_first_index w"
  "w_seen_leader (set_role r w) = w_seen_leader w"
  "w_role_atomic (set_role r w) = as_u8 r" "w_apply_sink (set_role r w) = w_apply_sink w"
  "w_read_replies (set_role r w) = w_read_replies w"
  by (simp_all add: set_role_def)

lemma clock_now_sel [simp]:
  "w_storage (snd (clock_now w)) = w_storage w" "w_cfg (snd (clock_now w)) = w_cfg w"
  "w_role (snd (clock_now w)) = w_role w" "w_meta (snd (clock_now w)) = w_meta w"
  "w_votes_received (snd (clock_now w)) = w_votes_received w"
  "w_leader (snd (clock_now w)) = w_leader w"
  "w_pending_read_index (snd (clock_now w)) = w_pending_read_index w"
  "w_incoming_snapshot (snd (clock_now w)) = w_incoming_snapshot w"
  "w_effective_cfg (snd (clock_now w)) = w_effective_cfg w"
  "w_pending_joint_entry (snd (clock_now w)) = w_pending_joint_entry w"
  "w_active_config_index (snd (clock_now w)) = w_active_config_index w"
  "w_current_term_first_index (snd (clock_now w)) = w_current_term_first_index w"
  "w_seen_leader (snd (clock_now w)) = w_seen_leader w"
  "w_role_atomic (snd (clock_now w)) = w_role_atomic w"
  "w_apply_sink (snd (clock_now w)) = w_apply_sink w"
  "w_read_replies (snd (clock_now w)) = w_read_replies w"
  "w_election_deadline (snd (clock_now w)) = w_election_deadline w"
  by (simp_all add: clock_now_def)

lemma reset_election_timer_sel [simp]:
  "w_storage (reset_election_timer w) = w_storage w" "w_cfg (reset_election_timer w) = w_cfg w"
  "w_role (reset_election_timer w) = w_role w" "w_meta (reset_election_timer w) = w_meta w"
  "w_votes_received (reset_election_timer w) = w_votes_received w"
  "w_leader (reset_election_timer w) = w_leader w"
  "w_pending_read_index (reset_election_timer w) = w_pending_read_index w"
  "w_incoming_snapshot (reset_election_timer w) = w_incoming_snapshot w"
  "w_effective_cfg (reset_election_timer w) = w_effective_cfg w"
  "w_pending_joint_entry (reset_election_timer w) = w_pending_joint_entry w"
  "w_active_config_index (reset_election_timer w) = w_active_config_index w"
  "w_current_term_first_index (reset_election_timer w) = w_current_term_first_index w"
  "w_seen_leader (reset_election_timer w) = w_seen_leader w"
  "w_role_atomic (reset_election_timer w) = w_role_atomic w"
  "w_apply_sink (reset_election_timer w) = w_apply_sink w"
  "w_read_replies (reset_election_timer w) = w_read_replies w"
  by (simp_all add: reset_election_timer_def rng_next_u64_def clock_now_def Let_def)

lemma deadline_now_sel [simp]:
  "w_storage (deadline_now w) = w_storage w" "w_cfg (deadline_now w) = w_cfg w"
  "w_role (deadline_now w) = w_role w" "w_meta (deadline_now w) = w_meta w"
  "w_votes_received (deadline_now w) = w_votes_received w"
  "w_leader (deadline_now w) = w_leader w"
  "w_pending_read_index (deadline_now w) = w_pending_read_index w"
  "w_incoming_snapshot (deadline_now w) = w_incoming_snapshot w"
  "w_effective_cfg (deadline_now w) = w_effective_cfg w"
  "w_pending_joint_entry (deadline_now w) = w_pending_joint_entry w"
  "w_active_config_index (deadline_now w) = w_active_config_index w"
  "w_current_term_first_index (deadline_now w) = w_current_term_first_index w"
  "w_seen_leader (deadline_now w) = w_seen_leader w"
  "w_role_atomic (deadline_now w) = w_role_atomic w"
  "w_apply_sink (deadline_now w) = w_apply_sink w"
  "w_read_replies (deadline_now w) = w_read_replies w"
  by (simp_all add: deadline_now_def clock_now_def)

lemma fire_apply_notification_sel [simp]:
  "w_storage (fire_apply_notification w) = w_storage w"
  "w_cfg (fire_apply_notification w) = w_cfg w"
  "w_role (fire_apply_notification w) = w_role w" "w_meta (fire_apply_notification w) = w_meta w"
  "w_votes_received (fire_apply_notification w) = w_votes_received w"
  "w_leader (fire_apply_notification w) = w_leader w"
  "w_pending_read_index (fire_apply_notification w) = w_pending_read_index w"
  "w_incoming_snapshot (fire_apply_notification w) = w_incoming_snapshot w"
  "w_effective_cfg (fire_apply_notification w) = w_effective_cfg w"
  "w_pending_joint_entry (fire_apply_notification w) = w_pending_joint_entry w"
  "w_active_config_index (fire_apply_notification w) = w_active_config_index w"
  "w_current_term_first_index (fire_apply_notification w) = w_current_term_first_index w"
  "w_seen_leader (fire_apply_notification w) = w_seen_leader w"
  "w_role_atomic (fire_apply_notification w) = w_role_atomic w"
  "w_apply_sink (fire_apply_notification w) = w_apply_sink w @ [commit_index (w_meta w)]"
  "w_read_replies (fire_apply_notification w) = w_read_replies w"
  by (simp_all add: fire_apply_notification_def)

lemma reply_reads_sel [simp]:
  "w_storage (reply_reads rs ps w) = w_storage w" "w_cfg (reply_reads rs ps w) = w_cfg w"
  "w_role (reply_reads rs ps w) = w_role w" "w_meta (reply_reads rs ps w) = w_meta w"
  "w_votes_received (reply_reads rs ps w) = w_votes_received w"
  "w_leader (reply_reads rs ps w) = w_leader w"
  "w_pending_read_index (reply_reads rs ps w) = ps"
  "w_incoming_snapshot (reply_reads rs ps w) = w_incoming_snapshot w"
  "w_effective_cfg (reply_reads rs ps w) = w_effective_cfg w"
  "w_pending_joint_entry (reply_reads rs ps w) = w_pending_joint_entry w"
  "w_active_config_index (reply_reads rs ps w) = w_active_config_index w"
  "w_current_term_first_index (reply_reads rs ps w) = w_current_term_first_index w"
  "w_seen_leader (reply_reads rs ps w) = w_seen_leader w"
  "w_role_atomic (reply_reads rs ps w) = w_role_atomic w"
  "w_apply_sink (reply_reads rs ps w) = w_apply_sink w"
  "w_read_replies (reply_reads rs ps w) = w_read_replies w @ rs"
  "w_election_deadline (reply_reads rs ps w) = w_election_deadline w"
  by (simp_all add: reply_reads_def)

lemma expire_pending_reads_sel [simp]:
  "w_storage (expire_pending_reads now w) = w_storage w"
  "w_cfg (expire_pending_reads now w) = w_cfg w"
  "w_role (expire_pending_reads now w) = w_role w"
  "w_meta (expire_pending_reads now w) = w_meta w"
  "w_votes_received (expire_pending_reads now w) = w_votes_received w"
  "w_leader (expire_pending_reads now w) = w_leader w"
  "w_incoming_snapshot (expire_pending_reads now w) = w_incoming_snapshot w"
  "w_effective_cfg (expire_pending_reads now w) = w_effective_cfg w"
  "w_pending_joint_entry (expire_pending_reads now w) = w_pending_joint_entry w"
  "w_active_config_index (expire_pending_reads now w) = w_active_config_index w"
  "w_current_term_first_index (expire_pending_reads now w) = w_current_term_first_index w"
  "w_role_atomic (expire_pending_reads now w) = w_role_atomic w"
  "w_election_deadline (expire_pending_reads now w) = w_election_deadline w"
  "w_pending_read_index (expire_pending_reads now w) =
     filter (\<lambda>p. \<not> read_expired now p) (w_pending_read_index w)"
  by (simp_all add: expire_pending_reads_def)

lemma try_resolve_pending_reads_sel [simp]:
  "w_storage (try_resolve_pending_reads S w) = w_storage w"
  "w_cfg (try_resolve_pending_reads S w) = w_cfg w"
  "w_role (try_resolve_pending_reads S w) = w_role w"
  "w_meta (try_resolve_pending_reads S w) = w_meta w"
  "w_votes_received (try_resolve_pending_reads S w) = w_votes_received w"
  "w_leader (try_resolve_pending_reads S w) = w_leader w"
  "w_incoming_snapshot (try_resolve_pending_reads S w) = w_incoming_snapshot w"
  "w_effective_cfg (try_resolve_pending_reads S w) = w_effective_cfg w"
  "w_pending_joint_entry (try_resolve_pending_reads S w) = w_pending_joint_entry w"
  "w_active_config_index (try_resolve_pending_reads S w) = w_active_config_index w"
  "w_current_term_first_index (try_resolve_pending_reads S w) = w_current_term_first_index w"
  "w_role_atomic (try_resolve_pending_reads S w) = w_role_atomic w"
  by (auto simp: try_resolve_pending_reads_def clock_now_def Let_def split: option.splits)

lemma try_resolve_pending_reads_subset:
  "set (w_pending_read_index (try_resolve_pending_reads S w)) \<subseteq> set (w_pending_read_index w) \<and>
   length (w_pending_read_index (try_resolve_pending_reads S w)) \<le> length (w_pending_read_index w)"
  by (auto simp: try_resolve_pending_reads_def clock_now_def Let_def split: option.splits)

lemma step_down_sel [simp]:
  "w_storage (step_down w) = w_storage w" "w_cfg (step_down w) = w_cfg w"
  "w_role (step_down w) = Follower" "w_meta (step_down w) = w_meta w"
  "w_votes_received (step_down w) = []" "w_leader (step_down w) = None"
  "w_pending_read_index (step_down w) = []" "w_incoming_snapshot (step_down w) = None"
  "w_effective_cfg (step_down w) = w_effective_cfg w"
  "w_pending_joint_entry (step_down w) = w_pending_joint_entry w"
  "w_active_config_index (step_down w) = w_active_config_index w"
  "w_current_term_first_index (step_down w) = None"
  "w_seen_leader (step_down w) = w_seen_leader w"
  "w_role_atomic (step_down w) = as_u8 Follower"
  "w_apply_sink (step_down w) = w_apply_sink w"
  "w_read_replies (step_down w) = w_read_replies w @
     map (\<lambda>p. (pri_reply p, Inl LeaderStepped)) (w_pending_read_index w)"
  by (simp_all add: step_down_def drain_pending_reads_on_step_down_def Let_def)

lemma append_adopt_term_sel [simp]:
  "w_storage (append_adopt_term t w) = w_storage w" "w_cfg (append_adopt_term t w) = w_cfg w"
  "w_role (append_adopt_term t w) = w_role w"
  "w_votes_received (append_adopt_term t w) = w_votes_received w"
  "w_leader (append_adopt_term t w) = w_leader w"
  "w_pending_read_index (append_adopt_term t w) = w_pending_read_index w"
  "w_incoming_snapshot (append_adopt_term t w) = w_incoming_snapshot w"
  "w_effective_cfg (append_adopt_term t w) = w_effective_cfg w"
  "w_pending_joint_entry (append_adopt_term t w) = w_pending_joint_entry w"
  "w_active_config_index (append_adopt_term t w) = w_active_config_index w"
  "w_current_term_first_index (append_adopt_term t w) = w_current_term_first_index w"
  "w_role_atomic (append_adopt_term t w) = w_role_atomic w"
  "w_apply_sink (append_adopt_term t w) = w_apply_sink w"
  "w_meta (append_adopt_term t w) =
     (if t > current_term (w_meta w) then (w_meta w)\<lparr>current_term := t, voted_for := None\<rparr> else w_meta w)"
  by (simp_all add: append_adopt_term_def)

lemma follow_leader_sel [simp]:
  "w_storage (follow_leader l w) = w_storage w" "w_cfg (follow_leader l w) = w_cfg w"
  "w_role (follow_leader l w) = Follower" "w_meta (follow_leader l w) = w_meta w"
  "w_votes_received (follow_leader l w) = []" "w_leader (follow_leader l w) = None"
  "w_pending_read_index (follow_leader l w) =
     (if w_role w = Leader then [] else w_pending_read_index w)"
  "w_incoming_snapshot (follow_leader l w) = w_incoming_snapshot w"
  "w_effective_cfg (follow_leader l w) = w_effective_cfg w"
  "w_pending_joint_entry (follow_leader l w) = w_pending_joint_entry w"
  "w_active_config_index (follow_leader l w) = w_active_config_index w"
  "w_current_term_first_index (follow_leader l w) = None"
  "w_seen_leader (follow_leader l w) = Some l"
  "w_role_atomic (follow_leader l w) = as_u8 Follower"
  "w_apply_sink (follow_leader l w) = w_apply_sink w"
  by (simp_all add: follow_leader_def drain_pending_reads_on_step_down_def Let_def case_prod_beta)

lemma rebuild_leader_tracking_sel [simp]:
  "w_storage (rebuild_leader_tracking S w) = w_storage w"
  "w_cfg (rebuild_leader_tracking S w) = w_cfg w"
  "w_role (rebuild_leader_tracking S w) = w_role w"
  "w_meta (rebuild_leader_tracking S w) = w_meta w"
  "w_votes_received (rebuild_leader_tracking S w) = w_votes_received w"
  "w_leader (rebuild_leader_tracking S w) = None \<longleftrightarrow> w_leader w = None"
  "w_pending_read_index (rebuild_leader_tracking S w) = w_pending_read_index w"
  "w_incoming_snapshot (rebuild_leader_tracking S w) = w_incoming_snapshot w"
  "w_effective_cfg (rebuild_leader_tracking S w) = w_effective_cfg w"
  "w_pending_joint_entry (rebuild_leader_tracking S w) = w_pending_joint_entry w"
  "w_active_config_index (rebuild_leader_tracking S w) = w_active_config_index w"
  "w_current_term_first_index (rebuild_leader_tracking S w) = w_current_term_first_index w"
  "w_seen_leader (rebuild_leader_tracking S w) = w_seen_leader w"
  "w_role_atomic (rebuild_leader_tracking S w) = w_role_atomic w"
  "w_apply_sink (rebuild_leader_tracking S w) = w_apply_sink w"
  by (simp_all add: rebuild_leader_tracking_def Let_def split: option.splits)

lemma adopt_config_sel [simp]:
  "w_storage (adopt_config S a i j w) = w_storage w" "w_cfg (adopt_config S a i j w) = w_cfg w"
  "w_role (adopt_config S a i j w) = w_role w" "w_meta (adopt_config S a i j w) = w_meta w"
  "w_votes_received (adopt_config S a i j w) = w_votes_received w"
  "w_leader (adopt_config S a i j w) = None \<longleftrightarrow> w_leader w = None"
  "w_pending_read_index (adopt_config S a i j w) = w_pending_read_index w"
  "w_incoming_snapshot (adopt_config S a i j w) = w_incoming_snapshot w"
  "w_effective_cfg (adopt_config S a i j w) = a"
  "w_pending_joint_entry (adopt_config S a i j w) = j"
  "w_active_config_index (adopt_config S a i j w) = i"
  "w_current_term_first_index (adopt_config S a i j w) = w_current_term_first_index w"
  "w_seen_leader (adopt_config S a i j w) = w_seen_leader w"
  "w_role_atomic (adopt_config S a i j w) = w_role_atomic w"
  "w_apply_sink (adopt_config S a i j w) = w_apply_sink w"
  by (simp_all add: adopt_config_def)

lemma adopt_view_sel [simp]:
  "w_storage (adopt_view S v w) = w_storage w" "w_cfg (adopt_view S v w) = w_cfg w"
  "w_role (adopt_view S v w) = w_role w" "w_meta (adopt_view S v w) = w_meta w"
  "w_votes_received (adopt_view S v w) = w_votes_received w"
  "w_leader (adopt_view S v w) = None \<longleftrightarrow> w_leader w = None"
  "w_pending_read_index (adopt_view S v w) = w_pending_read_index w"
  "w_incoming_snapshot (adopt_view S v w) = w_incoming_snapshot w"
  "w_effective_cfg (adopt_view S v w) = (case v of None \<Rightarrow> w_effective_cfg w | Some r \<Rightarrow> cr_active r)"
  "w_pending_joint_entry (adopt_view S v w) =
     (case v of None \<Rightarrow> w_pending_joint_entry w | Some r \<Rightarrow> cr_pending_joint r)"
  "w_active_config_index (adopt_view S v w) =
     (case v of None \<Rightarrow> w_active_config_index w | Some r \<Rightarrow> cr_active_config_index r)"
  "w_current_term_first_index (adopt_view S v w) = w_current_term_first_index w"
  "w_role_atomic (adopt_view S v w) = w_role_atomic w"
  "w_apply_sink (adopt_view S v w) = w_apply_sink w"
  by (simp_all add: adopt_view_def split: option.splits)

lemma adopt_snapshot_config_sel [simp]:
  "w_storage (adopt_snapshot_config S m req i w) = w_storage w"
  "w_cfg (adopt_snapshot_config S m req i w) = w_cfg w"
  "w_role (adopt_snapshot_config S m req i w) = w_role w"
  "w_meta (adopt_snapshot_config S m req i w) = w_meta w"
  "w_votes_received (adopt_snapshot_config S m req i w) = w_votes_received w"
  "w_leader (adopt_snapshot_config S m req i w) = None \<longleftrightarrow> w_leader w = None"
  "w_pending_read_index (adopt_snapshot_config S m req i w) = w_pending_read_index w"
  "w_incoming_snapshot (adopt_snapshot_config S m req i w) = w_incoming_snapshot w"
  "w_effective_cfg (adopt_snapshot_config S m req i w) =
     (if is_members req = [] then w_effective_cfg w
      else \<lparr>ac_current = is_members req, ac_joint_old = is_joint_old req\<rparr>)"
  "w_current_term_first_index (adopt_snapshot_config S m req i w) = w_current_term_first_index w"
  "w_role_atomic (adopt_snapshot_config S m req i w) = w_role_atomic w"
  "w_apply_sink (adopt_snapshot_config S m req i w) = w_apply_sink w"
  by (simp_all add: adopt_snapshot_config_def)

lemma publish_status_sel [simp]:
  "w_storage (publish_status S n w) = w_storage w" "w_cfg (publish_status S n w) = w_cfg w"
  "w_role (publish_status S n w) = w_role w" "w_meta (publish_status S n w) = w_meta w"
  "w_votes_received (publish_status S n w) = w_votes_received w"
  "w_leader (publish_status S n w) = w_leader w"
  "w_pending_read_index (publish_status S n w) = w_pending_read_index w"
  "w_incoming_snapshot (publish_status S n w) = w_incoming_snapshot w"
  "w_effective_cfg (publish_status S n w) = w_effective_cfg w"
  "w_pending_joint_entry (publish_status S n w) = w_pending_joint_entry w"
  "w_active_config_index (publish_status S n w) = w_active_config_index w"
  "w_current_term_first_index (publish_status S n w) = w_current_term_first_index w"
  "w_role_atomic (publish_status S n w) = w_role_atomic w"
  "w_apply_sink (publish_status S n w) = w_apply_sink w"
  by (simp_all add: publish_status_def)

section \<open>A batch through the worker\<close>

lemma commit_shape: "commit S w b = (r, w') \<Longrightarrow> w' = w\<lparr>w_storage := w_storage w'\<rparr>"
  by (auto simp: commit_def case_prod_beta)

lemma commit_meta: "commit S w b = (r, w') \<Longrightarrow> w_meta w' = w_meta w"
  by (auto simp: commit_def case_prod_beta)

context raft_storage
begin

lemma commit_Inr:
  assumes "commit S w b = (Inr u, w')"
  shows "view (w_storage w') = mem_commit_batch (view (w_storage w)) b"
  using assms commit_ok [of "w_storage w" b]
  by (auto simp: commit_def case_prod_beta prod_eq_iff)

lemma commit_Inl:
  assumes "commit S w b = (Inl e, w')"
  shows "view (w_storage w') = view (w_storage w)"
  using assms commit_err [of "w_storage w" b]
  by (auto simp: commit_def case_prod_beta prod_eq_iff)

lemma commit_cases:
  obtains (ok) s' where "commit S w b = (Inr (), w\<lparr>w_storage := s'\<rparr>)"
      and "view s' = mem_commit_batch (view (w_storage w)) b"
    | (err) e s' where "commit S w b = (Inl e, w\<lparr>w_storage := s'\<rparr>)" and "view s' = view (w_storage w)"
proof -
  obtain r w' where c: "commit S w b = (r, w')" by (cases "commit S w b")
  note shape = commit_shape [OF c]
  show ?thesis
  proof (cases r)
    case (Inl e)
    with c shape have "commit S w b = (Inl e, w\<lparr>w_storage := w_storage w'\<rparr>)" by simp
    moreover have "view (w_storage w') = view (w_storage w)" using c Inl by (intro commit_Inl) simp
    ultimately show ?thesis by (rule err)
  next
    case (Inr u)
    with c shape have "commit S w b = (Inr (), w\<lparr>w_storage := w_storage w'\<rparr>)" by simp
    moreover have "view (w_storage w') = mem_commit_batch (view (w_storage w)) b"
      using c Inr by (intro commit_Inr) simp
    ultimately show ?thesis by (rule ok)
  qed
qed

end

lemma meta_batch_sel [simp]:
  "wb_truncate_after (meta_batch m) = None" "wb_compact_to (meta_batch m) = None"
  "wb_appends (meta_batch m) = []" "wb_state (meta_batch m) = None"
  "wb_meta (meta_batch m) = Some m" "wb_active_config (meta_batch m) = None"
  by (simp_all add: meta_batch_def write_batch_default_def)

lemma write_batch_default_sel [simp]:
  "wb_truncate_after write_batch_default = None" "wb_compact_to write_batch_default = None"
  "wb_appends write_batch_default = []" "wb_state write_batch_default = None"
  "wb_meta write_batch_default = None" "wb_active_config write_batch_default = None"
  by (simp_all add: write_batch_default_def)

end
