(* ===== verification/Raft_Safety.thy ===== *)
theory Raft_Safety
  imports Raft_Frame
begin

text \<open>
  The invariant of one worker and the order in which its durable scalars evolve. The worker's
  in-memory \<open>meta\<close> is the stored one after every handler, failed ones included; the term
  never falls, a vote is never changed within a term, neither the commit index nor the
  snapshot boundary ever falls. The lemmas are proved once in the locale of the storage
  contract, for every backend.
\<close>

definition meta_step :: "'n meta \<Rightarrow> 'n meta \<Rightarrow> bool" where
  "meta_step m m' \<longleftrightarrow>
     current_term m \<le> current_term m' \<and>
     (current_term m' = current_term m \<and> voted_for m \<noteq> None \<longrightarrow> voted_for m' = voted_for m) \<and>
     commit_index m \<le> commit_index m' \<and> snap_last_index m \<le> snap_last_index m'"

definition worker_inv :: "('s \<Rightarrow> 'n mem_storage) \<Rightarrow> ('n, 's) worker \<Rightarrow> bool" where
  "worker_inv view w \<longleftrightarrow>
     ms_meta (view (w_storage w)) = w_meta w \<and>
     w_role_atomic w = as_u8 (w_role w) \<and>
     (w_leader w = None \<longleftrightarrow> w_role w \<noteq> Leader) \<and>
     (w_current_term_first_index w = None \<longleftrightarrow> w_role w \<noteq> Leader) \<and>
     (w_role w \<noteq> Leader \<longrightarrow> w_pending_read_index w = []) \<and>
     length (w_pending_read_index w) \<le> max_pending_reads (w_cfg w) \<and>
     snap_last_index (w_meta w) \<le> commit_index (w_meta w)"

definition worker_step :: "('s \<Rightarrow> 'n mem_storage) \<Rightarrow> ('n, 's) worker \<Rightarrow> ('n, 's) worker \<Rightarrow> bool" where
  "worker_step view w w' \<longleftrightarrow>
     worker_inv view w' \<and> meta_step (w_meta w) (w_meta w') \<and> w_cfg w' = w_cfg w"

lemma meta_step_refl [simp]: "meta_step m m"
  by (simp add: meta_step_def)

lemma meta_step_trans: "meta_step a b \<Longrightarrow> meta_step b c \<Longrightarrow> meta_step a c"
  unfolding meta_step_def by (metis le_trans le_antisym)

lemma worker_step_refl: "worker_inv view w \<Longrightarrow> worker_step view w w"
  by (simp add: worker_step_def)

lemma worker_step_trans [trans]:
  "worker_step view a b \<Longrightarrow> worker_step view b c \<Longrightarrow> worker_step view a c"
  unfolding worker_step_def using meta_step_trans by metis

lemma worker_stepD: "worker_step view w w' \<Longrightarrow> worker_inv view w'"
  by (simp add: worker_step_def)

text \<open>A change of volatile fields only.\<close>

lemma worker_step_volatile:
  assumes "worker_step view w w1"
    and "w_storage w2 = w_storage w1" "w_meta w2 = w_meta w1" "w_cfg w2 = w_cfg w1"
    and "w_role_atomic w2 = as_u8 (w_role w2)"
    and "w_leader w2 = None \<longleftrightarrow> w_role w2 \<noteq> Leader"
    and "w_current_term_first_index w2 = None \<longleftrightarrow> w_role w2 \<noteq> Leader"
    and "w_role w2 \<noteq> Leader \<longrightarrow> w_pending_read_index w2 = []"
    and "length (w_pending_read_index w2) \<le> max_pending_reads (w_cfg w2)"
  shows "worker_step view w w2"
  using assms by (simp add: worker_step_def worker_inv_def)

context raft_storage
begin

lemma step_down_step: "worker_inv view w \<Longrightarrow> worker_step view w (step_down w)"
  by (simp add: worker_step_def worker_inv_def)

lemma follow_leader_step: "worker_inv view w \<Longrightarrow> worker_step view w (follow_leader l w)"
  by (simp add: worker_step_def worker_inv_def)

lemma persist_term_bump_step:
  assumes inv: "worker_inv view w" and up: "t > current_term (w_meta w)"
  shows "worker_step view w (snd (persist_term_bump S w t))"
proof -
  let ?b = "meta_batch ((w_meta w)\<lparr>current_term := t, voted_for := None\<rparr>)"
  show ?thesis
    by (cases rule: commit_cases [of w ?b])
      (use inv up in \<open>simp_all add: persist_term_bump_def worker_step_def worker_inv_def meta_step_def\<close>)
qed

lemma term_bump_step_down_step:
  assumes "worker_inv view w" and "t > current_term (w_meta w)"
  shows "worker_step view w (snd (term_bump_step_down S w t))"
proof (cases "persist_term_bump S w t")
  case (Pair r w1)
  with persist_term_bump_step [OF assms] have "worker_step view w w1" by simp
  with Pair step_down_step [of w1] worker_step_trans [of view w w1] worker_stepD [of view w w1]
  show ?thesis by (cases r) (auto simp: term_bump_step_down_def)
qed

lemma auto_finalize_step:
  assumes inv: "worker_inv view w"
  shows "worker_step view w (snd (auto_finalize_joint_config S w))"
proof -
  let ?b = "write_batch_default\<lparr>wb_appends := [entry_config_change (st_last_index S (w_storage w) + 1)
              (current_term (w_meta w)) None (ac_current (w_effective_cfg w))],
            wb_active_config := Some \<lparr>acr_log_index = Some (st_last_index S (w_storage w) + 1),
              acr_current = ac_current (w_effective_cfg w), acr_joint_old = None\<rparr>\<rparr>"
  show ?thesis
    by (cases rule: commit_cases [of w ?b])
      (use inv in \<open>auto simp: auto_finalize_joint_config_def worker_step_def worker_inv_def Let_def
         split: option.splits\<close>)
qed

lemma try_advance_step:
  assumes inv: "worker_inv view w"
  shows "worker_step view w (snd (try_advance_commit_index S w))"
proof (cases "match_index_majority_floor S w")
  case None
  then show ?thesis using inv by (simp add: try_advance_commit_index_def worker_step_refl)
next
  case (Some f)
  let ?m = "(w_meta w)\<lparr>commit_index := f\<rparr>"
  show ?thesis
  proof (cases "f \<le> commit_index (w_meta w) \<or>
                st_term_at S (w_storage w) f \<noteq> Inr (Some (current_term (w_meta w)))")
    case True
    then show ?thesis using inv Some
      by (auto simp: try_advance_commit_index_def worker_step_refl split: sum.splits)
  next
    case False
    show ?thesis
    proof (cases rule: commit_cases [of "w\<lparr>w_meta := ?m\<rparr>" "meta_batch ?m"])
      case (ok s')
      have st: "worker_step view w (fire_apply_notification (w\<lparr>w_meta := ?m, w_storage := s'\<rparr>))"
        using inv ok False by (simp add: worker_step_def worker_inv_def meta_step_def)
      show ?thesis
        using worker_step_trans [OF st auto_finalize_step [OF worker_stepD [OF st]]] Some False ok
        by (simp add: try_advance_commit_index_def)
    next
      case (err e s')
      then show ?thesis using inv Some False
        by (simp add: try_advance_commit_index_def worker_step_def worker_inv_def)
    qed
  qed
qed

lemma become_leader_step:
  assumes inv: "worker_inv view w" and role: "w_role w \<noteq> Leader"
  shows "worker_step view w (snd (become_leader_no_heartbeat S w))"
proof -
  let ?i = "st_last_index S (w_storage w) + 1"
  let ?b = "write_batch_default\<lparr>wb_appends := [entry_data ?i (current_term (w_meta w)) []]\<rparr>"
  show ?thesis
  proof (cases rule: commit_cases [of w ?b])
    case (ok s')
    let ?w2 = "(set_role Leader (w\<lparr>w_storage := s'\<rparr>))\<lparr>w_votes_received := [],
                 w_leader := Some (leader_state_fresh (all_members (w_effective_cfg w))
                                    (cfg_me (w_cfg w)) (st_last_index S (w_storage w))),
                 w_seen_leader := Some (cfg_me (w_cfg w)),
                 w_current_term_first_index := Some ?i\<rparr>"
    have st: "worker_step view w ?w2"
      using inv ok by (simp add: worker_step_def worker_inv_def)
    show ?thesis
      using worker_step_trans [OF st try_advance_step [OF worker_stepD [OF st]]] ok
      by (simp add: become_leader_no_heartbeat_def Let_def)
  next
    case (err e s')
    then show ?thesis using inv
      by (simp add: become_leader_no_heartbeat_def Let_def worker_step_def worker_inv_def)
  qed
qed

subsection \<open>Inbound RPCs\<close>

text \<open>The log part of \<open>handle_append_entries\<close> runs on a follower whose in-memory term may be
  ahead of the stored one by the request's.\<close>

lemma append_consistent_step:
  assumes inv: "worker_inv view w" and meta: "w_meta w1 = m1" and st: "meta_step (w_meta w) m1"
    and snap: "snap_last_index m1 = snap_last_index (w_meta w)"
    and w1: "w_storage w1 = w_storage w" "w_cfg w1 = w_cfg w" "w_role w1 = Follower"
      "w_role_atomic w1 = as_u8 Follower" "w_leader w1 = None"
      "w_current_term_first_index w1 = None" "w_pending_read_index w1 = []"
  shows "worker_step view w (snd (append_consistent S w1 (w_meta w) req))"
proof -
  define w2 where "w2 = (case append_commit_target w1 req of None \<Rightarrow> w1
                    | Some c \<Rightarrow> w1\<lparr>w_meta := (w_meta w1)\<lparr>commit_index := c\<rparr>\<rparr>)"
  have w2: "w_storage w2 = w_storage w" "w_cfg w2 = w_cfg w" "w_role w2 = Follower"
      "w_role_atomic w2 = as_u8 Follower" "w_leader w2 = None"
      "w_current_term_first_index w2 = None" "w_pending_read_index w2 = []"
    using w1 by (simp_all add: w2_def split: option.splits)
  have m2: "meta_step (w_meta w) (w_meta w2)" "snap_last_index (w_meta w2) = snap_last_index (w_meta w)"
    using st meta snap
    by (auto simp: w2_def append_commit_target_def Let_def meta_step_def split: option.splits if_splits)
  from inv have inv': "ms_meta (view (w_storage w)) = w_meta w"
      "snap_last_index (w_meta w) \<le> commit_index (w_meta w)" by (simp_all add: worker_inv_def)
  show ?thesis
  proof (cases "scan_conflict S (w_storage w1) (ae_prev_log_index req + 1) (ae_entries req) 0")
    case (Inl e)
    then show ?thesis using inv' w1
      by (simp add: append_consistent_def worker_step_def worker_inv_def)
  next
    case (Inr ca)
    obtain conflict present where ca: "ca = (conflict, present)" by (cases ca)
    let ?ta = "map_option (\<lambda>i. i - 1) conflict"
    let ?ap = "drop present (reindexed (ae_prev_log_index req) (ae_entries req))"
    show ?thesis
    proof (cases "post_active_view S w2 req ?ap ?ta")
      case err: (Inl e)
      then show ?thesis using inv' w2 Inr ca
        by (simp add: append_consistent_def w2_def [symmetric] worker_step_def worker_inv_def)
    next
      case v: (Inr v)
      let ?b = "\<lparr>wb_truncate_after = ?ta, wb_compact_to = None, wb_appends = ?ap, wb_state = None,
                 wb_meta = Some (w_meta w2), wb_active_config = map_option view_record v\<rparr>"
      show ?thesis
        by (cases rule: commit_cases [of w2 ?b])
          (use inv' w2 m2 Inr ca v in \<open>auto simp: append_consistent_def w2_def [symmetric] Let_def
             worker_step_def worker_inv_def meta_step_def\<close>)
    qed
  qed
qed

lemma handle_append_entries_step:
  assumes inv: "worker_inv view w"
  shows "worker_step view w (snd (handle_append_entries S w req))"
proof (cases "ae_term req < current_term (w_meta w)")
  case True
  then show ?thesis using inv by (simp add: handle_append_entries_def worker_step_refl)
next
  case False
  define w1 where "w1 = follow_leader (ae_leader req) (append_adopt_term (ae_term req) w)"
  have w1: "w_storage w1 = w_storage w" "w_cfg w1 = w_cfg w" "w_role w1 = Follower"
      "w_role_atomic w1 = as_u8 Follower" "w_leader w1 = None"
      "w_current_term_first_index w1 = None" "w_pending_read_index w1 = []"
    using inv by (simp_all add: w1_def worker_inv_def)
  have m1: "meta_step (w_meta w) (w_meta w1)" "snap_last_index (w_meta w1) = snap_last_index (w_meta w)"
      "commit_index (w_meta w1) = commit_index (w_meta w)"
    by (simp_all add: w1_def meta_step_def)
  note inv' = inv [unfolded worker_inv_def]
  show ?thesis
  proof (cases "st_term_at S (w_storage w1) (ae_prev_log_index req)")
    case (Inl e)
    then show ?thesis using inv' w1 False
      by (simp add: handle_append_entries_def w1_def [symmetric] worker_step_def worker_inv_def)
  next
    case (Inr t)
    show ?thesis
    proof (cases "t = Some (ae_prev_log_term req)")
      case True
      then show ?thesis using append_consistent_step [OF inv refl m1(1) m1(2) w1] Inr False
        by (simp add: handle_append_entries_def w1_def [symmetric] Let_def)
    next
      case t: False
      show ?thesis
        by (cases rule: commit_cases [of w1 "meta_batch (w_meta w1)"])
          (use inv' w1 m1 Inr t False in \<open>simp_all add: handle_append_entries_def w1_def [symmetric]
             Let_def worker_step_def worker_inv_def\<close>)
    qed
  qed
qed

lemma vote_cast_inv:
  fixes req :: "'n request_vote_req"
  assumes inv: "worker_inv view w"
  defines "w2 \<equiv> vote_cast req (vote_grant S (vote_term_state req w) req) (vote_term_state req w)"
  shows "w_storage w2 = w_storage w \<and> w_cfg w2 = w_cfg w \<and> meta_step (w_meta w) (w_meta w2) \<and>
    snap_last_index (w_meta w2) = snap_last_index (w_meta w) \<and>
    commit_index (w_meta w2) = commit_index (w_meta w) \<and>
    w_role_atomic w2 = as_u8 (w_role w2) \<and> (w_leader w2 = None \<longleftrightarrow> w_role w2 \<noteq> Leader) \<and>
    (w_current_term_first_index w2 = None \<longleftrightarrow> w_role w2 \<noteq> Leader) \<and>
    (w_role w2 \<noteq> Leader \<longrightarrow> w_pending_read_index w2 = []) \<and>
    length (w_pending_read_index w2) \<le> max_pending_reads (w_cfg w2)"
  using inv unfolding w2_def worker_inv_def
  by (auto simp: vote_cast_def vote_term_state_def vote_grant_def Let_def meta_step_def split: option.splits)

lemma handle_request_vote_step:
  assumes inv: "worker_inv view w"
  shows "worker_step view w (snd (handle_request_vote S w req))"
proof -
  let ?w1 = "vote_term_state req w"
  let ?w2 = "vote_cast req (vote_grant S ?w1 req) ?w1"
  note inv' = inv [unfolded worker_inv_def]
  note w2 = vote_cast_inv [OF inv, of req]
  have same: "?w2 = w" if "\<not> rv_term req > current_term (w_meta w)" "\<not> vote_grant S ?w1 req"
    using that by (simp add: vote_cast_def vote_term_state_def)
  show ?thesis
    by (cases rule: commit_cases [of ?w2 "meta_batch (w_meta ?w2)"])
      (use inv' w2 same in \<open>auto simp: handle_request_vote_def Let_def worker_step_def worker_inv_def\<close>)
qed

lemma handle_request_prevote_step:
  assumes "worker_inv view w"
  shows "worker_step view w (snd (handle_request_prevote S w req))"
  using assms by (auto simp: handle_request_prevote_def Let_def clock_now_def worker_step_def
      worker_inv_def case_prod_beta)

lemma commit_snapshot_step:
  assumes inv: "worker_inv view w" and follower: "w_role w = Follower"
    and ms: "meta_snapshot = w_meta w" and fwd: "is_last_included_index req > snap_last_index (w_meta w)"
  shows "worker_step view w (snd (commit_snapshot S w meta_snapshot req bs))"
proof (cases "supplied_config_index req")
  case None
  then show ?thesis using inv by (simp add: commit_snapshot_def worker_step_refl)
next
  case (Some supplied)
  let ?m1 = "install_meta (w_meta w) req"
  let ?b = "write_batch_default\<lparr>
              wb_compact_to := Some (is_last_included_index req, is_last_included_term req),
              wb_state := Some bs, wb_meta := Some ?m1,
              wb_active_config := Some (snapshot_record meta_snapshot (w\<lparr>w_meta := ?m1\<rparr>) req supplied)\<rparr>"
  note inv' = inv [unfolded worker_inv_def]
  have m1: "meta_step (w_meta w) ?m1" "snap_last_index ?m1 \<le> commit_index ?m1"
    using fwd by (simp_all add: install_meta_def meta_step_def)
  show ?thesis
    by (cases rule: commit_cases [of "w\<lparr>w_meta := ?m1\<rparr>" ?b])
      (use inv' follower ms Some m1 in \<open>simp_all add: commit_snapshot_def Let_def
         worker_step_def worker_inv_def\<close>)
qed

lemma receive_chunk_step:
  assumes inv: "worker_inv view w" and follower: "w_role w = Follower"
    and ms: "meta_snapshot = w_meta w" and fwd: "is_last_included_index req > snap_last_index (w_meta w)"
  shows "worker_step view w (snd (receive_chunk S w meta_snapshot from req))"
proof -
  have vol: "worker_step view w (w\<lparr>w_incoming_snapshot := i\<rparr>)" for i
    using inv by (simp add: worker_step_def worker_inv_def)
  have fin: "worker_step view w (snd (commit_snapshot S (w\<lparr>w_incoming_snapshot := None\<rparr>) meta_snapshot req b))" for b
    using worker_step_trans [OF vol [of None] commit_snapshot_step [OF worker_stepD [OF vol]]]
      follower ms fwd by simp
  show ?thesis using vol fin by (simp add: receive_chunk_def Let_def)
qed

lemma install_at_term_step:
  assumes inv: "worker_inv view w"
  shows "worker_step view w (snd (install_at_term S w from req))"
proof -
  let ?w1 = "follow_leader (is_leader req) w"
  note f = follow_leader_step [OF inv, of "is_leader req"]
  show ?thesis
  proof (cases "is_last_included_index req \<le> st_snap_last_index S (w_storage ?w1)")
    case True
    then show ?thesis using f
      by (simp add: install_at_term_def Let_def worker_step_def worker_inv_def)
  next
    case False
    then have "is_last_included_index req > snap_last_index (w_meta ?w1)"
      using inv by (simp add: snap_index worker_inv_def)
    then have "worker_step view ?w1 (snd (receive_chunk S ?w1 (w_meta w) from req))"
      using worker_stepD [OF f] by (intro receive_chunk_step) simp_all
    from worker_step_trans [OF f this] False show ?thesis by (simp add: install_at_term_def Let_def)
  qed
qed

lemma handle_install_snapshot_step:
  assumes inv: "worker_inv view w"
  shows "worker_step view w (snd (handle_install_snapshot S w from req))"
proof -
  consider "is_term req < current_term (w_meta w)" | "is_term req = current_term (w_meta w)"
    | "is_term req > current_term (w_meta w)" by linarith
  then show ?thesis
  proof cases
    case 3
    obtain r w1 where p: "persist_term_bump S w (is_term req) = (r, w1)" by fastforce
    with persist_term_bump_step [OF inv 3] have s1: "worker_step view w w1" by simp
    show ?thesis
    proof (cases r)
      case (Inl e)
      with p 3 s1 show ?thesis by (simp add: handle_install_snapshot_def)
    next
      case (Inr u)
      let ?w2 = "w1\<lparr>w_seen_leader := None, w_incoming_snapshot := None\<rparr>"
      have "worker_step view w ?w2" using s1 by (auto simp: worker_step_def worker_inv_def)
      from worker_step_trans [OF this install_at_term_step [OF worker_stepD [OF this]]] p 3 Inr
      show ?thesis by (simp add: handle_install_snapshot_def)
    qed
  qed (use inv install_at_term_step [OF inv] in
      \<open>simp_all add: handle_install_snapshot_def worker_step_refl\<close>)
qed

subsection \<open>RPC responses\<close>

lemma handle_append_response_step:
  assumes inv: "worker_inv view w"
  shows "worker_step view w (snd (handle_append_response S w from resp))"
proof (cases "ar_term resp > current_term (w_meta w)")
  case True
  then show ?thesis using term_bump_step_down_step [OF inv True]
    by (simp add: handle_append_response_def)
next
  case False
  have resolve: "worker_step view w (try_resolve_pending_reads S w')" if "worker_step view w w'" for w'
    using that try_resolve_pending_reads_subset [of S w']
    by (auto simp: worker_step_def worker_inv_def)
  have adv: "worker_step view w (snd (try_advance_commit_index S (w\<lparr>w_leader := Some l\<rparr>)))"
    if "w_leader w \<noteq> None" for l
  proof -
    have "worker_step view w (w\<lparr>w_leader := Some l\<rparr>)"
      using inv that by (auto simp: worker_step_def worker_inv_def)
    from worker_step_trans [OF this try_advance_step [OF worker_stepD [OF this]]] show ?thesis .
  qed
  show ?thesis
  proof (cases "w_leader w")
    case None
    then show ?thesis using False inv by (simp add: handle_append_response_def worker_step_refl)
  next
    case (Some l)
    show ?thesis
    proof (cases "ar_success resp")
      case True
      let ?l = "l\<lparr>match_index := bt_insert from (max (ar_match_index resp) (lookup_or 0 (match_index l) from)) (match_index l),
                 next_index := bt_insert from (max (ar_match_index resp) (lookup_or 0 (match_index l) from) + 1) (next_index l)\<rparr>"
      obtain r w2 where a: "try_advance_commit_index S (w\<lparr>w_leader := Some ?l\<rparr>) = (r, w2)" by fastforce
      have "worker_step view w w2" using adv [of ?l] Some a by simp
      with resolve [of w2] a Some True False inv show ?thesis
        by (cases r) (auto simp: handle_append_response_def Let_def worker_step_refl)
    next
      case fail: False
      have "worker_step view w (w\<lparr>w_leader := Some l'\<rparr>)" for l'
        using inv Some by (auto simp: worker_step_def worker_inv_def)
      with fail Some False inv show ?thesis
        by (simp add: handle_append_response_def Let_def worker_step_refl)
    qed
  qed
qed

lemma handle_install_snapshot_response_step:
  assumes inv: "worker_inv view w"
  shows "worker_step view w (snd (handle_install_snapshot_response S w from resp i t e f))"
proof -
  have "worker_step view w (w\<lparr>w_leader := Some l'\<rparr>)" if "w_leader w = Some l" for l l'
    using inv that by (auto simp: worker_step_def worker_inv_def)
  with term_bump_step_down_step [OF inv] inv show ?thesis
    by (auto simp: handle_install_snapshot_response_def Let_def worker_step_refl split: option.split)
qed

lemma handle_vote_response_step:
  assumes inv: "worker_inv view w"
  shows "worker_step view w (snd (handle_vote_response S w from resp))"
proof (cases "vr_term resp > current_term (w_meta w)")
  case True
  then show ?thesis using term_bump_step_down_step [OF inv True]
    by (simp add: handle_vote_response_def)
next
  case False
  let ?w1 = "w\<lparr>w_votes_received := bs_insert from (w_votes_received w)\<rparr>"
  have s1: "worker_step view w ?w1" using inv by (simp add: worker_step_def worker_inv_def)
  obtain r w2 where b: "become_leader_no_heartbeat S ?w1 = (r, w2)" by fastforce
  have s2: "worker_step view w w2" if "w_role w = Candidate"
    using worker_step_trans [OF s1 become_leader_step [OF worker_stepD [OF s1]]] b that by simp
  have s3: "worker_step view w (deadline_now w2)" if "w_role w = Candidate"
    using s2 [OF that] by (auto simp: worker_step_def worker_inv_def)
  show ?thesis using s1 s2 s3 b inv False
    by (cases r) (auto simp: handle_vote_response_def Let_def worker_step_refl)
qed

lemma handle_prevote_response_step:
  assumes inv: "worker_inv view w"
  shows "worker_step view w (snd (handle_prevote_response S w from nt resp))"
proof -
  let ?w1 = "w\<lparr>w_votes_received := bs_insert from (w_votes_received w)\<rparr>"
  have "worker_step view w (deadline_now ((set_role Candidate ?w1)\<lparr>w_pre_candidate_misses := 0\<rparr>))"
    if "w_role w = PreCandidate"
    using inv that by (simp add: worker_step_def worker_inv_def)
  moreover have "worker_step view w ?w1" using inv by (simp add: worker_step_def worker_inv_def)
  ultimately show ?thesis
    using inv term_bump_step_down_step [OF inv]
    by (simp add: handle_prevote_response_def Let_def worker_step_refl)
qed

subsection \<open>Client requests\<close>

lemma handle_propose_step:
  assumes inv: "worker_inv view w"
  shows "worker_step view w (snd (handle_propose S w payload))"
proof -
  let ?b = "write_batch_default\<lparr>wb_appends :=
              [entry_data (st_last_index S (w_storage w) + 1) (current_term (w_meta w)) payload]\<rparr>"
  show ?thesis
  proof (cases rule: commit_cases [of w ?b])
    case (ok s')
    have "worker_step view w (w\<lparr>w_storage := s'\<rparr>)"
      using inv ok by (simp add: worker_step_def worker_inv_def)
    from worker_step_trans [OF this try_advance_step [OF worker_stepD [OF this]]] ok inv
    show ?thesis by (simp add: handle_propose_def Let_def worker_step_refl)
  qed (use inv in \<open>simp add: handle_propose_def Let_def worker_step_def worker_inv_def\<close>)
qed

lemma handle_change_membership_step:
  assumes inv: "worker_inv view w"
  shows "worker_step view w (snd (handle_change_membership S w ms))"
proof -
  let ?i = "st_last_index S (w_storage w) + 1" and ?old = "ac_current (w_effective_cfg w)"
  let ?b = "write_batch_default\<lparr>wb_appends := [entry_config_change ?i (current_term (w_meta w)) (Some ?old) ms],
              wb_active_config := Some \<lparr>acr_log_index = Some ?i, acr_current = ms, acr_joint_old = Some ?old\<rparr>\<rparr>"
  show ?thesis
  proof (cases rule: commit_cases [of w ?b])
    case (ok s')
    have "worker_step view w (adopt_config S \<lparr>ac_current = ms, ac_joint_old = Some ?old\<rparr> (Some ?i) (Some ?i)
            (w\<lparr>w_storage := s'\<rparr>))"
      using inv ok by (simp add: worker_step_def worker_inv_def)
    from worker_step_trans [OF this try_advance_step [OF worker_stepD [OF this]]] ok inv
    show ?thesis by (simp add: handle_change_membership_def Let_def worker_step_refl)
  qed (use inv in \<open>simp add: handle_change_membership_def Let_def worker_step_def worker_inv_def\<close>)
qed

subsection \<open>Heartbeats and compaction\<close>

text \<open>What \<open>try_compact\<close> does, if it does anything: one compaction at an index above the
  boundary, committed, applied where the backend reports it, and held by a quorum.\<close>

lemma try_compact_cases:
  obtains (idle) r where "try_compact S w = (r, w)"
    | (compact) i t majority applied where "try_compact S w = commit_compaction S w i t"
        and "match_index_majority_floor S w = Some majority"
        and "st_applied_index S (w_storage w) = Inr applied"
        and "i \<le> majority" "i \<le> commit_index (w_meta w)" "\<And>a. applied = Some a \<Longrightarrow> i \<le> a"
        and "st_snap_last_index S (w_storage w) < i"
        and "compact_hysteresis (w_cfg w) \<le> i - st_snap_last_index S (w_storage w)"
        and "st_term_at S (w_storage w) i = Inr (Some t)"
proof (cases "\<exists>r. try_compact S w = (r, w)")
  case False
  then obtain majority where m: "match_index_majority_floor S w = Some majority"
    by (auto simp: try_compact_def split: option.splits)
  obtain applied where a: "st_applied_index S (w_storage w) = Inr applied"
  proof (cases "st_applied_index S (w_storage w)")
    case (Inl e)
    then have "try_compact S w = (if w_leader w = None then Inr () else Inl e, w)"
      by (simp add: try_compact_def m)
    with False show ?thesis by blast
  qed (rule that)
  define cf where "cf = min majority (commit_index (w_meta w))"
  define fl where "fl = min cf (case applied of Some x \<Rightarrow> x | None \<Rightarrow> cf)"
  have eq: "try_compact S w =
      (if w_leader w = None then (Inr (), w)
       else if fl \<le> st_snap_last_index S (w_storage w) \<or>
               fl - st_snap_last_index S (w_storage w) < compact_hysteresis (w_cfg w) then (Inr (), w)
       else case st_term_at S (w_storage w) fl of Inl e \<Rightarrow> (Inl e, w) | Inr None \<Rightarrow> (Inr (), w)
            | Inr (Some t) \<Rightarrow> commit_compaction S w fl t)"
    unfolding try_compact_def
    by (simp only: m a option.case sum.case Let_def cf_def [symmetric] fl_def [symmetric])
  obtain t where t: "st_term_at S (w_storage w) fl = Inr (Some t)"
  proof (cases "st_term_at S (w_storage w) fl")
    case (Inr x)
    with that False show ?thesis by (cases x) (auto simp: eq split: if_splits)
  qed (use False in \<open>auto simp: eq split: if_splits\<close>)
  have fl: "fl \<le> majority" "fl \<le> commit_index (w_meta w)" "applied = Some x \<Longrightarrow> fl \<le> x" for x
    by (auto simp: fl_def cf_def)
  show ?thesis
    by (rule compact [of fl t majority applied])
      (use False t m a fl in \<open>auto simp: eq split: if_splits\<close>)
qed (use idle in blast)

lemma commit_compaction_step:
  assumes inv: "worker_inv view w" and i: "snap_last_index (w_meta w) \<le> i" "i \<le> commit_index (w_meta w)"
  shows "worker_step view w (snd (commit_compaction S w i t))"
proof -
  let ?m = "(w_meta w)\<lparr>snap_last_index := i, snap_last_term := t\<rparr>"
  show ?thesis
    by (cases rule: commit_cases [of "w\<lparr>w_meta := ?m\<rparr>"
            "write_batch_default\<lparr>wb_compact_to := Some (i, t), wb_meta := Some ?m\<rparr>"])
      (use inv i in \<open>simp_all add: commit_compaction_def worker_step_def worker_inv_def meta_step_def\<close>)
qed

lemma try_compact_step:
  assumes inv: "worker_inv view w"
  shows "worker_step view w (snd (try_compact S w))"
proof (cases rule: try_compact_cases [of w])
  case (compact i t majority applied)
  have "snap_last_index (w_meta w) \<le> i" using compact(7) inv by (simp add: snap_index worker_inv_def)
  with compact commit_compaction_step [OF inv] show ?thesis by simp
qed (use inv in \<open>simp add: worker_step_refl\<close>)

lemma send_snapshot_chunk_step:
  "worker_inv view w \<Longrightarrow> worker_step view w (snd (send_snapshot_chunk S w peer i t))"
  by (auto simp: send_snapshot_chunk_def Let_def case_prod_beta worker_step_def worker_inv_def
      split: option.splits)

lemma heartbeat_peers_step:
  "worker_inv view w \<Longrightarrow> worker_step view w (fst (snd (heartbeat_peers S l ps w pending)))"
proof (induction ps arbitrary: w pending)
  case (Cons peer peers)
  let ?c = "send_snapshot_chunk S w peer (st_snap_last_index S (w_storage w)) (st_snap_last_term S (w_storage w))"
  have send: "worker_step view w (snd ?c)" using Cons.prems by (rule send_snapshot_chunk_step)
  have "worker_step view w (fst (snd (heartbeat_peers S l peers (snd ?c) p)))" for p
    by (rule worker_step_trans [OF send Cons.IH [OF worker_stepD [OF send]]])
  with Cons show ?case
    by (auto simp: Let_def case_prod_beta worker_step_refl split: sum.split)
qed (simp add: worker_step_refl)

lemma send_heartbeats_step:
  assumes inv: "worker_inv view w"
  shows "worker_step view w (fst (snd (send_heartbeats S w pending)))"
proof (cases "w_leader w")
  case None
  then show ?thesis using inv by (simp add: send_heartbeats_def worker_step_refl)
next
  case (Some l)
  obtain r w1 p1 where h: "heartbeat_peers S l (all_members (w_effective_cfg w)) w pending = (r, w1, p1)"
    using prod_cases3 by blast
  with heartbeat_peers_step [OF inv, of l "all_members (w_effective_cfg w)" pending]
  have s1: "worker_step view w w1" by simp
  have s2: "worker_step view w (snd (try_compact S w1))"
    using worker_step_trans [OF s1 try_compact_step [OF worker_stepD [OF s1]]] .
  have "worker_step view w ((snd (clock_now (snd (try_compact S w1))))\<lparr>w_election_deadline := d\<rparr>)" for d
    using s2 by (auto simp: worker_step_def worker_inv_def)
  with s1 h Some show ?thesis
    by (cases r) (simp_all add: send_heartbeats_def case_prod_beta Let_def)
qed

lemma handle_read_index_step:
  assumes inv: "worker_inv view w"
  shows "worker_step view w (fst (handle_read_index S w pending timeout reply))"
proof -
  define w1 where "w1 = (case timeout of None \<Rightarrow> w | Some t \<Rightarrow> snd (clock_now w))"
  define r where "r = (case w_current_term_first_index w of
                      Some i \<Rightarrow> if i > commit_index (w_meta w) then i else commit_index (w_meta w)
                    | None \<Rightarrow> commit_index (w_meta w))"
  define d where "d = map_option (\<lambda>t. fst (clock_now w) + t) timeout"
  let ?w2 = "w1\<lparr>w_pending_read_index := w_pending_read_index w1 @
               [\<lparr>pri_required_index = r, pri_deadline = d, pri_reply = reply\<rparr>]\<rparr>"
  have s2: "worker_step view w ?w2"
    if "w_role w = Leader" "length (w_pending_read_index w) < max_pending_reads (w_cfg w)"
    using inv that by (auto simp: w1_def worker_step_def worker_inv_def split: option.splits)
  have ans: "worker_step view w (w\<lparr>w_read_replies := x\<rparr>)" for x
    using inv by (simp add: worker_step_def worker_inv_def)
  show ?thesis
  proof (cases "w_role w = Leader \<and> \<not> is_solo_cluster w \<and>
                length (w_pending_read_index w) < max_pending_reads (w_cfg w)")
    case True
    then have s: "worker_step view w ?w2" using s2 by simp
    have "fst (handle_read_index S w pending timeout reply) = fst (snd (send_heartbeats S ?w2 pending))"
      using True by (cases timeout)
        (simp_all add: handle_read_index_def w1_def d_def r_def Let_def case_prod_beta)
    with worker_step_trans [OF s send_heartbeats_step [OF worker_stepD [OF s]]] show ?thesis by simp
  next
    case False
    then show ?thesis using ans
      by (auto simp: handle_read_index_def Let_def not_less)
  qed
qed

subsection \<open>Elections and timers\<close>

lemma start_election_step:
  assumes inv: "worker_inv view w" and role: "w_role w \<noteq> Leader"
  shows "worker_step view w (fst (snd (start_election S w pending)))"
proof (cases "cfg_me (w_cfg w) \<in> set (all_members (w_effective_cfg w))")
  case False
  then show ?thesis using inv by (simp add: start_election_def worker_step_def worker_inv_def)
next
  case True
  let ?me = "cfg_me (w_cfg w)"
  let ?m = "(w_meta w)\<lparr>current_term := current_term (w_meta w) + 1, voted_for := Some ?me\<rparr>"
  let ?w1 = "(set_role Candidate w)\<lparr>w_meta := ?m\<rparr>"
  show ?thesis
  proof (cases rule: commit_cases [of ?w1 "meta_batch ?m"])
    case (ok s')
    let ?w3 = "?w1\<lparr>w_storage := s', w_votes_received := bs_insert ?me []\<rparr>"
    have s3: "worker_step view w ?w3"
      using inv ok role by (simp add: worker_step_def worker_inv_def meta_step_def)
    obtain r w4 where b: "become_leader_no_heartbeat S ?w3 = (r, w4)" by fastforce
    have s4: "worker_step view w w4"
      using worker_step_trans [OF s3 become_leader_step [OF worker_stepD [OF s3]]] b by simp
    have "worker_step view w (deadline_now w4)" "worker_step view w (reset_election_timer ?w3)"
      using s3 s4 by (auto simp: worker_step_def worker_inv_def)
    with s4 b ok True show ?thesis
      by (cases r) (simp_all add: start_election_def Let_def)
  next
    case (err e s')
    then show ?thesis using inv role True
      by (simp add: start_election_def Let_def worker_step_def worker_inv_def)
  qed
qed

lemma start_pre_election_step:
  assumes inv: "worker_inv view w" and role: "w_role w \<noteq> Leader"
  shows "worker_step view w (fst (snd (start_pre_election S w pending)))"
proof -
  have "worker_step view w (reset_election_timer w)"
    "worker_step view w (reset_election_timer ((set_role PreCandidate w)\<lparr>w_votes_received := v\<rparr>))" for v
    using assms by (simp_all add: worker_step_def worker_inv_def)
  with start_election_step [OF assms] show ?thesis
    by (simp add: start_pre_election_def Let_def)
qed

lemma on_timer_step:
  assumes inv: "worker_inv view w"
  shows "worker_step view w (fst (on_timer S w pending))"
proof (cases "w_role w")
  case PreCandidate
  let ?w1 = "w\<lparr>w_pre_candidate_misses := sat_add_u32 (w_pre_candidate_misses w) 1\<rparr>"
  have s: "worker_step view w ?w1" using inv by (simp add: worker_step_def worker_inv_def)
  have s': "worker_step view w (fst (snd (start_pre_election S ?w1 pending)))"
    using worker_step_trans [OF s start_pre_election_step [OF worker_stepD [OF s]]] PreCandidate by simp
  have "worker_step view w (reset_election_timer ((set_role Follower ?w1)\<lparr>w_votes_received := [],
            w_pre_candidate_misses := 0\<rparr>))"
    using inv PreCandidate by (simp add: worker_step_def worker_inv_def)
  with s' PreCandidate show ?thesis by (simp add: on_timer_def Let_def)
qed (use start_election_step [OF inv, of pending] start_pre_election_step [OF inv, of pending]
       send_heartbeats_step [OF inv, of pending] in \<open>simp_all add: on_timer_def\<close>)

lemma on_worker_timer_step:
  assumes inv: "worker_inv view w"
  shows "worker_step view w (fst (on_worker_timer S w pending))"
proof -
  let ?w2 = "expire_pending_reads (fst (clock_now w)) (snd (clock_now w))"
  have s: "worker_step view w ?w2"
    using inv by (auto simp: worker_step_def worker_inv_def intro: le_trans [OF length_filter_le])
  from s worker_step_trans [OF s on_timer_step [OF worker_stepD [OF s]]]
  show ?thesis by (simp add: on_worker_timer_def case_prod_beta Let_def)
qed

subsection \<open>The whole worker\<close>

lemma handle_rpc_outcome_step:
  assumes inv: "worker_inv view w"
  shows "worker_step view w (handle_rpc_outcome S w out)"
  using handle_append_response_step [OF inv] handle_vote_response_step [OF inv]
    handle_prevote_response_step [OF inv] handle_install_snapshot_response_step [OF inv]
    worker_step_refl [OF inv]
  by (simp add: handle_rpc_outcome_def split: rpc_outcome.split option.split)

lemma handle_msg_step:
  assumes inv: "worker_inv view w"
  shows "worker_step view w (fst (snd (handle_msg S w pending msg)))"
  using handle_append_entries_step [OF inv] handle_request_vote_step [OF inv]
    handle_request_prevote_step [OF inv] handle_install_snapshot_step [OF inv]
    handle_propose_step [OF inv] handle_change_membership_step [OF inv]
    handle_read_index_step [OF inv] worker_step_refl [OF inv]
  by (cases msg) (simp_all add: handle_msg_def case_prod_beta Let_def)

lemma loop_turn_step:
  assumes inv: "worker_inv view w" and turn: "loop_turn S std_now ev (w, pending) = Some (w', pending')"
  shows "worker_step view w w'"
proof -
  have pub: "worker_step view w (publish_status S std_now x)" if "worker_step view w x" for x
    using that by (auto simp: worker_step_def worker_inv_def)
  show ?thesis
    using turn pub [OF handle_msg_step [OF inv]] pub [OF on_worker_timer_step [OF inv]]
      pub [OF handle_rpc_outcome_step [OF inv]]
    by (auto simp: loop_turn_def case_prod_beta Let_def split: event.splits raft_msg.splits)
qed

lemma loop_run_step:
  assumes "worker_inv view w" and "loop_run S evs (w, pending) = Some (w', pending')"
  shows "worker_step view w w'"
  using assms
proof (induction evs arbitrary: w pending)
  case (Cons e evs)
  obtain now ev where e: "e = (now, ev)" by (cases e)
  with Cons.prems obtain w1 p1 where turn: "loop_turn S now ev (w, pending) = Some (w1, p1)"
    and rest: "loop_run S evs (w1, p1) = Some (w', pending')" by (auto split: option.splits)
  note step = loop_turn_step [OF Cons.prems(1) turn]
  show ?case by (rule worker_step_trans [OF step Cons.IH [OF worker_stepD [OF step] rest]])
qed (simp add: worker_step_refl)

lemma run_worker_init_inv:
  assumes "run_worker_init S st c clk rng bs std_now = Inr w"
    and "snap_last_index (ms_meta (view st)) \<le> commit_index (ms_meta (view st))"
  shows "worker_inv view w \<and> w_meta w = ms_meta (view st) \<and> w_storage w = st \<and> w_cfg w = c"
  using assms load_meta [of st]
  by (auto simp: run_worker_init_def Let_def worker_inv_def split: sum.splits)

end

end
