(* ===== verification/Raft_Election.thy ===== *)
theory Raft_Election
  imports Raft_Safety
begin

text \<open>
  Elections of a worker whose membership is static and whose pre-vote phase is off. The
  predicate \<open>B v t c\<close> stands for "voter \<open>v\<close> has durably voted for \<open>c\<close> in term
  \<open>t\<close>". A candidate only counts such votes and a leader holds a quorum of them; the
  membership view, the stored membership row and the log stay free of configuration changes.
\<close>

definition data_log :: "'n mem_storage \<Rightarrow> bool" where
  "data_log s \<longleftrightarrow> list_all (\<lambda>p. \<not> is_config_change (le_kind (snd p))) (ms_log s)"

definition static_row :: "'n list \<Rightarrow> 'n mem_storage \<Rightarrow> bool" where
  "static_row M s \<longleftrightarrow> (case ms_active_config s of None \<Rightarrow> True
     | Some r \<Rightarrow> acr_current r = M \<and> acr_joint_old r = None)"

definition static_store :: "'n list \<Rightarrow> 'n mem_storage \<Rightarrow> bool" where
  "static_store M s \<longleftrightarrow> data_log s \<and> static_row M s"

definition static_cfg :: "'n list \<Rightarrow> ('n, 's) worker \<Rightarrow> bool" where
  "static_cfg M w \<longleftrightarrow> cfg_members (w_cfg w) = M \<and> \<not> pre_vote (w_cfg w) \<and> w_effective_cfg w = steady M"

definition ballot_inv :: "('n \<Rightarrow> nat \<Rightarrow> 'n \<Rightarrow> bool) \<Rightarrow> ('n, 's) worker \<Rightarrow> bool" where
  "ballot_inv B w \<longleftrightarrow>
     w_role w \<noteq> PreCandidate \<and>
     (w_role w = Candidate \<longrightarrow>
        (\<forall>v\<in>set (w_votes_received w). B v (current_term (w_meta w)) (cfg_me (w_cfg w)))) \<and>
     (w_role w = Leader \<longrightarrow>
        quorum_holds (w_effective_cfg w) (\<lambda>m. B m (current_term (w_meta w)) (cfg_me (w_cfg w))))"

definition node_inv ::
  "('s \<Rightarrow> 'n mem_storage) \<Rightarrow> 'n list \<Rightarrow> ('n \<Rightarrow> nat \<Rightarrow> 'n \<Rightarrow> bool) \<Rightarrow> ('n, 's) worker \<Rightarrow> bool" where
  "node_inv view M B w \<longleftrightarrow> static_cfg M w \<and> static_store M (view (w_storage w)) \<and> ballot_inv B w"

text \<open>The vote a state holds is among the recorded ones.\<close>

definition vote_recorded :: "('n \<Rightarrow> nat \<Rightarrow> 'n \<Rightarrow> bool) \<Rightarrow> ('n, 's) worker \<Rightarrow> bool" where
  "vote_recorded B w \<longleftrightarrow>
     (\<forall>c. voted_for (w_meta w) = Some c \<longrightarrow> B (cfg_me (w_cfg w)) (current_term (w_meta w)) c)"

definition static_append :: "'n append_entries_req \<Rightarrow> bool" where
  "static_append req \<longleftrightarrow> list_all (\<lambda>e. \<not> is_config_change (le_kind e)) (ae_entries req)"

definition static_install :: "'n list \<Rightarrow> 'n install_snapshot_req \<Rightarrow> bool" where
  "static_install M req \<longleftrightarrow> is_members req = [] \<or> is_members req = M \<and> is_joint_old req = None"

text \<open>What a node with a static membership puts on the wire.\<close>

fun static_call :: "'n list \<Rightarrow> 'n \<Rightarrow> 'n rpc_call \<Rightarrow> bool" where
  "static_call M me (CallAppend p req) = static_append req"
| "static_call M me (CallVote p req) = (rv_candidate req = me)"
| "static_call M me (CallPreVote p t req) = True"
| "static_call M me (CallInstall p req i t e f) = static_install M req"

fun static_msg :: "'n list \<Rightarrow> 'n raft_msg \<Rightarrow> bool" where
  "static_msg M (MsgAppendEntries from req) = static_append req"
| "static_msg M (MsgInstallSnapshot from req) = static_install M req"
| "static_msg M (MsgChangeMembership ms) = False"
| "static_msg M _ = True"

lemma ballot_inv_mono:
  assumes "ballot_inv B w" and "\<And>v t c. B v t c \<Longrightarrow> B' v t c"
  shows "ballot_inv B' w"
proof -
  have "quorum_holds (w_effective_cfg w) (\<lambda>m. B m t c) \<Longrightarrow> quorum_holds (w_effective_cfg w) (\<lambda>m. B' m t c)" for t c
    by (erule quorum_holds_mono) (rule assms(2))
  with assms show ?thesis by (auto simp: ballot_inv_def)
qed

lemma node_inv_mono: "node_inv view M B w \<Longrightarrow> (\<And>v t c. B v t c \<Longrightarrow> B' v t c) \<Longrightarrow> node_inv view M B' w"
  unfolding node_inv_def using ballot_inv_mono by blast

lemma not_is_joint_steady [simp]: "\<not> is_joint (steady M)"
  by (simp add: is_joint_def)

section \<open>What a batch keeps\<close>

lemma set_bt_insert_all: "set (bt_insert_all ps m) \<subseteq> set ps \<union> set m"
proof (induction ps m rule: bt_insert_all.induct)
  case (2 k v ps m)
  have "set (bt_insert k v m) \<subseteq> insert (k, v) (set m)"
    by (auto simp: bt_insert_def bt_remove_def set_insort_key)
  with 2 show ?case by auto
qed simp

lemma data_log_commit:
  assumes "data_log s" and "\<forall>e\<in>set (wb_appends b). \<not> is_config_change (le_kind e)"
  shows "data_log (mem_commit_batch s b)"
proof -
  let ?kept = "(case wb_compact_to b of None \<Rightarrow> id | Some (i, _) \<Rightarrow> bt_retain (\<lambda>k. k > i))
         ((case wb_truncate_after b of None \<Rightarrow> id | Some a \<Rightarrow> bt_retain (\<lambda>k. k \<le> a)) (ms_log s))"
  have kept: "set ?kept \<subseteq> set (ms_log s)"
    by (auto simp: bt_retain_def split: option.splits)
  have "p \<in> (\<lambda>e. (le_index e, e)) ` set (wb_appends b) \<union> set (ms_log s)"
    if "p \<in> set (ms_log (mem_commit_batch s b))" for p
    using that kept set_bt_insert_all [of "map (\<lambda>e. (le_index e, e)) (wb_appends b)" ?kept]
    by (simp only: mem_commit_batch_sel) auto
  with assms show ?thesis unfolding data_log_def list_all_iff by fastforce
qed

lemma static_store_commit:
  assumes "static_store M s" and "\<forall>e\<in>set (wb_appends b). \<not> is_config_change (le_kind e)"
    and "\<And>r. wb_active_config b = Some r \<Longrightarrow> acr_current r = M \<and> acr_joint_old r = None"
  shows "static_store M (mem_commit_batch s b)"
  using assms data_log_commit [of s b]
  by (auto simp: static_store_def static_row_def split: option.splits)

lemma latest_config_Nil [simp]: "latest_config (entry_configs []) = None"
  by (simp add: latest_config_def entry_configs_def)

lemma set_reindexed: "set (map le_kind (reindexed p es)) = le_kind ` set es"
proof -
  have "map le_kind (reindexed p es) = map (le_kind \<circ> snd) (enumerate 0 es)"
    by (simp add: reindexed_def case_prod_beta)
  also have "\<dots> = map le_kind es" by (simp flip: map_map)
  finally show ?thesis by simp
qed

lemma reindexed_static:
  assumes "static_append req" and "e \<in> set (reindexed p (ae_entries req))"
  shows "\<not> is_config_change (le_kind e)"
proof -
  have "le_kind e \<in> le_kind ` set (ae_entries req)" using assms(2) set_reindexed by fastforce
  with assms(1) show ?thesis by (auto simp: static_append_def list_all_iff)
qed

lemma mem_entries_data:
  assumes "data_log s" and "e \<in> set (mem_entries s a b)"
  shows "\<not> is_config_change (le_kind e)"
  using assms by (auto simp: mem_entries_def data_log_def list_all_iff bt_range_def bt_retain_def
      split: if_splits)

section \<open>Preservation\<close>

lemma node_inv_volatile:
  assumes "node_inv view M B w" and "w_storage w' = w_storage w" "w_cfg w' = w_cfg w"
    "current_term (w_meta w') = current_term (w_meta w)" "w_role w' = w_role w"
    "w_effective_cfg w' = w_effective_cfg w" "w_votes_received w' = w_votes_received w"
  shows "node_inv view M B w'"
  using assms by (auto simp: node_inv_def static_cfg_def ballot_inv_def)

lemma node_inv_follower:
  assumes "static_cfg M w" "static_store M (view (w_storage w))" "w_role w = Follower"
  shows "node_inv view M B w"
  using assms by (simp add: node_inv_def ballot_inv_def)

context raft_storage
begin

lemma auto_finalize_steady [simp]:
  "\<not> is_joint (w_effective_cfg w) \<Longrightarrow> auto_finalize_joint_config S w = (Inr (), w)"
  by (simp add: auto_finalize_joint_config_def)

lemma try_advance_keeps:
  assumes steady: "\<not> is_joint (w_effective_cfg w)"
  defines "w' \<equiv> snd (try_advance_commit_index S w)"
  shows "w_role w' = w_role w \<and> w_cfg w' = w_cfg w \<and> w_effective_cfg w' = w_effective_cfg w \<and>
    w_votes_received w' = w_votes_received w \<and> current_term (w_meta w') = current_term (w_meta w) \<and>
    voted_for (w_meta w') = voted_for (w_meta w) \<and>
    ms_log (view (w_storage w')) = ms_log (view (w_storage w)) \<and>
    ms_active_config (view (w_storage w')) = ms_active_config (view (w_storage w))"
proof (cases "match_index_majority_floor S w")
  case (Some f)
  let ?m = "(w_meta w)\<lparr>commit_index := f\<rparr>"
  show ?thesis
    by (cases rule: commit_cases [of "w\<lparr>w_meta := ?m\<rparr>" "meta_batch ?m"])
      (use Some steady in \<open>auto simp: w'_def try_advance_commit_index_def split: sum.splits\<close>)
qed (simp add: w'_def try_advance_commit_index_def)

lemma try_advance_node:
  assumes "node_inv view M B w"
  shows "node_inv view M B (snd (try_advance_commit_index S w))"
proof -
  have "\<not> is_joint (w_effective_cfg w)" using assms by (simp add: node_inv_def static_cfg_def)
  from try_advance_keeps [OF this] assms show ?thesis
    by (auto simp: node_inv_def static_cfg_def static_store_def static_row_def data_log_def ballot_inv_def)
qed

lemma become_leader_node:
  assumes inv: "node_inv view M B w"
    and q: "quorum_holds (w_effective_cfg w) (\<lambda>m. B m (current_term (w_meta w)) (cfg_me (w_cfg w)))"
  defines "w' \<equiv> snd (become_leader_no_heartbeat S w)"
  shows "node_inv view M B w' \<and> current_term (w_meta w') = current_term (w_meta w) \<and>
         voted_for (w_meta w') = voted_for (w_meta w) \<and> w_cfg w' = w_cfg w"
proof -
  let ?i = "st_last_index S (w_storage w) + 1"
  let ?b = "write_batch_default\<lparr>wb_appends := [entry_data ?i (current_term (w_meta w)) []]\<rparr>"
  show ?thesis
  proof (cases rule: commit_cases [of w ?b])
    case (ok s')
    let ?w2 = "(set_role Leader (w\<lparr>w_storage := s'\<rparr>))\<lparr>w_votes_received := [],
                 w_leader := Some (leader_state_fresh (all_members (w_effective_cfg w))
                                    (cfg_me (w_cfg w)) (st_last_index S (w_storage w))),
                 w_seen_leader := Some (cfg_me (w_cfg w)),
                 w_current_term_first_index := Some ?i\<rparr>"
    have "static_store M (view s')" using inv unfolding ok(2)
      by (intro static_store_commit) (simp_all add: node_inv_def)
    then have n: "node_inv view M B ?w2"
      using inv q by (simp add: node_inv_def static_cfg_def ballot_inv_def)
    have "\<not> is_joint (w_effective_cfg ?w2)" using inv by (simp add: node_inv_def static_cfg_def)
    from try_advance_keeps [OF this] try_advance_node [OF n] ok
    show ?thesis by (simp add: w'_def become_leader_no_heartbeat_def Let_def)
  next
    case (err e s')
    then show ?thesis using inv
      by (auto simp: w'_def become_leader_no_heartbeat_def Let_def node_inv_def static_cfg_def ballot_inv_def)
  qed
qed

lemma persist_term_bump_node:
  assumes "node_inv view M B w" and "persist_term_bump S w t = (r, w')"
  shows "static_cfg M w' \<and> static_store M (view (w_storage w')) \<and>
         (\<forall>e. r = Inl e \<longrightarrow> node_inv view M B w')"
proof -
  let ?b = "meta_batch ((w_meta w)\<lparr>current_term := t, voted_for := None\<rparr>)"
  show ?thesis
  proof (cases rule: commit_cases [of w ?b])
    case (ok s')
    have "static_store M (view s')" using assms(1) unfolding ok(2)
      by (intro static_store_commit) (simp_all add: node_inv_def)
    with ok assms show ?thesis
      by (auto simp: persist_term_bump_def node_inv_def static_cfg_def)
  qed (use assms in \<open>auto simp: persist_term_bump_def node_inv_def static_cfg_def ballot_inv_def\<close>)
qed

lemma term_bump_step_down_node:
  assumes "node_inv view M B w"
  shows "node_inv view M B (snd (term_bump_step_down S w t))"
proof (cases "persist_term_bump S w t")
  case (Pair r w1)
  with persist_term_bump_node [OF assms Pair] show ?thesis
    by (cases r) (auto simp: term_bump_step_down_def static_cfg_def intro!: node_inv_follower)
qed

subsection \<open>Inbound RPCs\<close>

lemma post_active_view_static:
  assumes "static_append req" and "static_cfg M w" and "static_store M (view (w_storage w))"
    and "post_active_view S w req (drop n (reindexed p (ae_entries req))) ta = Inr v"
  shows "v = None \<or> v = Some (static_view (w_cfg w))"
proof -
  have noappend: "\<not> list_ex (\<lambda>e. is_config_change (le_kind e)) (drop n (reindexed p (ae_entries req)))"
    using reindexed_static [OF assms(1)] by (auto simp: list_ex_iff dest: in_set_dropD)
  have data: "data_log (view (w_storage w))" using assms(3) by (simp add: static_store_def)
  have "latest_config (entry_configs es) = None"
    if "st_entries S (w_storage w) a b = Inr es" for a b es
    using mem_entries_data [OF data] entries [OF that]
    by (auto simp: latest_config_None entry_configs_def)
  with assms(4) noappend show ?thesis
    by (auto simp: post_active_view_def Let_def split: if_splits sum.splits)
qed

lemma static_view_record:
  "static_cfg M w \<Longrightarrow> view_record (static_view (w_cfg w)) =
     \<lparr>acr_log_index = Some 0, acr_current = M, acr_joint_old = None\<rparr>"
  by (simp add: view_record_def static_view_def static_cfg_def)

lemma append_consistent_node:
  assumes cfg: "static_cfg M w" and store: "static_store M (view (w_storage w))"
    and role: "w_role w = Follower" and req: "static_append req"
  shows "node_inv view M B (snd (append_consistent S w m req))"
proof -
  define w1 where "w1 = (case append_commit_target w req of None \<Rightarrow> w
                    | Some c \<Rightarrow> w\<lparr>w_meta := (w_meta w)\<lparr>commit_index := c\<rparr>\<rparr>)"
  have w1: "static_cfg M w1" "w_storage w1 = w_storage w" "w_role w1 = Follower"
    "w_cfg w1 = w_cfg w"
    using cfg role by (simp_all add: w1_def static_cfg_def split: option.splits)
  show ?thesis
  proof (cases "scan_conflict S (w_storage w) (ae_prev_log_index req + 1) (ae_entries req) 0")
    case (Inl e)
    then show ?thesis using cfg store role
      by (simp add: append_consistent_def static_cfg_def node_inv_follower)
  next
    case (Inr ca)
    obtain conflict present where ca: "ca = (conflict, present)" by (cases ca)
    let ?ta = "map_option (\<lambda>i. i - 1) conflict"
    let ?ap = "drop present (reindexed (ae_prev_log_index req) (ae_entries req))"
    show ?thesis
    proof (cases "post_active_view S w1 req ?ap ?ta")
      case err: (Inl e)
      then show ?thesis using w1 store Inr ca
        by (simp add: append_consistent_def w1_def [symmetric] static_cfg_def node_inv_follower)
    next
      case v: (Inr v)
      have vs: "v = None \<or> v = Some (static_view (w_cfg w1))"
        using post_active_view_static [OF req w1(1) _ v] store w1 by simp
      let ?b = "\<lparr>wb_truncate_after = ?ta, wb_compact_to = None, wb_appends = ?ap, wb_state = None,
                 wb_meta = Some (w_meta w1), wb_active_config = map_option view_record v\<rparr>"
      have "static_store M (mem_commit_batch (view (w_storage w)) ?b)"
        using store vs reindexed_static [OF req] static_view_record [OF w1(1)]
        by (intro static_store_commit) (auto dest: in_set_dropD)
      then show ?thesis
        by (cases rule: commit_cases [of w1 ?b])
          (use vs w1 store Inr ca v in \<open>auto simp: append_consistent_def w1_def [symmetric] Let_def
             static_cfg_def static_view_def intro!: node_inv_follower\<close>)
    qed
  qed
qed

lemma handle_append_entries_node:
  assumes inv: "node_inv view M B w" and req: "static_append req"
  shows "node_inv view M B (snd (handle_append_entries S w req))"
proof (cases "ae_term req < current_term (w_meta w)")
  case True
  then show ?thesis using inv by (simp add: handle_append_entries_def)
next
  case False
  define w1 where "w1 = follow_leader (ae_leader req) (append_adopt_term (ae_term req) w)"
  have w1: "static_cfg M w1" "static_store M (view (w_storage w1))" "w_role w1 = Follower"
    using inv by (simp_all add: w1_def node_inv_def static_cfg_def)
  have b: "static_store M (mem_commit_batch (view (w_storage w1)) (meta_batch (w_meta w1)))"
    using w1 by (intro static_store_commit) simp_all
  have meta: "snd (case commit S w1 (meta_batch (w_meta w1)) of
           (Inl e, w2) \<Rightarrow> (Inl e, w2\<lparr>w_meta := m\<rparr>) | (Inr _, w2) \<Rightarrow> (Inr (f w2), w2)) = w'
      \<Longrightarrow> node_inv view M B w'" for f m w'
    by (cases rule: commit_cases [of w1 "meta_batch (w_meta w1)"])
      (use w1 b in \<open>auto simp: static_cfg_def intro!: node_inv_follower\<close>)
  have err: "node_inv view M B (w1\<lparr>w_meta := m\<rparr>)" for m
    using w1 by (simp add: static_cfg_def node_inv_follower)
  show ?thesis
    using append_consistent_node [OF w1 req] False meta err
    by (auto simp: handle_append_entries_def w1_def [symmetric] Let_def split: sum.split)
qed

text \<open>A granted vote is in the stored scalars when the handler returns.\<close>

lemma handle_request_vote_granted:
  assumes "handle_request_vote S w req = (Inr resp, w')" and "vr_vote_granted resp"
  shows "vr_term resp = rv_term req \<and> current_term (w_meta w') = rv_term req \<and>
         voted_for (w_meta w') = Some (rv_candidate req)"
proof -
  have "\<not> rv_term req < current_term (w_meta w)"
    using assms by (auto simp: handle_request_vote_def)
  then have tm: "current_term (w_meta (vote_term_state req w)) = rv_term req"
    by (simp add: vote_term_state_def)
  from assms tm show ?thesis
    by (auto simp: handle_request_vote_def Let_def vote_cast_def
        split: prod.splits sum.splits if_splits dest!: commit_meta)
qed

lemma vote_cast_False: "vote_cast req False w = w"
  by (simp add: vote_cast_def)

lemma handle_request_vote_node:
  assumes inv: "node_inv view M B w"
  shows "node_inv view M B (snd (handle_request_vote S w req))"
proof -
  let ?w1 = "vote_term_state req w"
  let ?w2 = "vote_cast req (vote_grant S ?w1 req) ?w1"
  have w1: "node_inv view M B ?w1"
    using inv by (auto simp: vote_term_state_def node_inv_def static_cfg_def ballot_inv_def)
  have w2: "node_inv view M B ?w2"
    by (rule node_inv_volatile [OF w1]) (simp_all add: vote_cast_def)
  have tm: "w_role ?w2 = Follower \<or> current_term (w_meta ?w2) = current_term (w_meta w)"
    by (simp add: vote_cast_def vote_term_state_def)
  have store: "static_store M (mem_commit_batch (view (w_storage ?w2)) (meta_batch (w_meta ?w2)))"
    using w2 by (intro static_store_commit) (simp_all add: node_inv_def)
  have err: "node_inv view M B (?w2\<lparr>w_storage := s', w_meta := w_meta w\<rparr>)"
    if "view s' = view (w_storage ?w2)" for s'
    using w2 that tm by (auto simp: node_inv_def static_cfg_def ballot_inv_def)
  have new: "node_inv view M B (?w2\<lparr>w_storage := s'\<rparr>)"
    if "view s' = mem_commit_batch (view (w_storage ?w2)) (meta_batch (w_meta ?w2))" for s'
    using w2 that store by (auto simp: node_inv_def static_cfg_def ballot_inv_def)
  show ?thesis
    by (cases rule: commit_cases [of ?w2 "meta_batch (w_meta ?w2)"])
      (use w1 w2 new err inv in \<open>simp_all add: handle_request_vote_def Let_def vote_cast_False\<close>)
qed

lemma handle_request_prevote_node:
  "node_inv view M B w \<Longrightarrow> node_inv view M B (snd (handle_request_prevote S w req))"
  by (erule node_inv_volatile) (auto simp: handle_request_prevote_def Let_def case_prod_beta)

lemma commit_snapshot_node:
  assumes cfg: "static_cfg M w" and store: "static_store M (view (w_storage w))"
    and role: "w_role w = Follower" and req: "static_install M req"
  shows "node_inv view M B (snd (commit_snapshot S w m req bs))"
proof (cases "supplied_config_index req")
  case None
  then show ?thesis using assms by (simp add: commit_snapshot_def node_inv_follower)
next
  case (Some supplied)
  let ?m1 = "install_meta (w_meta w) req"
  let ?b = "write_batch_default\<lparr>
              wb_compact_to := Some (is_last_included_index req, is_last_included_term req),
              wb_state := Some bs, wb_meta := Some ?m1,
              wb_active_config := Some (snapshot_record m (w\<lparr>w_meta := ?m1\<rparr>) req supplied)\<rparr>"
  have "static_store M (mem_commit_batch (view (w_storage w)) ?b)"
    using store cfg req
    by (intro static_store_commit) (auto simp: snapshot_record_def static_cfg_def static_install_def)
  then show ?thesis
    by (cases rule: commit_cases [of "w\<lparr>w_meta := ?m1\<rparr>" ?b])
      (use assms Some in \<open>auto simp: commit_snapshot_def Let_def static_cfg_def static_install_def
         steady_def intro!: node_inv_follower\<close>)
qed

lemma install_at_term_node:
  assumes cfg: "static_cfg M w" and store: "static_store M (view (w_storage w))"
    and req: "static_install M req"
  shows "node_inv view M B (snd (install_at_term S w from req))"
proof -
  let ?w1 = "follow_leader (is_leader req) w"
  have vol: "node_inv view M B (?w1\<lparr>w_incoming_snapshot := i\<rparr>)" for i
    using cfg store by (simp add: static_cfg_def node_inv_follower)
  have "node_inv view M B (snd (commit_snapshot S (?w1\<lparr>w_incoming_snapshot := None\<rparr>) m req b))" for m b
    using cfg store req by (intro commit_snapshot_node) (simp_all add: static_cfg_def)
  with vol show ?thesis by (simp add: install_at_term_def receive_chunk_def Let_def)
qed

lemma handle_install_snapshot_node:
  assumes inv: "node_inv view M B w" and req: "static_install M req"
  shows "node_inv view M B (snd (handle_install_snapshot S w from req))"
proof (cases "persist_term_bump S w (is_term req)")
  case (Pair r w1)
  note p = persist_term_bump_node [OF inv Pair]
  have w: "static_cfg M w" "static_store M (view (w_storage w))"
    using inv by (simp_all add: node_inv_def)
  have "node_inv view M B (snd (install_at_term S
          (w1\<lparr>w_seen_leader := None, w_incoming_snapshot := None\<rparr>) from req))"
    using p req by (intro install_at_term_node) (simp_all add: static_cfg_def)
  with inv p install_at_term_node [OF w req] Pair show ?thesis
    by (cases r) (auto simp: handle_install_snapshot_def)
qed

subsection \<open>RPC responses and client requests\<close>

lemma handle_append_response_node:
  assumes inv: "node_inv view M B w"
  shows "node_inv view M B (snd (handle_append_response S w from resp))"
proof -
  have vol: "node_inv view M B (w\<lparr>w_leader := l\<rparr>)" for l
    by (rule node_inv_volatile [OF inv]) simp_all
  have res: "node_inv view M B (try_resolve_pending_reads S w')" if "node_inv view M B w'" for w'
    by (rule node_inv_volatile [OF that]) simp_all
  have adv: "node_inv view M B (snd (case try_advance_commit_index S (w\<lparr>w_leader := l\<rparr>) of
        (Inl e, w2) \<Rightarrow> (Inl e, w2) | (Inr _, w2) \<Rightarrow> (Inr (), try_resolve_pending_reads S w2)))" for l
    using try_advance_node [OF vol, of l] res by (auto split: prod.split sum.split)
  show ?thesis
    using inv vol adv term_bump_step_down_node [OF inv]
    by (auto simp: handle_append_response_def Let_def split: option.split)
qed

lemma handle_install_snapshot_response_node:
  assumes inv: "node_inv view M B w"
  shows "node_inv view M B (snd (handle_install_snapshot_response S w from resp i t e f))"
proof -
  have "node_inv view M B (w\<lparr>w_leader := l\<rparr>)" for l
    by (rule node_inv_volatile [OF inv]) simp_all
  with inv term_bump_step_down_node [OF inv] show ?thesis
    by (auto simp: handle_install_snapshot_response_def Let_def split: option.split)
qed

lemma handle_vote_response_node:
  assumes inv: "node_inv view M B w"
    and vote: "vr_vote_granted resp \<Longrightarrow> B from (vr_term resp) (cfg_me (w_cfg w))"
  shows "node_inv view M B (snd (handle_vote_response S w from resp))"
proof (cases "w_role w = Candidate \<and> vr_term resp = current_term (w_meta w) \<and> vr_vote_granted resp")
  case False
  then show ?thesis using inv term_bump_step_down_node [OF inv]
    by (auto simp: handle_vote_response_def)
next
  case True
  let ?w1 = "w\<lparr>w_votes_received := bs_insert from (w_votes_received w)\<rparr>"
  have w1: "node_inv view M B ?w1"
    using inv True vote by (auto simp: node_inv_def static_cfg_def ballot_inv_def)
  show ?thesis
  proof (cases "quorum_holds (w_effective_cfg ?w1) (\<lambda>m. m \<in> set (w_votes_received ?w1))")
    case q: True
    have "quorum_holds (w_effective_cfg ?w1) (\<lambda>m. B m (current_term (w_meta ?w1)) (cfg_me (w_cfg ?w1)))"
      by (rule quorum_holds_mono [OF q]) (use w1 True in \<open>auto simp: node_inv_def ballot_inv_def\<close>)
    from become_leader_node [OF w1 this]
    have "node_inv view M B (snd (become_leader_no_heartbeat S ?w1))" by simp
    moreover have "node_inv view M B (deadline_now w2)" if "node_inv view M B w2" for w2
      by (rule node_inv_volatile [OF that]) simp_all
    ultimately show ?thesis using True q inv
      by (auto simp: handle_vote_response_def Let_def split: prod.split sum.split)
  next
    case False
    then show ?thesis using inv w1 True by (simp add: handle_vote_response_def)
  qed
qed

lemma handle_prevote_response_node:
  assumes inv: "node_inv view M B w"
  shows "node_inv view M B (snd (handle_prevote_response S w from nt resp))"
  using inv term_bump_step_down_node [OF inv]
  by (auto simp: handle_prevote_response_def node_inv_def ballot_inv_def)

lemma handle_propose_node:
  assumes inv: "node_inv view M B w"
  shows "node_inv view M B (snd (handle_propose S w payload))"
proof -
  let ?b = "write_batch_default\<lparr>wb_appends :=
              [entry_data (st_last_index S (w_storage w) + 1) (current_term (w_meta w)) payload]\<rparr>"
  show ?thesis
  proof (cases rule: commit_cases [of w ?b])
    case (ok s')
    have "static_store M (view s')" using inv unfolding ok(2)
      by (intro static_store_commit) (simp_all add: node_inv_def)
    then have "node_inv view M B (w\<lparr>w_storage := s'\<rparr>)"
      using inv by (auto simp: node_inv_def static_cfg_def ballot_inv_def)
    from try_advance_node [OF this] ok inv show ?thesis by (simp add: handle_propose_def Let_def)
  qed (use inv in \<open>auto simp: handle_propose_def Let_def node_inv_def static_cfg_def ballot_inv_def\<close>)
qed

subsection \<open>Heartbeats\<close>

lemma try_compact_node:
  assumes inv: "node_inv view M B w"
  shows "node_inv view M B (snd (try_compact S w))"
proof (cases rule: try_compact_cases [of w])
  case (compact i t majority applied)
  let ?m = "(w_meta w)\<lparr>snap_last_index := i, snap_last_term := t\<rparr>"
  let ?b = "write_batch_default\<lparr>wb_compact_to := Some (i, t), wb_meta := Some ?m\<rparr>"
  have "static_store M (mem_commit_batch (view (w_storage w)) ?b)"
    using inv by (intro static_store_commit) (simp_all add: node_inv_def)
  then have "node_inv view M B (snd (commit_compaction S w i t))"
    by (cases rule: commit_cases [of "w\<lparr>w_meta := ?m\<rparr>" ?b])
      (use inv in \<open>auto simp: commit_compaction_def node_inv_def static_cfg_def ballot_inv_def\<close>)
  with compact show ?thesis by simp
qed (use inv in simp)

lemma heartbeat_peers_node:
  "node_inv view M B w \<Longrightarrow> node_inv view M B (fst (snd (heartbeat_peers S l ps w pending)))"
proof (induction ps arbitrary: w pending)
  case (Cons peer peers)
  let ?c = "send_snapshot_chunk S w peer (st_snap_last_index S (w_storage w)) (st_snap_last_term S (w_storage w))"
  have "node_inv view M B (snd ?c)"
    by (rule node_inv_volatile [OF Cons.prems])
      (auto simp: send_snapshot_chunk_def Let_def case_prod_beta split: option.splits)
  from Cons.IH [OF this] Cons show ?case
    by (auto simp: Let_def case_prod_beta split: sum.split)
qed simp

lemma send_heartbeats_node:
  assumes inv: "node_inv view M B w"
  shows "node_inv view M B (fst (snd (send_heartbeats S w pending)))"
proof -
  have fin: "node_inv view M B ((snd (clock_now w'))\<lparr>w_election_deadline := d\<rparr>)"
    if "node_inv view M B w'" for w' d
    by (rule node_inv_volatile [OF that]) simp_all
  show ?thesis
    using inv heartbeat_peers_node [OF inv] fin [OF try_compact_node]
    by (auto simp: send_heartbeats_def Let_def case_prod_beta split: option.split sum.split)
qed

lemma handle_read_index_node:
  assumes inv: "node_inv view M B w"
  shows "node_inv view M B (fst (handle_read_index S w pending timeout reply))"
proof -
  have v: "node_inv view M B (w\<lparr>w_read_replies := r\<rparr>)" "node_inv view M B (w\<lparr>w_pending_read_index := p\<rparr>)"
    "node_inv view M B ((snd (clock_now w))\<lparr>w_pending_read_index := p\<rparr>)" for r p
    by (rule node_inv_volatile [OF inv], simp_all)+
  from v(1) send_heartbeats_node [OF v(2)] send_heartbeats_node [OF v(3)] show ?thesis
    by (cases timeout) (simp_all add: handle_read_index_def Let_def case_prod_beta)
qed

subsection \<open>Elections and timers\<close>

lemma start_election_node:
  assumes inv: "node_inv view M B w" and role: "w_role w \<noteq> Leader"
    and rec: "vote_recorded B (fst (snd (start_election S w pending)))"
  shows "node_inv view M B (fst (snd (start_election S w pending)))"
proof (cases "cfg_me (w_cfg w) \<in> set (all_members (w_effective_cfg w))")
  case False
  then have "fst (snd (start_election S w pending)) = reset_election_timer w"
    by (simp add: start_election_def)
  then show ?thesis using node_inv_volatile [OF inv, of "reset_election_timer w"] by simp
next
  case True
  let ?me = "cfg_me (w_cfg w)"
  let ?m = "(w_meta w)\<lparr>current_term := current_term (w_meta w) + 1, voted_for := Some ?me\<rparr>"
  let ?w1 = "(set_role Candidate w)\<lparr>w_meta := ?m\<rparr>"
  show ?thesis
  proof (cases rule: commit_cases [of ?w1 "meta_batch ?m"])
    case (ok s')
    let ?w3 = "?w1\<lparr>w_storage := s', w_votes_received := bs_insert ?me []\<rparr>"
    let ?q = "quorum_holds (w_effective_cfg ?w3) (\<lambda>m. m \<in> set (w_votes_received ?w3))"
    have store: "static_store M (view s')" using inv unfolding ok(2)
      by (intro static_store_commit) (simp_all add: node_inv_def)
    have w3: "node_inv view M B ?w3" if "B ?me (current_term (w_meta w) + 1) ?me"
      using inv store that
      by (auto simp: node_inv_def static_cfg_def ballot_inv_def bs_insert_def)
    show ?thesis
    proof (cases ?q)
      case False
      then have eq: "fst (snd (start_election S w pending)) = reset_election_timer ?w3"
        using True ok by (simp add: start_election_def Let_def)
      with rec have "B ?me (current_term (w_meta w) + 1) ?me" by (simp add: vote_recorded_def)
      from node_inv_volatile [OF w3 [OF this], of "reset_election_timer ?w3"] eq show ?thesis by simp
    next
      case q: True
      let ?l = "snd (become_leader_no_heartbeat S ?w3)"
      have eq: "fst (snd (start_election S w pending)) = ?l \<or>
                fst (snd (start_election S w pending)) = deadline_now ?l"
        using True ok q by (auto simp: start_election_def Let_def split: prod.split sum.split)
      have B: "B ?me (current_term (w_meta w) + 1) ?me"
      proof -
        let ?T = "\<lambda>v t c. True"
        have "quorum_holds (w_effective_cfg ?w3) (\<lambda>m. ?T m (current_term (w_meta ?w3)) (cfg_me (w_cfg ?w3)))"
          by (rule quorum_holds_mono [OF q]) simp
        moreover have "node_inv view M ?T ?w3"
          using inv store by (simp add: node_inv_def static_cfg_def ballot_inv_def)
        ultimately have "current_term (w_meta ?l) = current_term (w_meta w) + 1 \<and>
            voted_for (w_meta ?l) = Some ?me \<and> w_cfg ?l = w_cfg w"
          using become_leader_node [of M ?T ?w3] by simp
        with eq rec show ?thesis by (auto simp: vote_recorded_def)
      qed
      note w3 = w3 [OF B]
      have "quorum_holds (w_effective_cfg ?w3) (\<lambda>m. B m (current_term (w_meta ?w3)) (cfg_me (w_cfg ?w3)))"
        by (rule quorum_holds_mono [OF q]) (use B in \<open>simp add: bs_insert_def\<close>)
      from become_leader_node [OF w3 this] have l: "node_inv view M B ?l" by simp
      from node_inv_volatile [OF l, of "deadline_now ?l"] l eq show ?thesis by auto
    qed
  next
    case (err e s')
    then show ?thesis using inv role True
      by (auto simp: start_election_def Let_def node_inv_def static_cfg_def ballot_inv_def)
  qed
qed

lemma on_timer_node:
  assumes inv: "node_inv view M B w" and rec: "vote_recorded B (fst (on_timer S w pending))"
  shows "node_inv view M B (fst (on_timer S w pending))"
proof -
  have "\<not> pre_vote (w_cfg w)" "w_role w \<noteq> PreCandidate"
    using inv by (simp_all add: node_inv_def static_cfg_def ballot_inv_def)
  with inv rec start_election_node [OF inv, of pending] send_heartbeats_node [OF inv]
  show ?thesis by (cases "w_role w") (simp_all add: on_timer_def)
qed

lemma on_worker_timer_node:
  assumes inv: "node_inv view M B w" and rec: "vote_recorded B (fst (on_worker_timer S w pending))"
  shows "node_inv view M B (fst (on_worker_timer S w pending))"
proof -
  let ?w2 = "expire_pending_reads (fst (clock_now w)) (snd (clock_now w))"
  have w2: "node_inv view M B ?w2" by (rule node_inv_volatile [OF inv]) simp_all
  with on_timer_node [OF w2, of pending] rec show ?thesis
    by (simp add: on_worker_timer_def case_prod_beta Let_def split: if_splits)
qed

subsection \<open>The whole worker\<close>

lemma handle_msg_node:
  assumes inv: "node_inv view M B w" and msg: "static_msg M msg"
  shows "node_inv view M B (fst (snd (handle_msg S w pending msg)))"
  using inv msg handle_append_entries_node [OF inv] handle_request_vote_node [OF inv]
    handle_request_prevote_node [OF inv] handle_install_snapshot_node [OF inv]
    handle_propose_node [OF inv] handle_read_index_node [OF inv]
  by (cases msg) (simp_all add: handle_msg_def case_prod_beta Let_def)

lemma handle_rpc_outcome_node:
  assumes inv: "node_inv view M B w"
    and vote: "\<And>from resp. out = OutVote from (Some resp) \<Longrightarrow> vr_vote_granted resp \<Longrightarrow>
                 B from (vr_term resp) (cfg_me (w_cfg w))"
  shows "node_inv view M B (handle_rpc_outcome S w out)"
  using inv handle_append_response_node [OF inv] handle_prevote_response_node [OF inv]
    handle_install_snapshot_response_node [OF inv] handle_vote_response_node [OF inv] vote
  by (auto simp: handle_rpc_outcome_def split: rpc_outcome.split option.split)

lemma run_worker_init_node:
  assumes "run_worker_init S st c clk rng bs now = Inr w" and "static_store M (view st)"
    and "cfg_members c = M" and "\<not> pre_vote c"
  shows "node_inv view M B w"
proof -
  have none: "latest_config (entry_configs es) = None" if "st_entries S st a b = Inr es" for a b es
    using mem_entries_data [of "view st"] assms(2) entries [OF that]
    by (auto simp: latest_config_None entry_configs_def static_store_def)
  have row: "acr_current r = M \<and> acr_joint_old r = None" if "st_active_config S st = Inr (Some r)" for r
    using active_config [OF that] assms(2)
    by (auto simp: static_store_def static_row_def split: option.splits)
  have "cr_active rec = steady M" if "recover_active_config S st c True = Inr rec" for rec
    using that none row assms(3)
    by (auto simp: recover_active_config_def Let_def static_view_def steady_def
        split: sum.splits option.splits if_splits)
  with assms show ?thesis
    by (auto simp: run_worker_init_def Let_def static_cfg_def intro!: node_inv_follower
        split: sum.splits)
qed

subsection \<open>Calls put on the wire\<close>

lemma append_request_static:
  assumes "data_log (view (w_storage w))" and "append_request S w i = Inr req"
  shows "static_append req"
  using assms mem_entries_data [of "view (w_storage w)"] entries [of "w_storage w"]
  by (fastforce simp: append_request_def static_append_def list_all_iff Let_def
      split: sum.splits if_splits)

lemma send_snapshot_chunk_static:
  assumes "static_cfg M w"
  shows "static_call M me (fst (send_snapshot_chunk S w peer i t))"
  using assms by (auto simp: send_snapshot_chunk_def Let_def case_prod_beta static_install_def
      static_cfg_def split: option.splits)

lemma heartbeat_peers_calls:
  assumes "node_inv view M B w"
  shows "\<forall>c\<in>set (snd (snd (heartbeat_peers S l ps w pending))).
           c \<in> set pending \<or> static_call M me c"
  using assms
proof (induction ps arbitrary: w pending)
  case (Cons peer peers)
  let ?c = "send_snapshot_chunk S w peer (st_snap_last_index S (w_storage w)) (st_snap_last_term S (w_storage w))"
  have n: "node_inv view M B (snd ?c)"
    by (rule node_inv_volatile [OF Cons.prems])
      (auto simp: send_snapshot_chunk_def Let_def case_prod_beta split: option.splits)
  have c: "static_call M me (fst ?c)"
    using Cons.prems by (intro send_snapshot_chunk_static) (simp add: node_inv_def)
  have r: "static_append req" if "append_request S w i = Inr req" for i req
    using Cons.prems append_request_static [OF _ that] by (simp add: node_inv_def static_store_def)
  let ?n = "lookup_or 1 (next_index l) peer"
  show ?case
  proof (cases "append_request S w ?n")
    case (Inl e)
    then show ?thesis
      using Cons.IH [OF n, of "pending @ [fst ?c]"] Cons.IH [OF Cons.prems, of pending] c
      by (auto simp: Let_def case_prod_beta)
  next
    case (Inr req)
    then show ?thesis
      using Cons.IH [OF n, of "pending @ [fst ?c]"] Cons.IH [OF Cons.prems, of pending] c
        Cons.IH [OF Cons.prems, of "pending @ [CallAppend peer req]"] r [OF Inr]
      by (auto simp: Let_def case_prod_beta)
  qed
qed simp

lemma send_heartbeats_calls:
  assumes "node_inv view M B w"
  shows "\<forall>c\<in>set (snd (snd (send_heartbeats S w pending))). c \<in> set pending \<or> static_call M me c"
  using heartbeat_peers_calls [OF assms]
  by (auto simp: send_heartbeats_def Let_def case_prod_beta split: option.split sum.split)

lemma start_election_calls:
  "\<forall>c\<in>set (snd (snd (start_election S w pending))).
     c \<in> set pending \<or> static_call M (cfg_me (w_cfg w)) c"
  by (auto simp: start_election_def Let_def split: prod.split sum.split)

lemma handle_read_index_calls:
  assumes inv: "node_inv view M B w"
  shows "\<forall>c\<in>set (snd (handle_read_index S w pending timeout reply)). c \<in> set pending \<or> static_call M me c"
proof -
  have v: "node_inv view M B (w\<lparr>w_pending_read_index := p\<rparr>)"
    "node_inv view M B ((snd (clock_now w))\<lparr>w_pending_read_index := p\<rparr>)" for p
    by (rule node_inv_volatile [OF inv], simp_all)+
  from send_heartbeats_calls [OF v(1)] send_heartbeats_calls [OF v(2)] show ?thesis
    by (cases timeout) (simp_all add: handle_read_index_def Let_def case_prod_beta)
qed

lemma on_worker_timer_calls:
  assumes inv: "node_inv view M B w"
  shows "\<forall>c\<in>set (snd (on_worker_timer S w pending)). c \<in> set pending \<or> static_call M (cfg_me (w_cfg w)) c"
proof -
  let ?w2 = "expire_pending_reads (fst (clock_now w)) (snd (clock_now w))"
  have w2: "node_inv view M B ?w2" by (rule node_inv_volatile [OF inv]) simp_all
  then have pv: "\<not> pre_vote (w_cfg ?w2)" "w_role ?w2 \<noteq> PreCandidate"
    by (simp_all add: node_inv_def static_cfg_def ballot_inv_def)
  show ?thesis
    using start_election_calls [of ?w2 pending M] send_heartbeats_calls [OF w2, of pending "cfg_me (w_cfg w)"] pv
    by (cases "w_role ?w2") (simp_all add: on_worker_timer_def on_timer_def case_prod_beta Let_def)
qed

lemma handle_msg_calls:
  assumes inv: "node_inv view M B w"
  shows "\<forall>c\<in>set (snd (snd (handle_msg S w pending msg))). c \<in> set pending \<or> static_call M me c"
  using handle_read_index_calls [OF inv]
  by (cases msg) (simp_all add: handle_msg_def case_prod_beta Let_def)

end

end
