(* ===== verification/Raft_Cluster.thy ===== *)
theory Raft_Cluster
  imports Raft_Election
begin

text \<open>
  A cluster of workers over an unreliable network. A step is one turn of one node's loop (its
  timer, a client message, a request delivered to it, the outcome of one of its calls) or a
  restart of a node from its storage. Every call a node ever pushed may be delivered any number
  of times, in any order or never; a call in flight resolves with an answer its target really
  gave to it, or with nothing. A crash between two batches of one handler is a storage error of
  the second batch followed by a restart.

  Two ghost lists record the durable votes and the leaderships that were ever observed; no step
  reads them.
\<close>

record ('n, 's) cluster =
  cl_node :: "'n \<Rightarrow> ('n, 's) worker \<times> 'n rpc_call list"
  cl_sent :: "('n \<times> 'n rpc_call) list"
  cl_answers :: "('n \<times> 'n rpc_call \<times> 'n rpc_outcome) list"
  cl_ballots :: "('n \<times> nat \<times> 'n) list"
  cl_leaders :: "(nat \<times> 'n) list"

datatype 'n cluster_event =
    Tick 'n nat
  | Client 'n "'n raft_msg" nat
  | Deliver 'n "'n rpc_call" nat
  | Resolve 'n nat "'n rpc_outcome" nat
  | Lost 'n nat nat
  | Restart 'n "nat \<Rightarrow> nat" "nat \<Rightarrow> u64" nat

definition is_client_msg :: "'n raft_msg \<Rightarrow> bool" where
  "is_client_msg m = (case m of MsgPropose _ \<Rightarrow> True | MsgReadIndex _ _ \<Rightarrow> True
     | MsgChangeMembership _ \<Rightarrow> True | MsgQueryState \<Rightarrow> True | _ \<Rightarrow> False)"

fun call_target :: "'n rpc_call \<Rightarrow> 'n" where
  "call_target (CallAppend p _) = p"
| "call_target (CallVote p _) = p"
| "call_target (CallPreVote p _ _) = p"
| "call_target (CallInstall p _ _ _ _ _) = p"

fun call_msg :: "'n \<Rightarrow> 'n rpc_call \<Rightarrow> 'n raft_msg" where
  "call_msg from (CallAppend _ req) = MsgAppendEntries from req"
| "call_msg from (CallVote _ req) = MsgRequestVote from req"
| "call_msg from (CallPreVote _ _ req) = MsgPreVote from req"
| "call_msg from (CallInstall _ req _ _ _ _) = MsgInstallSnapshot from req"

text \<open>The answer the target's handle sends back: the worker's reply, or the handle's fallback.\<close>

fun call_answer :: "'n rpc_call \<Rightarrow> 'n raft_reply option \<Rightarrow> 'n rpc_outcome" where
  "call_answer (CallAppend p req) r = OutAppend p (Some (handle_inbound_append req
     (case r of Some (ReplyAppend a) \<Rightarrow> Some a | _ \<Rightarrow> None)))"
| "call_answer (CallVote p req) r = OutVote p (Some (handle_inbound_vote req
     (case r of Some (ReplyVote a) \<Rightarrow> Some a | _ \<Rightarrow> None)))"
| "call_answer (CallPreVote p t req) r = OutPreVote p t (Some (handle_inbound_prevote req
     (case r of Some (ReplyPreVote a) \<Rightarrow> Some a | _ \<Rightarrow> None)))"
| "call_answer (CallInstall p req i t e f) r = OutInstall p (Some (handle_inbound_install req
     (case r of Some (ReplyInstall a) \<Rightarrow> Some a | _ \<Rightarrow> None))) i t e f"

fun lost_outcome :: "'n rpc_call \<Rightarrow> 'n rpc_outcome" where
  "lost_outcome (CallAppend p _) = OutAppend p None"
| "lost_outcome (CallVote p _) = OutVote p None"
| "lost_outcome (CallPreVote p t _) = OutPreVote p t None"
| "lost_outcome (CallInstall p _ i t e f) = OutInstall p None i t e f"

definition settle :: "'n \<Rightarrow> ('n, 's) worker \<times> 'n rpc_call list \<Rightarrow> ('n, 's) cluster \<Rightarrow> ('n, 's) cluster" where
  "settle n wp cl =
     cl\<lparr>cl_node := (cl_node cl)(n := wp),
        cl_sent := map (Pair n) (snd wp) @ cl_sent cl,
        cl_ballots := (case voted_for (w_meta (fst wp)) of None \<Rightarrow> cl_ballots cl
          | Some c \<Rightarrow> (n, current_term (w_meta (fst wp)), c) # cl_ballots cl),
        cl_leaders := (if w_role (fst wp) = Leader
          then (current_term (w_meta (fst wp)), n) # cl_leaders cl else cl_leaders cl)\<rparr>"

definition cluster_step ::
  "('n::linorder, 's, 'e) storage_ops \<Rightarrow> ('n, 's) cluster \<Rightarrow> 'n cluster_event \<Rightarrow> ('n, 's) cluster option" where
  "cluster_step S cl ev =
     (case ev of
        Tick n now \<Rightarrow>
          map_option (\<lambda>wp. settle n wp cl) (loop_turn S now EvTimer (cl_node cl n))
      | Client n m now \<Rightarrow>
          if is_client_msg m
          then map_option (\<lambda>wp. settle n wp cl) (loop_turn S now (EvMsg m) (cl_node cl n)) else None
      | Deliver from call now \<Rightarrow>
          if (from, call) \<in> set (cl_sent cl) then
            let q = call_target call; m = call_msg from call;
                (w, pending) = cl_node cl q;
                reply = fst (handle_msg S w pending m)
            in map_option (\<lambda>wp. (settle q wp cl)\<lparr>cl_answers :=
                   (from, call, call_answer call reply) # cl_answers cl\<rparr>)
                 (loop_turn S now (EvMsg m) (w, pending))
          else None
      | Resolve n i out now \<Rightarrow>
          let (w, pending) = cl_node cl n
          in if i < length pending \<and> (n, pending ! i, out) \<in> set (cl_answers cl)
             then map_option (\<lambda>wp. settle n wp cl) (loop_turn S now (EvOutcome i out) (w, pending))
             else None
      | Lost n i now \<Rightarrow>
          let (w, pending) = cl_node cl n
          in if i < length pending
             then map_option (\<lambda>wp. settle n wp cl)
                    (loop_turn S now (EvOutcome i (lost_outcome (pending ! i))) (w, pending))
             else None
      | Restart n clk rng now \<Rightarrow>
          let w = fst (cl_node cl n)
          in case run_worker_init S (w_storage w) (w_cfg w) clk rng (w_me_hash_bytes w) now of
               Inl e \<Rightarrow> None
             | Inr w' \<Rightarrow> Some (settle n (w', []) cl))"

fun cluster_run ::
  "('n::linorder, 's, 'e) storage_ops \<Rightarrow> ('n, 's) cluster \<Rightarrow> 'n cluster_event list \<Rightarrow> ('n, 's) cluster option" where
  "cluster_run S cl [] = Some cl"
| "cluster_run S cl (ev # evs) =
     (case cluster_step S cl ev of None \<Rightarrow> None | Some cl' \<Rightarrow> cluster_run S cl' evs)"

definition cluster_init :: "('n \<Rightarrow> ('n, 's) worker) \<Rightarrow> ('n, 's) cluster" where
  "cluster_init boot = \<lparr>cl_node = (\<lambda>n. (boot n, [])), cl_sent = [], cl_answers = [],
                        cl_ballots = [], cl_leaders = []\<rparr>"

text \<open>Every node freshly started on an empty store, with the same members and pre-vote off.\<close>

definition fresh_node ::
  "('n, 's, 'e) storage_ops \<Rightarrow> ('s \<Rightarrow> 'n mem_storage) \<Rightarrow> 'n list \<Rightarrow> 'n \<Rightarrow> ('n, 's) worker \<Rightarrow> bool" where
  "fresh_node S view M n w \<longleftrightarrow>
     (\<exists>st c clk rng bs now. run_worker_init S st c clk rng bs now = Inr w \<and> view st = mem_new \<and>
        cfg_me c = n \<and> cfg_members c = M \<and> \<not> pre_vote c)"

fun static_event :: "'n cluster_event \<Rightarrow> bool" where
  "static_event (Client n (MsgChangeMembership ms) now) = False"
| "static_event _ = True"

inductive static_reachable ::
  "('n::linorder, 's, 'e) storage_ops \<Rightarrow> ('n, 's) cluster \<Rightarrow> ('n, 's) cluster \<Rightarrow> bool" for S cl0 where
  start: "static_reachable S cl0 cl0"
| step: "static_reachable S cl0 cl \<Longrightarrow> static_event ev \<Longrightarrow> cluster_step S cl ev = Some cl' \<Longrightarrow>
     static_reachable S cl0 cl'"

lemma cluster_run_reachable:
  "static_reachable S cl0 cl \<Longrightarrow> list_all static_event evs \<Longrightarrow> cluster_run S cl evs = Some cl' \<Longrightarrow>
     static_reachable S cl0 cl'"
  by (induction evs arbitrary: cl) (auto split: option.splits intro: static_reachable.step)

section \<open>The invariant\<close>

definition ballot_of :: "('n, 's) cluster \<Rightarrow> 'n \<Rightarrow> nat \<Rightarrow> 'n \<Rightarrow> bool" where
  "ballot_of cl v t c \<longleftrightarrow> (v, t, c) \<in> set (cl_ballots cl)"

definition votes_durable :: "('n, 's) cluster \<Rightarrow> bool" where
  "votes_durable cl \<longleftrightarrow>
     (\<forall>v t c. ballot_of cl v t c \<longrightarrow>
        t \<le> current_term (w_meta (fst (cl_node cl v))) \<and>
        (t = current_term (w_meta (fst (cl_node cl v))) \<longrightarrow>
           voted_for (w_meta (fst (cl_node cl v))) = Some c)) \<and>
     (\<forall>v t c c'. ballot_of cl v t c \<longrightarrow> ballot_of cl v t c' \<longrightarrow> c = c')"

definition answers_backed :: "('n, 's) cluster \<Rightarrow> bool" where
  "answers_backed cl \<longleftrightarrow>
     (\<forall>p q req from resp. (p, CallVote q req, OutVote from (Some resp)) \<in> set (cl_answers cl) \<longrightarrow>
        vr_vote_granted resp \<longrightarrow> ballot_of cl from (vr_term resp) p) \<and>
     (\<forall>p call out. (p, call, out) \<in> set (cl_answers cl) \<longrightarrow> call_outcome call out)"

definition cluster_inv :: "('s \<Rightarrow> 'n mem_storage) \<Rightarrow> 'n list \<Rightarrow> ('n, 's) cluster \<Rightarrow> bool" where
  "cluster_inv view M cl \<longleftrightarrow>
     (\<forall>n. worker_inv view (fst (cl_node cl n)) \<and> cfg_me (w_cfg (fst (cl_node cl n))) = n \<and>
          node_inv view M (ballot_of cl) (fst (cl_node cl n))) \<and>
     votes_durable cl \<and> answers_backed cl \<and>
     (\<forall>p call. (p, call) \<in> set (cl_sent cl) \<longrightarrow> static_call M p call) \<and>
     (\<forall>n. \<forall>c\<in>set (snd (cl_node cl n)). (n, c) \<in> set (cl_sent cl)) \<and>
     (\<forall>t n. (t, n) \<in> set (cl_leaders cl) \<longrightarrow> quorum_holds (steady M) (\<lambda>m. ballot_of cl m t n))"

lemma settle_sel [simp]:
  "cl_node (settle n wp cl) = (cl_node cl)(n := wp)"
  "cl_sent (settle n wp cl) = map (Pair n) (snd wp) @ cl_sent cl"
  "cl_answers (settle n wp cl) = cl_answers cl"
  by (simp_all add: settle_def)

lemma ballot_of_settle:
  "ballot_of (settle n wp cl) v t c \<longleftrightarrow> ballot_of cl v t c \<or>
     (v = n \<and> t = current_term (w_meta (fst wp)) \<and> voted_for (w_meta (fst wp)) = Some c)"
  by (auto simp: ballot_of_def settle_def split: option.splits)

lemma ballot_of_answers [simp]: "ballot_of (cl\<lparr>cl_answers := a\<rparr>) = ballot_of cl"
  by (intro ext) (simp add: ballot_of_def)

lemma votes_durable_settle:
  assumes dur: "votes_durable cl" and step: "meta_step (w_meta (fst (cl_node cl n))) (w_meta (fst wp))"
  shows "votes_durable (settle n wp cl)"
proof -
  let ?m = "w_meta (fst (cl_node cl n))" and ?m' = "w_meta (fst wp)"
  have old: "t \<le> current_term ?m' \<and> (t = current_term ?m' \<longrightarrow> voted_for ?m' = Some c)"
    if "ballot_of cl n t c" for t c
  proof -
    from dur that have b: "t \<le> current_term ?m" "t = current_term ?m \<longrightarrow> voted_for ?m = Some c"
      by (auto simp: votes_durable_def)
    moreover from step have "current_term ?m \<le> current_term ?m'"
      "current_term ?m' = current_term ?m \<and> voted_for ?m \<noteq> None \<longrightarrow> voted_for ?m' = voted_for ?m"
      by (simp_all add: meta_step_def)
    ultimately show ?thesis by (metis le_antisym le_trans option.distinct(1))
  qed
  have dur': "t \<le> current_term (w_meta (fst (cl_node cl v)))"
    "t = current_term (w_meta (fst (cl_node cl v))) \<longrightarrow> voted_for (w_meta (fst (cl_node cl v))) = Some c"
    if "ballot_of cl v t c" for v t c
    using dur that by (auto simp: votes_durable_def)
  have uniq: "c = c'" if "ballot_of cl v t c" "ballot_of cl v t c'" for v t c c'
    using dur that unfolding votes_durable_def by blast
  show ?thesis
    unfolding votes_durable_def ballot_of_settle
    using old dur' uniq by (auto dest: old)
qed

lemma cluster_inv_parts:
  assumes "cluster_inv view M cl"
  shows "votes_durable cl" and "answers_backed cl"
    and "\<And>p call. (p, call) \<in> set (cl_sent cl) \<Longrightarrow> static_call M p call"
    and "\<And>n c. c \<in> set (snd (cl_node cl n)) \<Longrightarrow> (n, c) \<in> set (cl_sent cl)"
    and "\<And>t n. (t, n) \<in> set (cl_leaders cl) \<Longrightarrow> quorum_holds (steady M) (\<lambda>m. ballot_of cl m t n)"
    and "\<And>n. worker_inv view (fst (cl_node cl n))"
    and "\<And>n. cfg_me (w_cfg (fst (cl_node cl n))) = n"
    and "\<And>n. node_inv view M (ballot_of cl) (fst (cl_node cl n))"
  using assms by (simp_all add: cluster_inv_def)

lemma cluster_invI:
  assumes "\<And>n. worker_inv view (fst (cl_node cl n))" "\<And>n. cfg_me (w_cfg (fst (cl_node cl n))) = n"
    and "\<And>n. node_inv view M (ballot_of cl) (fst (cl_node cl n))"
    and "votes_durable cl" "answers_backed cl"
    and "\<And>p call. (p, call) \<in> set (cl_sent cl) \<Longrightarrow> static_call M p call"
    and "\<And>n c. c \<in> set (snd (cl_node cl n)) \<Longrightarrow> (n, c) \<in> set (cl_sent cl)"
    and "\<And>t n. (t, n) \<in> set (cl_leaders cl) \<Longrightarrow> quorum_holds (steady M) (\<lambda>m. ballot_of cl m t n)"
  shows "cluster_inv view M cl"
  unfolding cluster_inv_def using assms by simp

lemma answers_backedD:
  assumes "answers_backed cl" and "(p, call, OutVote q (Some resp)) \<in> set (cl_answers cl)"
    and "vr_vote_granted resp"
  shows "ballot_of cl q (vr_term resp) p"
proof -
  have "call_outcome call (OutVote q (Some resp))"
    using assms(1,2) unfolding answers_backed_def by blast
  then obtain q' req where "call = CallVote q' req" by (cases call) auto
  with assms show ?thesis unfolding answers_backed_def by blast
qed

lemma answers_backed_mono:
  assumes "answers_backed cl" and "cl_answers cl' = cl_answers cl"
    and "\<And>v t c. ballot_of cl v t c \<Longrightarrow> ballot_of cl' v t c"
  shows "answers_backed cl'"
  unfolding answers_backed_def assms(2)
proof (intro conjI allI impI)
  fix p q req src resp
  assume "(p, CallVote q req, OutVote src (Some resp)) \<in> set (cl_answers cl)" "vr_vote_granted resp"
  from assms(3) [OF answers_backedD [OF assms(1) this]] show "ballot_of cl' src (vr_term resp) p" .
next
  fix p call out
  assume "(p, call, out) \<in> set (cl_answers cl)"
  with assms(1) show "call_outcome call out" unfolding answers_backed_def by blast
qed

lemma settle_inv:
  assumes inv: "cluster_inv view M cl" and node: "cl_node cl n = (w, pending)"
    and step: "worker_step view w w'"
    and elect: "node_inv view M (ballot_of (settle n (w', pending') cl)) w'"
    and calls: "\<forall>c\<in>set pending'. c \<in> set pending \<or> static_call M n c"
  shows "cluster_inv view M (settle n (w', pending') cl)"
proof -
  let ?cl = "settle n (w', pending') cl"
  have mono: "ballot_of cl v t c \<Longrightarrow> ballot_of ?cl v t c" for v t c
    by (simp add: ballot_of_settle)
  note old = cluster_inv_parts [OF inv]
  have me: "cfg_me (w_cfg w') = n" using old(7) [of n] node step by (simp add: worker_step_def)
  show ?thesis
  proof (rule cluster_invI)
    show "worker_inv view (fst (cl_node ?cl m))" "cfg_me (w_cfg (fst (cl_node ?cl m))) = m" for m
      using old(6,7) [of m] me step by (simp_all add: worker_step_def)
    show "node_inv view M (ballot_of ?cl) (fst (cl_node ?cl m))" for m
      using elect node_inv_mono [OF old(8) [of m] mono] by simp
    show "votes_durable ?cl"
      using old(1) step node by (intro votes_durable_settle) (simp_all add: worker_step_def)
    show "answers_backed ?cl" by (rule answers_backed_mono [OF old(2) _ mono]) simp_all
    show "static_call M p c" if "(p, c) \<in> set (cl_sent ?cl)" for p c
      using that old(3) [of p c] old(4) [of c n] old(3) [of n c] calls node by auto
    show "(m, c) \<in> set (cl_sent ?cl)" if "c \<in> set (snd (cl_node ?cl m))" for m c
      using that old(4) [of c m] by (auto split: if_splits)
    show "quorum_holds (steady M) (\<lambda>m. ballot_of ?cl m t p)" if "(t, p) \<in> set (cl_leaders ?cl)" for t p
    proof (cases "(t, p) \<in> set (cl_leaders cl)")
      case True
      from old(5) [OF this] show ?thesis by (rule quorum_holds_mono) (rule mono)
    next
      case False
      with that have "w_role w' = Leader" "t = current_term (w_meta w')" "p = n"
        by (auto simp: settle_def split: if_splits)
      with elect me show ?thesis by (auto simp: node_inv_def static_cfg_def ballot_inv_def)
    qed
  qed
qed

text \<open>The vote a node holds after a step is recorded by the step.\<close>

lemma vote_recorded_settle:
  "cfg_me (w_cfg w') = n \<Longrightarrow> vote_recorded (ballot_of (settle n (w', p) cl)) w'"
  by (simp add: vote_recorded_def ballot_of_settle)

lemma cluster_invD:
  assumes "cluster_inv view M cl" and "cl_node cl n = (w, pending)"
  shows "worker_inv view w" "cfg_me (w_cfg w) = n" "node_inv view M (ballot_of cl) w"
    "\<forall>c\<in>set pending. (n, c) \<in> set (cl_sent cl)"
  using assms cluster_inv_parts(6,7,8) [OF assms(1), of n] cluster_inv_parts(4) [OF assms(1), of _ n] by auto

context raft_storage
begin

lemma node_settle:
  assumes "node_inv view M (ballot_of cl) w"
  shows "node_inv view M (ballot_of (settle n wp cl)) w"
  using assms by (rule node_inv_mono) (simp add: ballot_of_settle)

lemma publish_node: "node_inv view M B w \<Longrightarrow> node_inv view M B (publish_status S now w)"
  by (erule node_inv_volatile) simp_all

lemma tick_inv:
  assumes inv: "cluster_inv view M cl" and node: "cl_node cl n = (w, pending)"
    and turn: "loop_turn S now EvTimer (w, pending) = Some (w', pending')"
  shows "cluster_inv view M (settle n (w', pending') cl)"
proof (rule settle_inv [OF inv node loop_turn_step [OF cluster_invD(1) [OF inv node] turn]])
  let ?t = "on_worker_timer S w pending"
  from turn have w': "w' = publish_status S now (fst ?t)" and p': "pending' = snd ?t"
    by (auto simp: loop_turn_def case_prod_beta Let_def)
  note n = cluster_invD(3) [OF inv node]
  show "\<forall>c\<in>set pending'. c \<in> set pending \<or> static_call M n c"
    using on_worker_timer_calls [OF n, of pending] cluster_invD(2) [OF inv node] by (simp add: p')
  let ?B = "ballot_of (settle n (w', pending') cl)"
  have "cfg_me (w_cfg w') = n"
    using loop_turn_step [OF cluster_invD(1) [OF inv node] turn] cluster_invD(2) [OF inv node]
    by (simp add: worker_step_def)
  from vote_recorded_settle [OF this] have "vote_recorded ?B (fst ?t)"
    by (simp add: vote_recorded_def w')
  from on_worker_timer_node [OF node_settle [OF n] this]
  show "node_inv view M ?B w'" unfolding w' by (rule publish_node)
qed

lemma msg_inv:
  assumes inv: "cluster_inv view M cl" and node: "cl_node cl n = (w, pending)"
    and msg: "static_msg M m"
    and turn: "loop_turn S now (EvMsg m) (w, pending) = Some (w', pending')"
  shows "cluster_inv view M (settle n (w', pending') cl)"
proof (rule settle_inv [OF inv node loop_turn_step [OF cluster_invD(1) [OF inv node] turn]])
  let ?t = "snd (handle_msg S w pending m)"
  from turn have w': "w' = publish_status S now (fst ?t)" and p': "pending' = snd ?t"
    by (auto simp: loop_turn_def case_prod_beta Let_def split: raft_msg.splits)
  note n = cluster_invD(3) [OF inv node]
  show "\<forall>c\<in>set pending'. c \<in> set pending \<or> static_call M n c"
    using handle_msg_calls [OF n, of pending m n] by (simp add: p')
  show "node_inv view M (ballot_of (settle n (w', pending') cl)) w'"
    unfolding w' by (intro publish_node handle_msg_node [OF node_settle [OF n] msg])
qed

lemma outcome_inv:
  assumes inv: "cluster_inv view M cl" and node: "cl_node cl n = (w, pending)"
    and vote: "\<And>from resp. out = OutVote from (Some resp) \<Longrightarrow> vr_vote_granted resp \<Longrightarrow>
                 ballot_of cl from (vr_term resp) n"
    and turn: "loop_turn S now (EvOutcome i out) (w, pending) = Some (w', pending')"
  shows "cluster_inv view M (settle n (w', pending') cl)"
proof (rule settle_inv [OF inv node loop_turn_step [OF cluster_invD(1) [OF inv node] turn]])
  from turn have w': "w' = publish_status S now (handle_rpc_outcome S w out)"
    and p': "pending' = take i pending @ drop (Suc i) pending"
    by (auto simp: loop_turn_def case_prod_beta Let_def)
  show "\<forall>c\<in>set pending'. c \<in> set pending \<or> static_call M n c"
    unfolding p' by (auto dest: in_set_takeD in_set_dropD)
  note n = cluster_invD(3) [OF inv node]
  let ?B = "ballot_of (settle n (w', pending') cl)"
  have "?B src (vr_term resp) (cfg_me (w_cfg w))"
    if "out = OutVote src (Some resp)" "vr_vote_granted resp" for src resp
    using vote [OF that] cluster_invD(2) [OF inv node] by (simp add: ballot_of_settle)
  from handle_rpc_outcome_node [OF node_settle [OF n] this]
  show "node_inv view M ?B w'" unfolding w' by (rule publish_node)
qed

lemma restart_inv:
  assumes inv: "cluster_inv view M cl" and node: "cl_node cl n = (w, pending)"
    and boot: "run_worker_init S (w_storage w) (w_cfg w) clk rng bs now = Inr w'"
  shows "cluster_inv view M (settle n (w', []) cl)"
proof (rule settle_inv [OF inv node])
  note w = cluster_invD(1-3) [OF inv node]
  have "snap_last_index (ms_meta (view (w_storage w))) \<le> commit_index (ms_meta (view (w_storage w)))"
    using w(1) by (simp add: worker_inv_def)
  from run_worker_init_inv [OF boot this] w(1)
  show "worker_step view w w'" by (auto simp: worker_step_def worker_inv_def)
  show "node_inv view M (ballot_of (settle n (w', []) cl)) w'"
    using w(3) by (intro run_worker_init_node [OF boot]) (simp_all add: node_inv_def static_cfg_def)
qed simp

lemma call_msg_static: "static_call M p call \<Longrightarrow> static_msg M (call_msg p call)"
  by (cases call) simp_all

lemma deliver_inv:
  assumes inv: "cluster_inv view M cl" and sent: "(p, call) \<in> set (cl_sent cl)"
    and node: "cl_node cl (call_target call) = (w, pending)"
    and turn: "loop_turn S now (EvMsg (call_msg p call)) (w, pending) = Some (w', pending')"
  defines "reply \<equiv> fst (handle_msg S w pending (call_msg p call))"
  shows "cluster_inv view M ((settle (call_target call) (w', pending') cl)
           \<lparr>cl_answers := (p, call, call_answer call reply) # cl_answers cl\<rparr>)"
proof -
  let ?q = "call_target call"
  let ?cl = "settle ?q (w', pending') cl"
  have static: "static_call M p call" using cluster_inv_parts(3) [OF inv sent] .
  have s: "cluster_inv view M ?cl"
    by (rule msg_inv [OF inv node call_msg_static [OF static] turn])
  have backed: "ballot_of ?cl src (vr_term resp) p"
    if c: "call = CallVote q req" and a: "call_answer call reply = OutVote src (Some resp)"
      and g: "vr_vote_granted resp" for q req src resp
  proof -
    obtain r w1 where h: "handle_request_vote S w req = (r, w1)" by fastforce
    from c a g h obtain r' where r: "r = Inr r'" "resp = r'" and q: "src = q"
      by (auto simp: reply_def handle_msg_def handle_inbound_vote_def ok_reply_def
          split: sum.splits option.splits)
    have "w_meta w' = w_meta w1"
      using turn c h by (auto simp: loop_turn_def handle_msg_def)
    with handle_request_vote_granted [of w req r' w1] h r g static c q
    show ?thesis by (simp add: ballot_of_settle)
  qed
  have outc: "call_outcome call (call_answer call reply)" by (cases call) simp_all
  have "answers_backed (?cl\<lparr>cl_answers := (p, call, call_answer call reply) # cl_answers cl\<rparr>)"
    using cluster_inv_parts(2) [OF s] backed outc unfolding answers_backed_def by auto
  with s show ?thesis by (simp add: cluster_inv_def votes_durable_def)
qed

lemma cluster_step_inv:
  assumes inv: "cluster_inv view M cl" and ev: "static_event ev"
    and step: "cluster_step S cl ev = Some cl'"
  shows "cluster_inv view M cl'"
proof (cases ev)
  case (Tick n now)
  obtain w p where n: "cl_node cl n = (w, p)" by fastforce
  with step Tick tick_inv [OF inv n] show ?thesis by (auto simp: cluster_step_def)
next
  case (Client n m now)
  obtain w p where n: "cl_node cl n = (w, p)" by fastforce
  have "static_msg M m" if "is_client_msg m"
    using that ev Client by (cases m) (auto simp: is_client_msg_def)
  with step Client msg_inv [OF inv n] show ?thesis
    by (auto simp: cluster_step_def n split: if_splits)
next
  case (Deliver src call now)
  obtain w p where n: "cl_node cl (call_target call) = (w, p)" by fastforce
  with step Deliver deliver_inv [OF inv _ n] show ?thesis
    by (auto simp: cluster_step_def Let_def split: if_splits)
next
  case (Resolve n i out now)
  obtain w p where n: "cl_node cl n = (w, p)" by fastforce
  from step Resolve n obtain w' p' where ans: "(n, p ! i, out) \<in> set (cl_answers cl)"
    and turn: "loop_turn S now (EvOutcome i out) (w, p) = Some (w', p')" and cl': "cl' = settle n (w', p') cl"
    by (auto simp: cluster_step_def split: if_splits)
  have "ballot_of cl src (vr_term resp) n"
    if "out = OutVote src (Some resp)" "vr_vote_granted resp" for src resp
    using answers_backedD [OF cluster_inv_parts(2) [OF inv], of n "p ! i" src resp] that ans by simp
  from outcome_inv [OF inv n this turn] show ?thesis by (simp add: cl')
next
  case (Lost n i now)
  obtain w p where n: "cl_node cl n = (w, p)" by fastforce
  have "lost_outcome (p ! i) \<noteq> OutVote src (Some resp)" for src resp
    by (cases "p ! i") simp_all
  with step Lost outcome_inv [OF inv n, of "lost_outcome (p ! i)"] n show ?thesis
    by (auto simp: cluster_step_def split: if_splits)
next
  case (Restart n clk rng now)
  obtain w p where n: "cl_node cl n = (w, p)" by fastforce
  with step Restart restart_inv [OF inv n] show ?thesis
    by (auto simp: cluster_step_def Let_def split: sum.splits)
qed

lemma cluster_init_inv:
  assumes "\<And>n. fresh_node S view M n (boot n)"
  shows "cluster_inv view M (cluster_init boot)"
proof -
  have "worker_inv view (boot n) \<and> cfg_me (w_cfg (boot n)) = n \<and> node_inv view M B (boot n)" for n B
  proof -
    obtain st c clk rng bs now where b: "run_worker_init S st c clk rng bs now = Inr (boot n)"
      "view st = mem_new" "cfg_me c = n" "cfg_members c = M" "\<not> pre_vote c"
      using assms [of n] unfolding fresh_node_def by blast
    have "static_store M (view st)"
      by (simp add: b(2) static_store_def data_log_def static_row_def mem_new_def)
    from run_worker_init_node [OF b(1) this b(4,5)] run_worker_init_inv [OF b(1)] b(2,3)
    show ?thesis by (simp add: mem_new_def meta_default_def)
  qed
  then show ?thesis
    by (simp add: cluster_inv_def cluster_init_def votes_durable_def answers_backed_def ballot_of_def)
qed

lemma static_reachable_inv:
  assumes "static_reachable S cl0 cl" and "cluster_inv view M cl0"
  shows "cluster_inv view M cl"
  using assms by induction (auto intro: cluster_step_inv)

end

lemma cluster_inv_one_leader:
  assumes inv: "cluster_inv view M cl" and "(t, a) \<in> set (cl_leaders cl)" and "(t, b) \<in> set (cl_leaders cl)"
  shows "a = b"
proof -
  have "quorum_holds (steady M) (\<lambda>m. ballot_of cl m t a)" "quorum_holds (steady M) (\<lambda>m. ballot_of cl m t b)"
    using cluster_inv_parts(5) [OF inv] assms(2,3) by blast+
  from quorums_intersect [OF this, of M] obtain m where "ballot_of cl m t a" "ballot_of cl m t b"
    by (auto simp: shares_voters_def)
  with cluster_inv_parts(1) [OF inv] show ?thesis unfolding votes_durable_def by blast
qed

end
