(* ===== verification/Raft_Log.thy ===== *)
theory Raft_Log
  imports Raft_Election
begin

text \<open>
  The replicated log of one node: what an accepted AppendEntries does to it, that a repeated
  request changes nothing, that compaction and snapshot installation keep it contiguous, and
  that a leader only ever appends.
\<close>

section \<open>The conflict scan\<close>

definition scan_result :: "'n mem_storage \<Rightarrow> nat \<Rightarrow> 'n log_entry list \<Rightarrow> nat option \<times> nat \<Rightarrow> bool" where
  "scan_result s idx es r \<longleftrightarrow>
     (let (conflict, k) = r
      in k \<le> length es \<and> (\<forall>i<k. mem_term_at s (idx + i) = Some (le_term (es ! i))) \<and>
         (case conflict of
            Some c \<Rightarrow> c = idx + k \<and> k < length es \<and>
                      (\<exists>t. mem_term_at s c = Some t \<and> t \<noteq> le_term (es ! k))
          | None \<Rightarrow> k = length es \<or> mem_term_at s (idx + k) = None))"

lemma scan_result_Cons:
  assumes "scan_result s (Suc idx) es (c, k)" and "mem_term_at s idx = Some (le_term e)"
  shows "scan_result s idx (e # es) (c, Suc k)"
  using assms unfolding scan_result_def
  by (auto simp: less_Suc_eq_0_disj nth_Cons' split: option.splits)

context raft_storage
begin

lemma scan_conflict_result:
  assumes "scan_conflict S st idx es n = Inr (c, k)"
  shows "n \<le> k \<and> scan_result (view st) idx es (c, k - n)"
  using assms
proof (induction es arbitrary: idx n)
  case Nil
  then show ?case by (simp add: scan_result_def)
next
  case (Cons e es)
  then obtain t where t: "st_term_at S st idx = Inr t" by (auto split: sum.splits)
  note view_t = term_at [OF t]
  show ?case
  proof (cases "t = Some (le_term e)")
    case True
    with Cons.prems t have "scan_conflict S st (idx + 1) es (n + 1) = Inr (c, k)" by simp
    from Cons.IH [OF this] have "n + 1 \<le> k" "scan_result (view st) (Suc idx) es (c, k - (n + 1))"
      by simp_all
    with scan_result_Cons [OF this(2)] view_t True show ?thesis by (simp add: Suc_diff_Suc)
  next
    case False
    with Cons.prems t view_t show ?thesis
      by (auto simp: scan_result_def split: option.splits if_splits)
  qed
qed

end

section \<open>What an accepted request writes\<close>

lemma length_reindexed [simp]: "length (reindexed p es) = length es"
  by (simp add: reindexed_def)

lemma reindexed_nth:
  "i < length es \<Longrightarrow> reindexed p es ! i =
     \<lparr>le_index = p + 1 + i, le_term = le_term (es ! i), le_kind = le_kind (es ! i)\<rparr>"
  by (simp add: reindexed_def nth_enumerate_eq)

lemma map_of_appends:
  "map_of (rev (map (\<lambda>e. (le_index e, e)) (drop k (reindexed p es)))) j =
     (if p + k < j \<and> j \<le> p + length es then Some (reindexed p es ! (j - p - 1)) else None)"
proof -
  let ?xs = "drop k (reindexed p es)"
  have idx: "le_index (?xs ! i) = p + 1 + k + i" if "i < length ?xs" for i
    using that by (simp add: reindexed_nth)
  have keys: "map le_index ?xs = map (\<lambda>i. p + 1 + k + i) [0..<length ?xs]"
    by (rule nth_equalityI) (simp_all add: reindexed_nth)
  have dist: "distinct (map fst (map (\<lambda>e. (le_index e, e)) ?xs))"
    using keys by (simp add: o_def distinct_map inj_on_def)
  then have rev: "map_of (rev (map (\<lambda>e. (le_index e, e)) ?xs)) = map_of (map (\<lambda>e. (le_index e, e)) ?xs)"
    by (subst map_of_inject_set) (simp_all flip: rev_map)
  show ?thesis
  proof (cases "p + k < j \<and> j \<le> p + length es")
    case True
    define i where "i = j - p - 1 - k"
    have i: "i < length ?xs" "j = p + 1 + k + i" using True by (auto simp: i_def)
    have "(j, ?xs ! i) \<in> set (map (\<lambda>e. (le_index e, e)) ?xs)"
      using i idx [OF i(1)] nth_mem [OF i(1)] by force
    with dist have "map_of (map (\<lambda>e. (le_index e, e)) ?xs) j = Some (?xs ! i)" by simp
    with True i rev show ?thesis by simp
  next
    case False
    have "j \<notin> set (map le_index ?xs)" unfolding keys using False by auto
    then have "map_of (map (\<lambda>e. (le_index e, e)) ?xs) j = None"
      by (force simp: map_of_eq_None_iff)
    with False rev show ?thesis by simp
  qed
qed

definition append_batch ::
  "nat \<Rightarrow> 'n log_entry list \<Rightarrow> nat option \<times> nat \<Rightarrow> 'n meta \<Rightarrow> 'n active_config_record option \<Rightarrow> 'n write_batch" where
  "append_batch prev es r m cfg =
     \<lparr>wb_truncate_after = map_option (\<lambda>i. i - 1) (fst r), wb_compact_to = None,
      wb_appends = drop (snd r) (reindexed prev es), wb_state = None, wb_meta = Some m,
      wb_active_config = cfg\<rparr>"

text \<open>The log an accepted request leaves, index by index.\<close>

lemma append_batch_log:
  "bt_get (ms_log (mem_commit_batch s (append_batch prev es (c, k) m cfg))) j =
     (if prev + k < j \<and> j \<le> prev + length es then Some (reindexed prev es ! (j - prev - 1))
      else case c of None \<Rightarrow> bt_get (ms_log s) j
           | Some ci \<Rightarrow> if j \<le> ci - 1 then bt_get (ms_log s) j else None)"
  by (simp add: append_batch_def bt_get_insert_all map_of_appends split: option.splits)

lemma mem_term_at_live:
  "snap_last_index (ms_meta s) < i \<Longrightarrow> mem_term_at s i = map_option le_term (bt_get (ms_log s) i)"
  by (simp add: mem_term_at_def)

lemma log_ok_term_at:
  assumes "log_ok s" and "snap_last_index (ms_meta s) < i"
  shows "mem_term_at s i \<noteq> None \<longleftrightarrow> i \<le> mem_last_index s"
  using log_ok_get [OF assms(1), of i] assms(2) by (auto simp: mem_term_at_live)

lemma log_ok_prev_le:
  assumes "log_ok s" and "snap_last_index (ms_meta s) \<le> prev" and "mem_term_at s prev \<noteq> None"
  shows "prev \<le> mem_last_index s"
  using assms log_ok_term_at [OF assms(1), of prev] log_ok_snap_le_last [OF assms(1)]
  by (cases "prev = snap_last_index (ms_meta s)") auto

lemma append_batch_log_ok:
  fixes cfg :: "'n active_config_record option"
  assumes ok: "log_ok s" and snap: "snap_last_index (ms_meta s) \<le> prev"
    and prev: "mem_term_at s prev \<noteq> None"
    and scan: "scan_result s (prev + 1) es (c, k)"
    and m: "snap_last_index m = snap_last_index (ms_meta s)"
  defines "s' \<equiv> mem_commit_batch s (append_batch prev es (c, k) m cfg)"
  shows "log_ok s' \<and> mem_last_index s' = (if k = length es then mem_last_index s else prev + length es)"
proof -
  let ?snap = "snap_last_index (ms_meta s)" and ?last = "mem_last_index s"
  let ?b = "if k = length es then ?last else prev + length es"
  note get = append_batch_log [of s prev es c k m cfg, folded s'_def]
  have pl: "prev \<le> ?last" by (rule log_ok_prev_le [OF ok snap prev])
  have kl: "k \<le> length es" using scan by (simp add: scan_result_def)
  have match: "prev + k \<le> ?last"
  proof (cases k)
    case (Suc i)
    then have "mem_term_at s (prev + 1 + i) \<noteq> None" using scan by (auto simp: scan_result_def)
    with log_ok_term_at [OF ok, of "prev + 1 + i"] snap Suc show ?thesis by simp
  qed (use pl in simp)
  have none: "prev + k = ?last" if "c = None" "k \<noteq> length es"
  proof -
    have "mem_term_at s (prev + 1 + k) = None" using scan that by (simp add: scan_result_def)
    with log_ok_term_at [OF ok, of "prev + 1 + k"] snap match show ?thesis by simp
  qed
  have some: "ci - 1 = prev + k \<and> k < length es" if "c = Some ci" for ci
    using scan that by (simp add: scan_result_def)
  have lg: "bt_get (ms_log s) j \<noteq> None \<longleftrightarrow> ?snap < j \<and> j \<le> ?last" for j
    by (rule log_ok_get [OF ok])
  have meta: "snap_last_index (ms_meta s') = ?snap" by (simp add: s'_def append_batch_def m)
  have keys: "bt_get (ms_log s') j \<noteq> None \<longleftrightarrow> ?snap < j \<and> j \<le> ?b" for j
  proof (cases c)
    case None
    show ?thesis using none [OF None] lg [of j] snap kl None match
      by (auto simp: get)
  next
    case (Some ci)
    show ?thesis using some [OF Some] lg [of j] snap kl match Some
      by (auto simp: get)
  qed
  have idx: "le_index e = j" if "bt_get (ms_log s') j = Some e" for j e
    using that log_ok_le_index [OF ok, of j e]
    by (auto simp: get reindexed_nth split: if_splits option.splits)
  have "bt_wf (ms_log s')"
    using log_ok_wf [OF ok] unfolding s'_def append_batch_def by (auto split: option.splits)
  moreover have "?snap \<le> ?b" using snap pl by auto
  ultimately show ?thesis using log_okI [of s' ?b] keys idx meta by simp
qed

lemma append_batch_terms:
  assumes scan: "scan_result s (prev + 1) es (c, k)" and snap: "snap_last_index (ms_meta s) \<le> prev"
    and m: "snap_last_index m = snap_last_index (ms_meta s)" and i: "i < length es"
  shows "mem_term_at (mem_commit_batch s (append_batch prev es (c, k) m cfg)) (prev + 1 + i) =
           Some (le_term (es ! i))"
proof -
  let ?s' = "mem_commit_batch s (append_batch prev es (c, k) m cfg)"
  have meta: "ms_meta ?s' = m" by (simp add: append_batch_def)
  have live: "mem_term_at ?s' (prev + 1 + i) = map_option le_term (bt_get (ms_log ?s') (prev + 1 + i))"
    using snap m by (intro mem_term_at_live) (simp add: meta del: mem_commit_batch_sel)
  show ?thesis
  proof (cases "i < k")
    case False
    then show ?thesis using i unfolding live append_batch_log by (simp add: reindexed_nth)
  next
    case True
    then have "mem_term_at s (prev + 1 + i) = Some (le_term (es ! i))"
      using scan by (simp add: scan_result_def)
    then have "map_option le_term (bt_get (ms_log s) (prev + 1 + i)) = Some (le_term (es ! i))"
      using snap by (simp add: mem_term_at_live)
    with True scan show ?thesis unfolding live append_batch_log
      by (auto simp: scan_result_def split: option.splits)
  qed
qed

text \<open>Nothing before the first disagreement is touched.\<close>

lemma append_batch_prefix:
  assumes "scan_result s (prev + 1) es (c, k)" and "j \<le> prev + k"
  shows "bt_get (ms_log (mem_commit_batch s (append_batch prev es (c, k) m cfg))) j = bt_get (ms_log s) j"
  using assms unfolding append_batch_log by (auto simp: scan_result_def split: option.splits)

lemma append_batch_repeat:
  assumes "bt_wf (ms_log s)" and "scan_result s (prev + 1) es (c, k)"
    and "\<And>i. i < length es \<Longrightarrow> mem_term_at s (prev + 1 + i) = Some (le_term (es ! i))"
  shows "ms_log (mem_commit_batch s (append_batch prev es (c, k) m cfg)) = ms_log s"
proof -
  have "c = None"
  proof (rule ccontr)
    assume "c \<noteq> None"
    then obtain ci where "c = Some ci" by auto
    with assms(2) obtain t where "ci = prev + 1 + k" "k < length es" "mem_term_at s ci = Some t"
      "t \<noteq> le_term (es ! k)" by (auto simp: scan_result_def)
    with assms(3) [of k] show False by simp
  qed
  moreover have "k = length es"
  proof (rule ccontr)
    assume "k \<noteq> length es"
    with assms(2) \<open>c = None\<close> have "k < length es" "mem_term_at s (prev + 1 + k) = None"
      by (auto simp: scan_result_def)
    with assms(3) [of k] show False by simp
  qed
  ultimately show ?thesis by (simp add: append_batch_def)
qed

section \<open>The handler\<close>

context raft_storage
begin

lemma append_consistent_success:
  assumes h: "append_consistent S w m req = (Inr resp, w')"
  shows "ar_success resp \<and> ar_term resp = current_term (w_meta w') \<and>
    ar_match_index resp = ae_prev_log_index req + length (ae_entries req) \<and>
    current_term (w_meta w') = current_term (w_meta w) \<and>
    snap_last_index (w_meta w') = snap_last_index (w_meta w) \<and>
    (\<exists>c k cfg. scan_result (view (w_storage w)) (ae_prev_log_index req + 1) (ae_entries req) (c, k) \<and>
       view (w_storage w') = mem_commit_batch (view (w_storage w))
         (append_batch (ae_prev_log_index req) (ae_entries req) (c, k) (w_meta w') cfg))"
proof -
  let ?prev = "ae_prev_log_index req" and ?es = "ae_entries req"
  define w1 where "w1 = (case append_commit_target w req of None \<Rightarrow> w
                    | Some c \<Rightarrow> w\<lparr>w_meta := (w_meta w)\<lparr>commit_index := c\<rparr>\<rparr>)"
  have w1: "w_storage w1 = w_storage w" "current_term (w_meta w1) = current_term (w_meta w)"
    "snap_last_index (w_meta w1) = snap_last_index (w_meta w)"
    by (simp_all add: w1_def split: option.splits)
  obtain c k where scan: "scan_conflict S (w_storage w) (?prev + 1) ?es 0 = Inr (c, k)"
    using h by (auto simp: append_consistent_def split: sum.splits)
  let ?ta = "map_option (\<lambda>i. i - 1) c" and ?ap = "drop k (reindexed ?prev ?es)"
  obtain v where v: "post_active_view S w1 req ?ap ?ta = Inr v"
    using h scan by (auto simp: append_consistent_def w1_def [symmetric] Let_def split: sum.splits)
  let ?b = "append_batch ?prev ?es (c, k) (w_meta w1) (map_option view_record v)"
  have eq: "append_consistent S w m req =
     (case commit S w1 ?b of (Inl e, w2) \<Rightarrow> (Inl e, w2\<lparr>w_meta := m\<rparr>)
      | (Inr _, w2) \<Rightarrow>
          let w3 = (if append_commit_target w req \<noteq> None then fire_apply_notification w2 else w2);
              w4 = adopt_view S v w3
          in (Inr \<lparr>ar_term = current_term (w_meta w4), ar_success = True,
                   ar_match_index = ?prev + length ?es\<rparr>, w4))"
    using scan v by (simp add: append_consistent_def w1_def [symmetric] append_batch_def)
  have sr: "scan_result (view (w_storage w)) (?prev + 1) ?es (c, k)"
    using scan_conflict_result [OF scan] by simp
  show ?thesis
  proof (cases rule: commit_cases [of w1 ?b])
    case (ok s')
    then have "w_meta w' = w_meta w1" "w_storage w' = s'"
      using h by (auto simp: eq Let_def)
    with ok w1 sr have "scan_result (view (w_storage w)) (?prev + 1) ?es (c, k) \<and>
        view (w_storage w') = mem_commit_batch (view (w_storage w))
          (append_batch ?prev ?es (c, k) (w_meta w') (map_option view_record v))" by simp
    moreover have "ar_success resp \<and> ar_term resp = current_term (w_meta w') \<and>
        ar_match_index resp = ?prev + length ?es"
      using h ok by (auto simp: eq Let_def)
    ultimately show ?thesis using w1 \<open>w_meta w' = w_meta w1\<close> by auto
  qed (use h in \<open>simp add: eq\<close>)
qed

lemma append_consistent_err:
  assumes "append_consistent S w m req = (Inl e, w')"
  shows "view (w_storage w') = view (w_storage w)"
proof -
  have c: "view (w_storage w2) = view (w_storage w)" if "commit S w1 b = (Inl e', w2)" "w_storage w1 = w_storage w"
    for w1 w2 b e' using commit_Inl [OF that(1)] that(2) by simp
  show ?thesis
    using assms by (auto simp: append_consistent_def Let_def split: sum.splits prod.splits option.splits
        dest!: c)
qed

text \<open>A successful reply in detail.\<close>

lemma handle_append_success:
  assumes h: "handle_append_entries S w req = (Inr resp, w')" and ok: "ar_success resp"
    and mirror: "ms_meta (view (w_storage w)) = w_meta w"
  shows "mem_term_at (view (w_storage w)) (ae_prev_log_index req) = Some (ae_prev_log_term req) \<and>
    ar_term resp = ae_term req \<and> current_term (w_meta w') = ae_term req \<and>
    ar_match_index resp = ae_prev_log_index req + length (ae_entries req) \<and>
    snap_last_index (w_meta w') = snap_last_index (w_meta w) \<and>
    (\<exists>c k cfg. scan_result (view (w_storage w)) (ae_prev_log_index req + 1) (ae_entries req) (c, k) \<and>
       view (w_storage w') = mem_commit_batch (view (w_storage w))
         (append_batch (ae_prev_log_index req) (ae_entries req) (c, k) (w_meta w') cfg))"
proof -
  define w1 where "w1 = follow_leader (ae_leader req) (append_adopt_term (ae_term req) w)"
  from h ok have tm: "\<not> ae_term req < current_term (w_meta w)"
    by (auto simp: handle_append_entries_def)
  then have w1: "w_storage w1 = w_storage w" "current_term (w_meta w1) = ae_term req"
      "snap_last_index (w_meta w1) = snap_last_index (w_meta w)"
    by (auto simp: w1_def)
  obtain t where t: "st_term_at S (w_storage w) (ae_prev_log_index req) = Inr t"
    using h tm w1 by (auto simp: handle_append_entries_def w1_def [symmetric] Let_def split: sum.splits)
  have cons: "t = Some (ae_prev_log_term req)"
    using h ok tm w1 t
    by (auto simp: handle_append_entries_def w1_def [symmetric] Let_def split: if_splits prod.splits sum.splits)
  with h tm w1 t have "append_consistent S w1 (w_meta w) req = (Inr resp, w')"
    by (simp add: handle_append_entries_def w1_def [symmetric] Let_def)
  from append_consistent_success [OF this] w1 term_at [OF t] cons show ?thesis by simp
qed

text \<open>A request of the node's term or later whose previous entry the node holds is either
  acknowledged or, on a storage error, without effect on the store.\<close>

lemma handle_append_answer:
  assumes tm: "current_term (w_meta w) \<le> ae_term req"
    and prev: "mem_term_at (view (w_storage w)) (ae_prev_log_index req) = Some (ae_prev_log_term req)"
    and h: "handle_append_entries S w req = (r, w')"
  shows "case r of Inl e \<Rightarrow> view (w_storage w') = view (w_storage w) | Inr resp \<Rightarrow> ar_success resp"
proof -
  define w1 where "w1 = follow_leader (ae_leader req) (append_adopt_term (ae_term req) w)"
  have w1: "w_storage w1 = w_storage w" by (simp add: w1_def)
  show ?thesis
  proof (cases "st_term_at S (w_storage w) (ae_prev_log_index req)")
    case (Inl e)
    with h tm w1 show ?thesis by (auto simp: handle_append_entries_def w1_def [symmetric] Let_def)
  next
    case (Inr t)
    with h tm w1 term_at [OF Inr] prev have "append_consistent S w1 (w_meta w) req = (r, w')"
      by (simp add: handle_append_entries_def w1_def [symmetric] Let_def)
    with append_consistent_success [of w1 "w_meta w" req _ w'] append_consistent_err [of w1 "w_meta w" req _ w'] w1
    show ?thesis by (cases r) simp_all
  qed
qed

end

section \<open>Contiguity through every turn\<close>

lemma log_ok_cong:
  "ms_log s' = ms_log s \<Longrightarrow> snap_last_index (ms_meta s') = snap_last_index (ms_meta s) \<Longrightarrow>
     log_ok s' = log_ok s"
  by (simp add: log_ok_def)

lemma log_ok_push:
  assumes ok: "log_ok s" and b: "wb_truncate_after b = None" "wb_compact_to b = None" "wb_meta b = None"
    "wb_appends b = [e]" and e: "le_index e = mem_last_index s + 1"
  shows "log_ok (mem_commit_batch s b) \<and> mem_last_index (mem_commit_batch s b) = mem_last_index s + 1"
proof (rule log_okI)
  show "bt_wf (ms_log (mem_commit_batch s b))" using log_ok_wf [OF ok] b by simp
  show "(bt_get (ms_log (mem_commit_batch s b)) k \<noteq> None) =
      (snap_last_index (ms_meta (mem_commit_batch s b)) < k \<and> k \<le> mem_last_index s + 1)" for k
    using log_ok_get [OF ok, of k] log_ok_snap_le_last [OF ok] b e by auto
  show "snap_last_index (ms_meta (mem_commit_batch s b)) \<le> mem_last_index s + 1"
    using log_ok_snap_le_last [OF ok] b by simp
  show "le_index x = k" if "bt_get (ms_log (mem_commit_batch s b)) k = Some x" for k x
    using that log_ok_le_index [OF ok, of k x] b e by (auto split: if_splits)
qed

lemma log_ok_compact:
  assumes ok: "log_ok s" and b: "wb_truncate_after b = None" "wb_compact_to b = Some (i, t)"
    "wb_appends b = []" "wb_meta b = Some m" "snap_last_index m = i"
    and i: "snap_last_index (ms_meta s) \<le> i"
  shows "log_ok (mem_commit_batch s b) \<and> mem_last_index (mem_commit_batch s b) = max i (mem_last_index s)"
proof (rule log_okI)
  show "bt_wf (ms_log (mem_commit_batch s b))" using log_ok_wf [OF ok] b by simp
  show "(bt_get (ms_log (mem_commit_batch s b)) k \<noteq> None) =
      (snap_last_index (ms_meta (mem_commit_batch s b)) < k \<and> k \<le> max i (mem_last_index s))" for k
    using log_ok_get [OF ok, of k] i b by auto
  show "snap_last_index (ms_meta (mem_commit_batch s b)) \<le> max i (mem_last_index s)" using b by simp
  show "le_index x = k" if "bt_get (ms_log (mem_commit_batch s b)) k = Some x" for k x
    using that log_ok_le_index [OF ok, of k x] b by (auto split: if_splits)
qed

text \<open>\<open>keeps_log\<close>: the stored log stays contiguous and its snapshot boundary stays the one of
  the worker's scalars.\<close>

definition node_log_ok :: "('s \<Rightarrow> 'n mem_storage) \<Rightarrow> ('n, 's) worker \<Rightarrow> bool" where
  "node_log_ok view w \<longleftrightarrow> log_ok (view (w_storage w))"

lemma node_log_ok_same:
  "node_log_ok view w \<Longrightarrow> w_storage w' = w_storage w \<Longrightarrow> node_log_ok view w'"
  by (simp add: node_log_ok_def)

text \<open>An event that is no AppendEntries reaching below the snapshot boundary.\<close>

definition append_in_window :: "('n, 's) worker \<Rightarrow> 'n event \<Rightarrow> bool" where
  "append_in_window w ev = (case ev of
     EvMsg (MsgAppendEntries _ req) \<Rightarrow> snap_last_index (w_meta w) \<le> ae_prev_log_index req
   | _ \<Rightarrow> True)"

fun appends_in_window ::
  "('n::linorder, 's, 'e) storage_ops \<Rightarrow> (nat \<times> 'n event) list \<Rightarrow> ('n, 's) worker \<times> 'n rpc_call list \<Rightarrow> bool" where
  "appends_in_window S [] wp = True"
| "appends_in_window S ((now, ev) # evs) wp =
     (append_in_window (fst wp) ev \<and>
      (case loop_turn S now ev wp of None \<Rightarrow> True | Some wp' \<Rightarrow> appends_in_window S evs wp'))"

context raft_storage
begin

lemma commit_meta_log_ok:
  assumes ok: "node_log_ok view w" and mirror: "ms_meta (view (w_storage w)) = m0"
    and m: "snap_last_index m = snap_last_index m0" and c: "commit S w1 (meta_batch m) = (r, w')"
    and w1: "w_storage w1 = w_storage w"
  shows "node_log_ok view w'"
proof (cases rule: commit_cases [of w1 "meta_batch m"])
  case (ok s')
  then have "log_ok (view s') = log_ok (view (w_storage w))"
    using mirror m w1 by (intro log_ok_cong) simp_all
  with ok c assms(1) show ?thesis by (auto simp: node_log_ok_def)
qed (use assms in \<open>auto simp: node_log_ok_def\<close>)

lemma persist_term_bump_log_ok:
  assumes "node_log_ok view w" and "worker_inv view w"
  shows "node_log_ok view (snd (persist_term_bump S w t))"
proof (cases "commit S w (meta_batch ((w_meta w)\<lparr>current_term := t, voted_for := None\<rparr>))")
  case (Pair r w')
  have "node_log_ok view w'"
    by (rule commit_meta_log_ok [OF assms(1) _ _ Pair]) (use assms(2) in \<open>simp_all add: worker_inv_def\<close>)
  with Pair show ?thesis
    by (cases r) (auto simp: persist_term_bump_def Let_def node_log_ok_def)
qed

lemma term_bump_step_down_log_ok:
  assumes "node_log_ok view w" and "worker_inv view w"
  shows "node_log_ok view (snd (term_bump_step_down S w t))"
  using persist_term_bump_log_ok [OF assms, of t]
  by (auto simp: term_bump_step_down_def node_log_ok_def split: prod.splits sum.splits)

lemma commit_push_log_ok:
  assumes ok: "node_log_ok view w" and b: "wb_truncate_after b = None" "wb_compact_to b = None"
    "wb_meta b = None" "length (wb_appends b) = 1"
    "le_index (hd (wb_appends b)) = st_last_index S (w_storage w) + 1"
    and c: "commit S w b = (r, w')"
  shows "node_log_ok view w'"
proof (cases rule: commit_cases [of w b])
  case (ok s')
  have "wb_appends b = [hd (wb_appends b)]" using b(4) by (cases "wb_appends b") simp_all
  from log_ok_push [OF _ b(1-3) this] ok b(5) c assms(1) show ?thesis
    by (simp add: node_log_ok_def last_index)
qed (use assms in \<open>auto simp: node_log_ok_def\<close>)

lemma auto_finalize_log_ok:
  assumes "node_log_ok view w"
  shows "node_log_ok view (snd (auto_finalize_joint_config S w))"
proof -
  let ?i = "st_last_index S (w_storage w) + 1" and ?ms = "ac_current (w_effective_cfg w)"
  let ?b = "write_batch_default\<lparr>wb_appends := [entry_config_change ?i (current_term (w_meta w)) None ?ms],
            wb_active_config := Some \<lparr>acr_log_index = Some ?i, acr_current = ?ms, acr_joint_old = None\<rparr>\<rparr>"
  obtain r w' where c: "commit S w ?b = (r, w')" by fastforce
  have "node_log_ok view w'" by (rule commit_push_log_ok [OF assms _ _ _ _ _ c]) simp_all
  with c assms show ?thesis
    by (cases r) (auto simp: auto_finalize_joint_config_def Let_def node_log_ok_def split: option.split)
qed

lemma try_advance_log_ok:
  assumes ok: "node_log_ok view w" and inv: "worker_inv view w"
  shows "node_log_ok view (snd (try_advance_commit_index S w))"
proof (cases "match_index_majority_floor S w")
  case (Some f)
  let ?m = "(w_meta w)\<lparr>commit_index := f\<rparr>"
  obtain r w2 where c: "commit S (w\<lparr>w_meta := ?m\<rparr>) (meta_batch ?m) = (r, w2)" by fastforce
  have w2: "node_log_ok view w2"
    by (rule commit_meta_log_ok [OF ok _ _ c]) (use inv in \<open>simp_all add: worker_inv_def\<close>)
  then have "node_log_ok view (snd (auto_finalize_joint_config S (fire_apply_notification w2)))"
    by (intro auto_finalize_log_ok) (simp add: node_log_ok_def)
  with w2 c Some ok show ?thesis
    by (cases r) (auto simp: try_advance_commit_index_def node_log_ok_def split: sum.split)
qed (use ok in \<open>simp add: try_advance_commit_index_def\<close>)

lemma become_leader_log_ok:
  assumes ok: "node_log_ok view w" and inv: "worker_inv view w" and role: "w_role w \<noteq> Leader"
  shows "node_log_ok view (snd (become_leader_no_heartbeat S w))"
proof -
  let ?i = "st_last_index S (w_storage w) + 1"
  let ?b = "write_batch_default\<lparr>wb_appends := [entry_data ?i (current_term (w_meta w)) []]\<rparr>"
  obtain r w1 where c: "commit S w ?b = (r, w1)" by fastforce
  have w1: "node_log_ok view w1" by (rule commit_push_log_ok [OF ok _ _ _ _ _ c]) simp_all
  show ?thesis
  proof (cases rule: commit_cases [of w ?b])
    case (ok s')
    let ?w2 = "(set_role Leader (w\<lparr>w_storage := s'\<rparr>))\<lparr>w_votes_received := [],
                 w_leader := Some (leader_state_fresh (all_members (w_effective_cfg w))
                                    (cfg_me (w_cfg w)) (st_last_index S (w_storage w))),
                 w_seen_leader := Some (cfg_me (w_cfg w)),
                 w_current_term_first_index := Some ?i\<rparr>"
    have "worker_inv view ?w2" using inv ok by (simp add: worker_inv_def)
    moreover have "node_log_ok view ?w2" using w1 c ok by (simp add: node_log_ok_def)
    ultimately show ?thesis using try_advance_log_ok [of ?w2] ok
      by (simp add: become_leader_no_heartbeat_def Let_def)
  qed (use w1 c in \<open>auto simp: become_leader_no_heartbeat_def Let_def\<close>)
qed

text \<open>An AppendEntries whose \<open>prev_log_index\<close> is not below the snapshot boundary.\<close>

lemma handle_append_log_ok:
  assumes ok: "node_log_ok view w" and inv: "worker_inv view w"
    and prev: "snap_last_index (w_meta w) \<le> ae_prev_log_index req"
  shows "node_log_ok view (snd (handle_append_entries S w req))"
proof -
  obtain r w' where h: "handle_append_entries S w req = (r, w')" by fastforce
  have mirror: "ms_meta (view (w_storage w)) = w_meta w" using inv by (simp add: worker_inv_def)
  show ?thesis
  proof (cases "\<exists>resp. r = Inr resp \<and> ar_success resp")
    case True
    with handle_append_success [OF _ _ mirror, of req _ w'] h obtain c k cfg where
      scan: "scan_result (view (w_storage w)) (ae_prev_log_index req + 1) (ae_entries req) (c, k)"
      and v: "view (w_storage w') = mem_commit_batch (view (w_storage w))
         (append_batch (ae_prev_log_index req) (ae_entries req) (c, k) (w_meta w') cfg)"
      and t: "mem_term_at (view (w_storage w)) (ae_prev_log_index req) \<noteq> None"
      and m: "snap_last_index (w_meta w') = snap_last_index (w_meta w)" by auto
    from append_batch_log_ok [OF _ _ t scan, of "w_meta w'" cfg] ok prev m mirror v h
    show ?thesis by (simp add: node_log_ok_def)
  next
    case False
    define w1 where "w1 = follow_leader (ae_leader req) (append_adopt_term (ae_term req) w)"
    have w1: "w_storage w1 = w_storage w" "snap_last_index (w_meta w1) = snap_last_index (w_meta w)"
      by (simp_all add: w1_def)
    obtain r2 w2 where c: "commit S w1 (meta_batch (w_meta w1)) = (r2, w2)" by fastforce
    have w2: "node_log_ok view w2" by (rule commit_meta_log_ok [OF ok mirror w1(2) c w1(1)])
    have cons: "node_log_ok view (snd (append_consistent S w1 (w_meta w) req))"
      if "append_consistent S w1 (w_meta w) req = (Inl e, w3)" for e w3
      using append_consistent_err [OF that] ok w1 that by (simp add: node_log_ok_def)
    have "append_consistent S w1 (w_meta w) req \<noteq> (Inr resp, w3)"
      if "handle_append_entries S w req = append_consistent S w1 (w_meta w) req" for resp w3
      using append_consistent_success [of w1 "w_meta w" req resp w3] False h that by auto
    then have "node_log_ok view (snd (append_consistent S w1 (w_meta w) req))"
      if "handle_append_entries S w req = append_consistent S w1 (w_meta w) req"
      using that cons by (cases "append_consistent S w1 (w_meta w) req") (metis sum.exhaust)
    then show ?thesis using w2 c ok w1
      by (cases r2) (auto simp: handle_append_entries_def w1_def [symmetric] Let_def node_log_ok_def
          split: sum.splits)
  qed
qed

lemma commit_snapshot_log_ok:
  assumes ok: "node_log_ok view w" and inv: "worker_inv view w"
    and fwd: "is_last_included_index req > snap_last_index (w_meta w)"
  shows "node_log_ok view (snd (commit_snapshot S w m req bs))"
proof (cases "supplied_config_index req")
  case (Some supplied)
  let ?m1 = "install_meta (w_meta w) req"
  let ?b = "write_batch_default\<lparr>
              wb_compact_to := Some (is_last_included_index req, is_last_included_term req),
              wb_state := Some bs, wb_meta := Some ?m1,
              wb_active_config := Some (snapshot_record m (w\<lparr>w_meta := ?m1\<rparr>) req supplied)\<rparr>"
  have "log_ok (mem_commit_batch (view (w_storage w)) ?b)"
    using log_ok_compact [of "view (w_storage w)" ?b] ok inv fwd
    by (simp add: node_log_ok_def worker_inv_def install_meta_def)
  then show ?thesis
    by (cases rule: commit_cases [of "w\<lparr>w_meta := ?m1\<rparr>" ?b])
      (use Some ok in \<open>simp_all add: commit_snapshot_def node_log_ok_def Let_def\<close>)
qed (use ok in \<open>simp add: commit_snapshot_def\<close>)

lemma install_at_term_log_ok:
  assumes ok: "node_log_ok view w" and inv: "worker_inv view w"
  shows "node_log_ok view (snd (install_at_term S w from req))"
proof -
  let ?w1 = "follow_leader (is_leader req) w"
  have "node_log_ok view (snd (commit_snapshot S (?w1\<lparr>w_incoming_snapshot := None\<rparr>) m req b))"
    if "is_last_included_index req > snap_last_index (w_meta w)" for m b
    using that ok inv worker_stepD [OF follow_leader_step [OF inv]]
    by (intro commit_snapshot_log_ok) (simp_all add: node_log_ok_def worker_inv_def)
  moreover have "st_snap_last_index S (w_storage w) = snap_last_index (w_meta w)"
    using inv by (simp add: snap_index worker_inv_def)
  ultimately show ?thesis using ok
    by (simp add: install_at_term_def receive_chunk_def Let_def node_log_ok_def)
qed

lemma handle_install_snapshot_log_ok:
  assumes ok: "node_log_ok view w" and inv: "worker_inv view w"
  shows "node_log_ok view (snd (handle_install_snapshot S w from req))"
proof (cases "is_term req > current_term (w_meta w)")
  case True
  obtain r w1 where p: "persist_term_bump S w (is_term req) = (r, w1)" by fastforce
  have w1: "node_log_ok view w1" "worker_inv view w1"
    using persist_term_bump_log_ok [OF ok inv, of "is_term req"]
      worker_stepD [OF persist_term_bump_step [OF inv True]] p by simp_all
  then have "node_log_ok view (snd (install_at_term S (w1\<lparr>w_seen_leader := None, w_incoming_snapshot := None\<rparr>) from req))"
    by (intro install_at_term_log_ok) (simp_all add: node_log_ok_def worker_inv_def)
  with w1 p True show ?thesis by (cases r) (simp_all add: handle_install_snapshot_def)
qed (use ok install_at_term_log_ok [OF ok inv] in \<open>simp add: handle_install_snapshot_def\<close>)

lemma handle_request_vote_log_ok:
  assumes ok: "node_log_ok view w" and inv: "worker_inv view w"
  shows "node_log_ok view (snd (handle_request_vote S w req))"
proof -
  let ?w1 = "vote_term_state req w"
  let ?w2 = "vote_cast req (vote_grant S ?w1 req) ?w1"
  have w2: "w_storage ?w2 = w_storage w" "snap_last_index (w_meta ?w2) = snap_last_index (w_meta w)"
    using vote_cast_inv [OF inv] by simp_all
  obtain r w3 where c: "commit S ?w2 (meta_batch (w_meta ?w2)) = (r, w3)" by fastforce
  have "node_log_ok view w3"
    by (rule commit_meta_log_ok [OF ok _ w2(2) c w2(1)]) (use inv in \<open>simp add: worker_inv_def\<close>)
  with ok w2 c show ?thesis
    by (cases r) (auto simp: handle_request_vote_def Let_def node_log_ok_def)
qed

subsection \<open>The leader's side\<close>

lemma handle_append_response_log_ok:
  assumes ok: "node_log_ok view w" and inv: "worker_inv view w"
  shows "node_log_ok view (snd (handle_append_response S w from resp))"
proof -
  have adv: "node_log_ok view (snd (try_advance_commit_index S (w\<lparr>w_leader := Some l'\<rparr>)))"
    if "w_leader w = Some l" for l l'
    using ok inv that by (intro try_advance_log_ok) (auto simp: node_log_ok_def worker_inv_def)
  have "node_log_ok view (snd (case try_advance_commit_index S (w\<lparr>w_leader := Some l'\<rparr>) of
        (Inl e, w2) \<Rightarrow> (Inl e, w2) | (Inr _, w2) \<Rightarrow> (Inr (), try_resolve_pending_reads S w2)))"
    if "w_leader w = Some l" for l l'
    using adv [OF that, of l'] by (auto simp: node_log_ok_def split: prod.split sum.split)
  with ok term_bump_step_down_log_ok [OF ok inv] show ?thesis
    by (auto simp: handle_append_response_def Let_def node_log_ok_def split: option.split)
qed

lemma handle_install_snapshot_response_log_ok:
  assumes ok: "node_log_ok view w" and inv: "worker_inv view w"
  shows "node_log_ok view (snd (handle_install_snapshot_response S w from resp i t e f))"
  using ok term_bump_step_down_log_ok [OF ok inv]
  by (auto simp: handle_install_snapshot_response_def Let_def node_log_ok_def split: option.split)

lemma handle_vote_response_log_ok:
  assumes ok: "node_log_ok view w" and inv: "worker_inv view w"
  shows "node_log_ok view (snd (handle_vote_response S w from resp))"
proof -
  let ?w1 = "w\<lparr>w_votes_received := bs_insert from (w_votes_received w)\<rparr>"
  have "node_log_ok view (snd (become_leader_no_heartbeat S ?w1))" if "w_role w = Candidate"
    using ok inv that by (intro become_leader_log_ok) (simp_all add: node_log_ok_def worker_inv_def)
  with ok term_bump_step_down_log_ok [OF ok inv] show ?thesis
    by (auto simp: handle_vote_response_def Let_def node_log_ok_def split: prod.split sum.split)
qed

lemma handle_prevote_response_log_ok:
  assumes ok: "node_log_ok view w" and inv: "worker_inv view w"
  shows "node_log_ok view (snd (handle_prevote_response S w from nt resp))"
  using ok term_bump_step_down_log_ok [OF ok inv]
  by (auto simp: handle_prevote_response_def Let_def node_log_ok_def)

lemma handle_propose_log_ok:
  assumes ok: "node_log_ok view w" and inv: "worker_inv view w"
  shows "node_log_ok view (snd (handle_propose S w payload))"
proof -
  let ?b = "write_batch_default\<lparr>wb_appends :=
              [entry_data (st_last_index S (w_storage w) + 1) (current_term (w_meta w)) payload]\<rparr>"
  obtain r w1 where c: "commit S w ?b = (r, w1)" by fastforce
  have w1: "node_log_ok view w1" by (rule commit_push_log_ok [OF ok _ _ _ _ _ c]) simp_all
  have "worker_inv view w1"
    by (cases rule: commit_cases [of w ?b]) (use inv c in \<open>auto simp: worker_inv_def\<close>)
  from try_advance_log_ok [OF w1 this] w1 c ok show ?thesis
    by (cases r) (simp_all add: handle_propose_def Let_def)
qed

lemma handle_change_membership_log_ok:
  assumes ok: "node_log_ok view w" and inv: "worker_inv view w"
  shows "node_log_ok view (snd (handle_change_membership S w ms))"
proof -
  let ?i = "st_last_index S (w_storage w) + 1" and ?old = "ac_current (w_effective_cfg w)"
  let ?b = "write_batch_default\<lparr>wb_appends := [entry_config_change ?i (current_term (w_meta w)) (Some ?old) ms],
              wb_active_config := Some \<lparr>acr_log_index = Some ?i, acr_current = ms, acr_joint_old = Some ?old\<rparr>\<rparr>"
  obtain r w1 where c: "commit S w ?b = (r, w1)" by fastforce
  have w1: "node_log_ok view w1" by (rule commit_push_log_ok [OF ok _ _ _ _ _ c]) simp_all
  let ?w2 = "adopt_config S \<lparr>ac_current = ms, ac_joint_old = Some ?old\<rparr> (Some ?i) (Some ?i) w1"
  have "worker_inv view ?w2"
    by (cases rule: commit_cases [of w ?b]) (use inv c in \<open>auto simp: worker_inv_def\<close>)
  with try_advance_log_ok [of ?w2] w1 c ok show ?thesis
    by (cases r) (simp_all add: handle_change_membership_def Let_def node_log_ok_def)
qed

lemma commit_compaction_log_ok:
  assumes ok: "node_log_ok view w" and inv: "worker_inv view w" and i: "snap_last_index (w_meta w) \<le> i"
  shows "node_log_ok view (snd (commit_compaction S w i t))"
proof -
  let ?m = "(w_meta w)\<lparr>snap_last_index := i, snap_last_term := t\<rparr>"
  let ?b = "write_batch_default\<lparr>wb_compact_to := Some (i, t), wb_meta := Some ?m\<rparr>"
  have "log_ok (mem_commit_batch (view (w_storage w)) ?b)"
    using log_ok_compact [of "view (w_storage w)" ?b i t ?m] ok inv i
    by (simp add: node_log_ok_def worker_inv_def)
  then show ?thesis
    by (cases rule: commit_cases [of "w\<lparr>w_meta := ?m\<rparr>" ?b])
      (use ok in \<open>simp_all add: commit_compaction_def node_log_ok_def\<close>)
qed

lemma try_compact_log_ok:
  assumes ok: "node_log_ok view w" and inv: "worker_inv view w"
  shows "node_log_ok view (snd (try_compact S w))"
proof (cases rule: try_compact_cases [of w])
  case (compact i t majority applied)
  have "snap_last_index (w_meta w) \<le> i" using compact(7) inv by (simp add: snap_index worker_inv_def)
  with compact commit_compaction_log_ok [OF ok inv] show ?thesis by simp
qed (use ok in simp)

lemma heartbeat_peers_storage: "w_storage (fst (snd (heartbeat_peers S l ps w pending))) = w_storage w"
proof (induction ps arbitrary: w pending)
  case (Cons peer peers)
  have "w_storage (snd (send_snapshot_chunk S w peer i t)) = w_storage w" for i t
    by (auto simp: send_snapshot_chunk_def Let_def case_prod_beta split: option.splits)
  with Cons show ?case by (auto simp: Let_def case_prod_beta split: sum.split)
qed simp

lemma send_heartbeats_log_ok:
  assumes ok: "node_log_ok view w" and inv: "worker_inv view w"
  shows "node_log_ok view (fst (snd (send_heartbeats S w pending)))"
proof (cases "w_leader w")
  case (Some l)
  obtain r w1 p1 where h: "heartbeat_peers S l (all_members (w_effective_cfg w)) w pending = (r, w1, p1)"
    using prod_cases3 by blast
  have "worker_inv view w1"
    using worker_stepD [OF heartbeat_peers_step [OF inv, of l "all_members (w_effective_cfg w)" pending]] h by simp
  moreover have w1: "node_log_ok view w1"
    using heartbeat_peers_storage [of l "all_members (w_effective_cfg w)" w pending] h ok
    by (simp add: node_log_ok_def)
  ultimately have "node_log_ok view (snd (try_compact S w1))" by (intro try_compact_log_ok)
  with w1 h Some show ?thesis
    by (cases r) (simp_all add: send_heartbeats_def case_prod_beta Let_def node_log_ok_def)
qed (use ok in \<open>simp add: send_heartbeats_def\<close>)

lemma handle_read_index_log_ok:
  assumes ok: "node_log_ok view w" and inv: "worker_inv view w"
  shows "node_log_ok view (fst (handle_read_index S w pending timeout reply))"
proof (cases "w_role w = Leader \<and> length (w_pending_read_index w) < max_pending_reads (w_cfg w)")
  case False
  then show ?thesis using ok by (auto simp: handle_read_index_def Let_def node_log_ok_def not_less)
next
  case True
  let ?p = "\<lambda>r d. w_pending_read_index w @ [\<lparr>pri_required_index = r, pri_deadline = d, pri_reply = reply\<rparr>]"
  have "node_log_ok view (fst (snd (send_heartbeats S (w\<lparr>w_pending_read_index := ?p r d\<rparr>) pending)))"
    "node_log_ok view (fst (snd (send_heartbeats S ((snd (clock_now w))\<lparr>w_pending_read_index := ?p r d\<rparr>) pending)))"
    for r d
    using ok inv True by (intro send_heartbeats_log_ok; simp add: node_log_ok_def worker_inv_def)+
  with ok True show ?thesis
    by (cases timeout) (simp_all add: handle_read_index_def Let_def case_prod_beta node_log_ok_def)
qed

lemma start_election_log_ok:
  assumes ok: "node_log_ok view w" and inv: "worker_inv view w" and role: "w_role w \<noteq> Leader"
  shows "node_log_ok view (fst (snd (start_election S w pending)))"
proof -
  let ?me = "cfg_me (w_cfg w)"
  let ?m = "(w_meta w)\<lparr>current_term := current_term (w_meta w) + 1, voted_for := Some ?me\<rparr>"
  let ?w1 = "(set_role Candidate w)\<lparr>w_meta := ?m\<rparr>"
  have mirror: "ms_meta (view (w_storage w)) = w_meta w" using inv by (simp add: worker_inv_def)
  obtain r w2 where c: "commit S ?w1 (meta_batch ?m) = (r, w2)" by fastforce
  have w2: "node_log_ok view w2" by (rule commit_meta_log_ok [OF ok mirror _ c]) simp_all
  let ?w3 = "w2\<lparr>w_votes_received := bs_insert ?me []\<rparr>"
  have "node_log_ok view (snd (become_leader_no_heartbeat S ?w3))" if "r = Inr u" for u
  proof (rule become_leader_log_ok)
    show "worker_inv view ?w3" "w_role ?w3 \<noteq> Leader"
      by (cases rule: commit_cases [of ?w1 "meta_batch ?m"];
          use inv role c that in \<open>auto simp: worker_inv_def\<close>)+
  qed (use w2 in \<open>simp add: node_log_ok_def\<close>)
  with w2 c ok show ?thesis
    by (cases r) (auto simp: start_election_def Let_def node_log_ok_def commit_meta [OF c]
        split: prod.split sum.split)
qed

lemma on_timer_log_ok:
  assumes ok: "node_log_ok view w" and inv: "worker_inv view w"
  shows "node_log_ok view (fst (on_timer S w pending))"
proof -
  have pre: "node_log_ok view (fst (snd (start_pre_election S w' pending)))"
    if "node_log_ok view w'" "worker_inv view w'" "w_role w' \<noteq> Leader" for w'
    using start_election_log_ok [OF that, of pending] that(1)
    by (simp add: start_pre_election_def Let_def node_log_ok_def)
  let ?w1 = "w\<lparr>w_pre_candidate_misses := sat_add_u32 (w_pre_candidate_misses w) 1\<rparr>"
  have "node_log_ok view ?w1" "worker_inv view ?w1"
    using ok inv by (simp_all add: node_log_ok_def worker_inv_def)
  with pre [of w] pre [of ?w1] start_election_log_ok [OF ok inv, of pending]
    send_heartbeats_log_ok [OF ok inv, of pending] ok inv
  show ?thesis by (cases "w_role w") (simp_all add: on_timer_def Let_def node_log_ok_def)
qed

lemma on_worker_timer_log_ok:
  assumes ok: "node_log_ok view w" and inv: "worker_inv view w"
  shows "node_log_ok view (fst (on_worker_timer S w pending))"
proof -
  let ?w2 = "expire_pending_reads (fst (clock_now w)) (snd (clock_now w))"
  have "worker_inv view ?w2"
    using inv by (auto simp: worker_inv_def intro: le_trans [OF length_filter_le])
  moreover have w2: "node_log_ok view ?w2" using ok by (simp add: node_log_ok_def)
  ultimately show ?thesis using on_timer_log_ok [of ?w2 pending]
    by (simp add: on_worker_timer_def case_prod_beta Let_def)
qed

subsection \<open>The whole worker\<close>

lemma handle_rpc_outcome_log_ok:
  assumes ok: "node_log_ok view w" and inv: "worker_inv view w"
  shows "node_log_ok view (handle_rpc_outcome S w out)"
  using ok handle_append_response_log_ok [OF assms] handle_vote_response_log_ok [OF assms]
    handle_prevote_response_log_ok [OF assms] handle_install_snapshot_response_log_ok [OF assms]
  by (simp add: handle_rpc_outcome_def split: rpc_outcome.split option.split)

lemma handle_msg_log_ok:
  assumes ok: "node_log_ok view w" and inv: "worker_inv view w"
    and win: "append_in_window w (EvMsg msg)"
  shows "node_log_ok view (fst (snd (handle_msg S w pending msg)))"
proof -
  have pv: "node_log_ok view (snd (handle_request_prevote S w req))" for req
    using ok by (auto simp: handle_request_prevote_def Let_def case_prod_beta node_log_ok_def)
  show ?thesis
    using win ok pv handle_append_log_ok [OF ok inv] handle_request_vote_log_ok [OF ok inv]
      handle_install_snapshot_log_ok [OF ok inv] handle_propose_log_ok [OF ok inv]
      handle_change_membership_log_ok [OF ok inv] handle_read_index_log_ok [OF ok inv]
    by (cases msg) (simp_all add: handle_msg_def case_prod_beta Let_def append_in_window_def)
qed

lemma loop_turn_log_ok:
  assumes ok: "node_log_ok view w" and inv: "worker_inv view w" and win: "append_in_window w ev"
    and turn: "loop_turn S now ev (w, pending) = Some (w', pending')"
  shows "node_log_ok view w'"
proof -
  have pub: "node_log_ok view (publish_status S now x)" if "node_log_ok view x" for x
    using that by (simp add: node_log_ok_def)
  show ?thesis
  proof (cases ev)
    case (EvMsg m)
    with turn have "w' = publish_status S now (fst (snd (handle_msg S w pending m)))"
      by (auto simp: loop_turn_def case_prod_beta Let_def split: raft_msg.splits)
    with pub [OF handle_msg_log_ok [OF ok inv]] win EvMsg show ?thesis by simp
  qed (use turn pub [OF on_worker_timer_log_ok [OF ok inv]] pub [OF handle_rpc_outcome_log_ok [OF ok inv]]
      in \<open>auto simp: loop_turn_def case_prod_beta Let_def\<close>)
qed

text \<open>A run in which every turn is admissible at the state it meets.\<close>

lemma loop_run_log_ok:
  assumes "node_log_ok view w" "worker_inv view w" "appends_in_window S evs (w, pending)"
    and "loop_run S evs (w, pending) = Some (w', pending')"
  shows "node_log_ok view w'"
  using assms
proof (induction evs arbitrary: w pending)
  case (Cons e evs)
  obtain now ev where e: "e = (now, ev)" by (cases e)
  with Cons.prems obtain w1 p1 where turn: "loop_turn S now ev (w, pending) = Some (w1, p1)"
    and rest: "loop_run S evs (w1, p1) = Some (w', pending')" "appends_in_window S evs (w1, p1)"
    and win: "append_in_window w ev" by (auto split: option.splits)
  show ?case
    by (rule Cons.IH [OF loop_turn_log_ok [OF Cons.prems(1,2) win turn]
          worker_stepD [OF loop_turn_step [OF Cons.prems(2) turn]] rest(2,1)])
qed simp

end

end
