(* ===== verification/Raft_Range.thy ===== *)
theory Raft_Range
  imports Raft_Log
begin

text \<open>
  How fast the counters of a worker grow. Terms and indices are \<open>u64\<close> in the code and natural
  numbers in the model; the two agree as long as no sum reaches \<open>2 ^ 64\<close>. One turn of the loop
  raises the term at most one above the larger of its own and the one the event carries, and the
  last index at most two above the larger of its own and those the event names. A run of \<open>n\<close>
  events that start and arrive below \<open>2 ^ 64 - 2 * n\<close> therefore never wraps.
\<close>

section \<open>What an event carries\<close>

definition event_term :: "'n event \<Rightarrow> nat" where
  "event_term ev = (case ev of
     EvMsg (MsgAppendEntries _ req) \<Rightarrow> ae_term req
   | EvMsg (MsgRequestVote _ req) \<Rightarrow> rv_term req
   | EvMsg (MsgPreVote _ req) \<Rightarrow> pv_next_term req
   | EvMsg (MsgInstallSnapshot _ req) \<Rightarrow> is_term req
   | EvOutcome _ (OutAppend _ (Some resp)) \<Rightarrow> ar_term resp
   | EvOutcome _ (OutVote _ (Some resp)) \<Rightarrow> vr_term resp
   | EvOutcome _ (OutPreVote _ _ (Some resp)) \<Rightarrow> pr_term resp
   | EvOutcome _ (OutInstall _ (Some resp) _ _ _ _) \<Rightarrow> ir_term resp
   | _ \<Rightarrow> 0)"

definition event_index :: "'n event \<Rightarrow> nat" where
  "event_index ev = (case ev of
     EvMsg (MsgAppendEntries _ req) \<Rightarrow> ae_prev_log_index req + length (ae_entries req)
   | EvMsg (MsgInstallSnapshot _ req) \<Rightarrow> is_last_included_index req
   | EvOutcome _ (OutAppend _ (Some resp)) \<Rightarrow> ar_match_index resp
   | EvOutcome _ (OutInstall _ _ i _ _ _) \<Rightarrow> i
   | _ \<Rightarrow> 0)"

section \<open>Terms\<close>

lemma auto_finalize_term [simp]:
  "current_term (w_meta (snd (auto_finalize_joint_config S w))) = current_term (w_meta w)"
  by (auto simp: auto_finalize_joint_config_def Let_def dest: commit_meta split: option.split prod.split sum.split)

lemma try_advance_term [simp]:
  "current_term (w_meta (snd (try_advance_commit_index S w))) = current_term (w_meta w)"
  by (auto simp: try_advance_commit_index_def Let_def dest: commit_meta split: option.split prod.split sum.split)

lemma become_leader_term [simp]:
  "current_term (w_meta (snd (become_leader_no_heartbeat S w))) = current_term (w_meta w)"
  by (auto simp: become_leader_no_heartbeat_def Let_def dest: commit_meta split: prod.split sum.split)

lemma persist_term_bump_term:
  "current_term (w_meta (snd (persist_term_bump S w t))) \<in> {current_term (w_meta w), t}"
  by (auto simp: persist_term_bump_def Let_def dest: commit_meta split: prod.split sum.split)

lemma term_bump_step_down_term:
  "current_term (w_meta (snd (term_bump_step_down S w t))) \<in> {current_term (w_meta w), t}"
  using persist_term_bump_term [of S w t]
  by (auto simp: term_bump_step_down_def split: prod.split sum.split)

lemma append_consistent_term:
  "current_term (w_meta (snd (append_consistent S w m req))) \<in> {current_term (w_meta w), current_term m}"
  by (auto simp: append_consistent_def Let_def dest!: commit_meta split: prod.split sum.split option.split)

lemma handle_append_entries_term:
  "current_term (w_meta (snd (handle_append_entries S w req))) \<in> {current_term (w_meta w), ae_term req}"
proof -
  let ?w1 = "follow_leader (ae_leader req) (append_adopt_term (ae_term req) w)"
  show ?thesis
    using append_consistent_term [of S ?w1 "w_meta w" req]
    by (auto simp: handle_append_entries_def Let_def dest!: commit_meta split: prod.split sum.split)
qed

lemma handle_request_vote_term:
  "current_term (w_meta (snd (handle_request_vote S w req))) \<in> {current_term (w_meta w), rv_term req}"
  by (auto simp: handle_request_vote_def vote_cast_def vote_term_state_def Let_def dest!: commit_meta
      split: prod.split sum.split)

lemma handle_request_prevote_term [simp]:
  "current_term (w_meta (snd (handle_request_prevote S w req))) = current_term (w_meta w)"
  by (simp add: handle_request_prevote_def Let_def case_prod_beta)

lemma install_at_term_term [simp]:
  "current_term (w_meta (snd (install_at_term S w from req))) = current_term (w_meta w)"
  by (auto simp: install_at_term_def receive_chunk_def commit_snapshot_def install_meta_def Let_def dest!: commit_meta
      split: prod.split sum.split option.split)

lemma handle_install_snapshot_term:
  "current_term (w_meta (snd (handle_install_snapshot S w from req))) \<in> {current_term (w_meta w), is_term req}"
  using persist_term_bump_term [of S w "is_term req"]
  by (auto simp: handle_install_snapshot_def split: prod.split sum.split)

lemma handle_append_response_term:
  "current_term (w_meta (snd (handle_append_response S w from resp))) \<in> {current_term (w_meta w), ar_term resp}"
proof -
  have "current_term (w_meta (snd (case try_advance_commit_index S w1 of (Inl e, w2) \<Rightarrow> (Inl e, w2)
      | (Inr _, w2) \<Rightarrow> (Inr (), try_resolve_pending_reads S w2)))) = current_term (w_meta w1)" for w1
    using try_advance_term [of S w1] by (auto simp del: try_advance_term split: prod.split sum.split)
  then show ?thesis
    using term_bump_step_down_term [of S w "ar_term resp"]
    by (auto simp: handle_append_response_def Let_def split: option.split)
qed

lemma handle_vote_response_term:
  "current_term (w_meta (snd (handle_vote_response S w from resp))) \<in> {current_term (w_meta w), vr_term resp}"
proof -
  have "current_term (w_meta (snd (case become_leader_no_heartbeat S w1 of (Inl e, w2) \<Rightarrow> (Inl e, w2)
      | (Inr _, w2) \<Rightarrow> (Inr (), deadline_now w2)))) = current_term (w_meta w1)" for w1
    using become_leader_term [of S w1] by (auto simp del: become_leader_term split: prod.split sum.split)
  then show ?thesis
    using term_bump_step_down_term [of S w "vr_term resp"]
    by (auto simp: handle_vote_response_def Let_def)
qed

lemma handle_prevote_response_term:
  "current_term (w_meta (snd (handle_prevote_response S w from nt resp))) \<in> {current_term (w_meta w), pr_term resp}"
  using term_bump_step_down_term [of S w "pr_term resp"]
  by (auto simp: handle_prevote_response_def Let_def)

lemma handle_install_snapshot_response_term:
  "current_term (w_meta (snd (handle_install_snapshot_response S w from resp i t e f))) \<in> {current_term (w_meta w), ir_term resp}"
  using term_bump_step_down_term [of S w "ir_term resp"]
  by (auto simp: handle_install_snapshot_response_def Let_def split: option.split)

lemma handle_propose_term [simp]:
  "current_term (w_meta (snd (handle_propose S w payload))) = current_term (w_meta w)"
  by (auto simp: handle_propose_def Let_def dest!: commit_meta split: prod.split sum.split)

lemma handle_change_membership_term [simp]:
  "current_term (w_meta (snd (handle_change_membership S w ms))) = current_term (w_meta w)"
  by (auto simp: handle_change_membership_def Let_def dest!: commit_meta split: prod.split sum.split)

lemma try_compact_term [simp]: "current_term (w_meta (snd (try_compact S w))) = current_term (w_meta w)"
  by (auto simp: try_compact_def commit_compaction_def Let_def dest!: commit_meta split: prod.split sum.split option.split)

lemma heartbeat_peers_meta [simp]: "w_meta (fst (snd (heartbeat_peers S l ps w pending))) = w_meta w"
proof (induction ps arbitrary: w pending)
  case (Cons peer peers)
  have "w_meta (snd (send_snapshot_chunk S w peer i t)) = w_meta w" for i t
    by (auto simp: send_snapshot_chunk_def Let_def case_prod_beta split: option.splits)
  with Cons show ?case by (auto simp: Let_def case_prod_beta split: sum.split)
qed simp

lemma send_heartbeats_term [simp]:
  "current_term (w_meta (fst (snd (send_heartbeats S w pending)))) = current_term (w_meta w)"
proof (cases "w_leader w")
  case (Some l)
  obtain r w1 p1 where h: "heartbeat_peers S l (all_members (w_effective_cfg w)) w pending = (r, w1, p1)"
    using prod_cases3 by blast
  with heartbeat_peers_meta [of S l "all_members (w_effective_cfg w)" w pending] have "w_meta w1 = w_meta w" by simp
  with h Some show ?thesis by (cases r) (simp_all add: send_heartbeats_def Let_def case_prod_beta)
qed (simp add: send_heartbeats_def)

lemma handle_read_index_term [simp]:
  "current_term (w_meta (fst (handle_read_index S w pending timeout reply))) = current_term (w_meta w)"
  by (cases timeout) (simp_all add: handle_read_index_def Let_def case_prod_beta)

lemma become_leader_termD:
  "become_leader_no_heartbeat S w = (r, w') \<Longrightarrow> current_term (w_meta w') = current_term (w_meta w)"
  using become_leader_term [of S w] by simp

lemma start_election_term:
  "current_term (w_meta (fst (snd (start_election S w pending)))) \<le> current_term (w_meta w) + 1"
  by (auto simp: start_election_def Let_def dest!: commit_meta become_leader_termD split: prod.split sum.split)

lemma on_worker_timer_term:
  "current_term (w_meta (fst (on_worker_timer S w pending))) \<le> current_term (w_meta w) + 1"
proof -
  have pre: "current_term (w_meta (fst (snd (start_pre_election S x pending)))) \<le> current_term (w_meta x) + 1" for x
    using start_election_term [of S x pending] by (simp add: start_pre_election_def Let_def)
  have "current_term (w_meta (fst (on_timer S x pending))) \<le> current_term (w_meta x) + 1" for x
    using start_election_term [of S x pending] pre [of x]
      pre [of "x\<lparr>w_pre_candidate_misses := sat_add_u32 (w_pre_candidate_misses x) 1\<rparr>"]
    by (cases "w_role x") (simp_all add: on_timer_def Let_def)
  from this [of "expire_pending_reads (fst (clock_now w)) (snd (clock_now w))"] show ?thesis
    by (simp add: on_worker_timer_def case_prod_beta Let_def)
qed

lemma two_max: "x \<in> {a, b} \<Longrightarrow> x \<le> Suc (max a (b :: nat))"
  by auto

lemmas message_terms = two_max [OF handle_append_entries_term] two_max [OF handle_request_vote_term]
  two_max [OF handle_install_snapshot_term]

lemmas outcome_terms = two_max [OF handle_append_response_term] two_max [OF handle_vote_response_term]
  two_max [OF handle_prevote_response_term] two_max [OF handle_install_snapshot_response_term]

lemma loop_turn_term:
  assumes "loop_turn S now ev (w, pending) = Some (w', pending')"
  shows "current_term (w_meta w') \<le> max (current_term (w_meta w)) (event_term ev) + 1"
proof (cases ev)
  case (EvMsg m)
  with assms have w': "w' = publish_status S now (fst (snd (handle_msg S w pending m)))"
    by (auto simp: loop_turn_def case_prod_beta Let_def split: raft_msg.splits)
  show ?thesis
    unfolding w' EvMsg by (cases m) (simp_all add: handle_msg_def case_prod_beta Let_def event_term_def message_terms)
next
  case EvTimer
  with assms on_worker_timer_term [of S w pending] show ?thesis
    by (auto simp: loop_turn_def case_prod_beta Let_def)
next
  case (EvOutcome i out)
  with assms have w': "w' = publish_status S now (handle_rpc_outcome S w out)"
    by (simp add: loop_turn_def)
  show ?thesis
    unfolding w' EvOutcome by (simp add: handle_rpc_outcome_def event_term_def outcome_terms split: rpc_outcome.split option.split)
next
  case EvInboxClosed
  with assms show ?thesis by (simp add: loop_turn_def)
qed

section \<open>Indices\<close>

text \<open>No index the store holds is above a bound.\<close>

definition store_within :: "nat \<Rightarrow> 'n mem_storage \<Rightarrow> bool" where
  "store_within b s \<longleftrightarrow> snap_last_index (ms_meta s) \<le> b \<and> (\<forall>k. bt_get (ms_log s) k \<noteq> None \<longrightarrow> k \<le> b)"

definition batch_within :: "nat \<Rightarrow> 'n write_batch \<Rightarrow> bool" where
  "batch_within b wb \<longleftrightarrow>
     (\<forall>e \<in> set (wb_appends wb). le_index e \<le> b) \<and> (\<forall>i t. wb_compact_to wb = Some (i, t) \<longrightarrow> i \<le> b) \<and>
     (\<forall>m. wb_meta wb = Some m \<longrightarrow> snap_last_index m \<le> b)"

lemma store_within_mono: "store_within a s \<Longrightarrow> a \<le> b \<Longrightarrow> store_within b s"
  unfolding store_within_def by (meson le_trans)

lemma store_within_last: "store_within b s \<Longrightarrow> mem_last_index s \<le> b"
proof (cases "ms_log s = []")
  case False
  assume within: "store_within b s"
  have "bt_get (ms_log s) (fst (last (ms_log s))) \<noteq> None"
    using False by (simp add: bt_get_None_iff)
  then show ?thesis using within False by (simp add: store_within_def mem_last_index_def bt_last_def case_prod_beta)
qed (simp add: store_within_def mem_last_index_def bt_last_def)

lemma store_within_term_at: "store_within b s \<Longrightarrow> mem_term_at s i = Some t \<Longrightarrow> i \<le> b"
  by (auto simp: store_within_def mem_term_at_def split: if_splits)

lemma mem_commit_within:
  assumes "store_within b s" and "batch_within b wb"
  shows "store_within b (mem_commit_batch s wb)"
proof -
  have "k \<le> b" if "bt_get (ms_log (mem_commit_batch s wb)) k \<noteq> None" for k
  proof (cases "map_of (rev (map (\<lambda>e. (le_index e, e)) (wb_appends wb))) k")
    case None
    then have "bt_get (ms_log s) k \<noteq> None"
      using that by (auto simp: bt_get_insert_all split: option.splits if_splits)
    then show ?thesis using assms(1) by (simp add: store_within_def)
  next
    case (Some e)
    then show ?thesis using assms(2) map_of_SomeD [OF Some] by (auto simp: batch_within_def)
  qed
  moreover have "snap_last_index (ms_meta (mem_commit_batch s wb)) \<le> b"
    using assms by (auto simp: store_within_def batch_within_def split: option.splits)
  ultimately show ?thesis by (simp add: store_within_def)
qed

lemma run_worker_init_storage: "run_worker_init S st c clk rng bs now = Inr w \<Longrightarrow> w_storage w = st"
  by (auto simp: run_worker_init_def Let_def split: sum.splits dest!: arg_cong [where f = w_storage])

definition node_within :: "('s \<Rightarrow> 'n mem_storage) \<Rightarrow> nat \<Rightarrow> ('n, 's) worker \<Rightarrow> bool" where
  "node_within view b w \<longleftrightarrow> store_within b (view (w_storage w))"

lemma node_within_mono: "node_within view a w \<Longrightarrow> a \<le> b \<Longrightarrow> node_within view b w"
  unfolding node_within_def by (rule store_within_mono)

lemma node_within_snap: "node_within view b w \<Longrightarrow> worker_inv view w \<Longrightarrow> snap_last_index (w_meta w) \<le> b"
  by (simp add: node_within_def store_within_def worker_inv_def)

lemma batch_within_meta [simp]: "batch_within b (meta_batch m) \<longleftrightarrow> snap_last_index m \<le> b"
  by (simp add: batch_within_def)

context raft_storage
begin

lemma commit_within:
  assumes "node_within view b w" and "batch_within b wb" and c: "commit S w1 wb = (r, w')" and "w_storage w1 = w_storage w"
  shows "node_within view b w'"
  using assms mem_commit_within [OF _ assms(2), of "view (w_storage w)"]
  by (cases rule: commit_cases [of w1 wb]) (auto simp: node_within_def)

lemma auto_finalize_within:
  assumes "node_within view b w"
  shows "node_within view (b + 1) (snd (auto_finalize_joint_config S w))"
proof -
  have up: "node_within view (b + 1) w" using assms by (rule node_within_mono) simp
  let ?i = "st_last_index S (w_storage w) + 1" and ?ms = "ac_current (w_effective_cfg w)"
  let ?b = "write_batch_default\<lparr>wb_appends := [entry_config_change ?i (current_term (w_meta w)) None ?ms],
            wb_active_config := Some \<lparr>acr_log_index = Some ?i, acr_current = ?ms, acr_joint_old = None\<rparr>\<rparr>"
  obtain r w' where c: "commit S w ?b = (r, w')" by fastforce
  have "batch_within (b + 1) ?b"
    using store_within_last [of b] assms by (simp add: batch_within_def node_within_def last_index)
  from commit_within [OF up this c] c up show ?thesis
    by (cases r) (auto simp: auto_finalize_joint_config_def Let_def node_within_def split: option.split)
qed

lemma try_advance_within:
  assumes ok: "node_within view b w" and inv: "worker_inv view w"
  shows "node_within view (b + 1) (snd (try_advance_commit_index S w))"
proof (cases "match_index_majority_floor S w")
  case (Some f)
  let ?m = "(w_meta w)\<lparr>commit_index := f\<rparr>"
  obtain r w2 where c: "commit S (w\<lparr>w_meta := ?m\<rparr>) (meta_batch ?m) = (r, w2)" by fastforce
  have w2: "node_within view b w2"
    by (rule commit_within [OF ok _ c]) (use node_within_snap [OF ok inv] in simp_all)
  then have "node_within view (b + 1) (snd (auto_finalize_joint_config S (fire_apply_notification w2)))"
    by (intro auto_finalize_within) (simp add: node_within_def)
  with node_within_mono [OF w2, of "b + 1"] c Some node_within_mono [OF ok, of "b + 1"] show ?thesis
    by (cases r) (auto simp: try_advance_commit_index_def node_within_def split: sum.split)
qed (use node_within_mono [OF ok, of "b + 1"] in \<open>simp add: try_advance_commit_index_def\<close>)

lemma push_within:
  assumes ok: "node_within view b w" and inv: "worker_inv view w"
    and wb: "wb_compact_to wb = None" "wb_meta wb = None" "wb_truncate_after wb = None"
      "\<forall>e \<in> set (wb_appends wb). le_index e = st_last_index S (w_storage w) + 1"
    and c: "commit S w wb = (r, w')"
  shows "node_within view (b + 1) w'" and "worker_inv view w'"
proof -
  have "batch_within (b + 1) wb"
    using store_within_last [of b "view (w_storage w)"] ok wb by (simp add: batch_within_def node_within_def last_index)
  from commit_within [OF node_within_mono [OF ok] this c] show "node_within view (b + 1) w'" by simp
  show "worker_inv view w'"
    by (cases rule: commit_cases [of w wb]) (use inv c wb in \<open>auto simp: worker_inv_def\<close>)
qed

lemma become_leader_within:
  assumes ok: "node_within view b w" and inv: "worker_inv view w"
  shows "node_within view (b + 2) (snd (become_leader_no_heartbeat S w))"
proof -
  let ?i = "st_last_index S (w_storage w) + 1"
  let ?b = "write_batch_default\<lparr>wb_appends := [entry_data ?i (current_term (w_meta w)) []]\<rparr>"
  obtain r w1 where c: "commit S w ?b = (r, w1)" by fastforce
  have w1: "node_within view (b + 1) w1" "worker_inv view w1"
    by (rule push_within [OF ok inv _ _ _ _ c]; simp)+
  let ?w2 = "(set_role Leader w1)\<lparr>w_votes_received := [],
               w_leader := Some (leader_state_fresh (all_members (w_effective_cfg w1))
                                  (cfg_me (w_cfg w1)) (st_last_index S (w_storage w))),
               w_seen_leader := Some (cfg_me (w_cfg w1)),
               w_current_term_first_index := Some ?i\<rparr>"
  have "node_within view (b + 1 + 1) (snd (try_advance_commit_index S ?w2))"
    by (rule try_advance_within) (use w1 in \<open>simp_all add: node_within_def worker_inv_def\<close>)
  with c node_within_mono [OF w1(1), of "b + 2"] show ?thesis
    by (cases r) (simp_all add: become_leader_no_heartbeat_def Let_def)
qed

lemma term_bump_within:
  assumes ok: "node_within view b w" and inv: "worker_inv view w"
  shows "node_within view b (snd (persist_term_bump S w t))"
    and "node_within view b (snd (term_bump_step_down S w t))"
proof -
  let ?m = "(w_meta w)\<lparr>current_term := t, voted_for := None\<rparr>"
  obtain r w1 where c: "commit S w (meta_batch ?m) = (r, w1)" by fastforce
  have "node_within view b w1"
    by (rule commit_within [OF ok _ c]) (use node_within_snap [OF ok inv] in simp_all)
  with c show "node_within view b (snd (persist_term_bump S w t))"
    "node_within view b (snd (term_bump_step_down S w t))"
    by (cases r; simp add: persist_term_bump_def term_bump_step_down_def node_within_def)+
qed

lemma handle_append_entries_within:
  assumes ok: "node_within view b w" and inv: "worker_inv view w"
    and i: "ae_prev_log_index req + length (ae_entries req) \<le> b"
  shows "node_within view b (snd (handle_append_entries S w req))"
proof -
  obtain r w' where h: "handle_append_entries S w req = (r, w')" by fastforce
  have mirror: "ms_meta (view (w_storage w)) = w_meta w" using inv by (simp add: worker_inv_def)
  note snap = node_within_snap [OF ok inv]
  show ?thesis
  proof (cases "\<exists>resp. r = Inr resp \<and> ar_success resp")
    case True
    with handle_append_success [OF _ _ mirror, of req _ w'] h obtain c k cfg where
      v: "view (w_storage w') = mem_commit_batch (view (w_storage w))
         (append_batch (ae_prev_log_index req) (ae_entries req) (c, k) (w_meta w') cfg)"
      and m: "snap_last_index (w_meta w') = snap_last_index (w_meta w)" by auto
    have "le_index e \<le> b" if "e \<in> set (reindexed (ae_prev_log_index req) (ae_entries req))" for e
      using that i by (auto simp: in_set_conv_nth reindexed_nth)
    then have "batch_within b (append_batch (ae_prev_log_index req) (ae_entries req) (c, k) (w_meta w') cfg)"
      using snap m in_set_dropD by (fastforce simp: batch_within_def append_batch_def)
    from mem_commit_within [OF _ this] ok v h show ?thesis by (simp add: node_within_def)
  next
    case False
    define w1 where "w1 = follow_leader (ae_leader req) (append_adopt_term (ae_term req) w)"
    have w1: "w_storage w1 = w_storage w" "snap_last_index (w_meta w1) = snap_last_index (w_meta w)"
      by (simp_all add: w1_def)
    obtain r2 w2 where c: "commit S w1 (meta_batch (w_meta w1)) = (r2, w2)" by fastforce
    have w2: "node_within view b w2" by (rule commit_within [OF ok _ c w1(1)]) (use snap w1 in simp)
    have cons: "node_within view b (snd (append_consistent S w1 (w_meta w) req))"
      if "append_consistent S w1 (w_meta w) req = (Inl e, w3)" for e w3
      using append_consistent_err [OF that] ok w1 that by (simp add: node_within_def)
    have "append_consistent S w1 (w_meta w) req \<noteq> (Inr resp, w3)"
      if "handle_append_entries S w req = append_consistent S w1 (w_meta w) req" for resp w3
      using append_consistent_success [of w1 "w_meta w" req resp w3] False h that by auto
    then have "node_within view b (snd (append_consistent S w1 (w_meta w) req))"
      if "handle_append_entries S w req = append_consistent S w1 (w_meta w) req"
      using that cons by (cases "append_consistent S w1 (w_meta w) req") (metis sum.exhaust)
    then show ?thesis using w2 c ok w1
      by (cases r2) (auto simp: handle_append_entries_def w1_def [symmetric] Let_def node_within_def
          split: sum.splits)
  qed
qed

lemma commit_snapshot_within:
  assumes ok: "node_within view b w" and i: "is_last_included_index req \<le> b"
  shows "node_within view b (snd (commit_snapshot S w m req bs))"
proof (cases "supplied_config_index req")
  case (Some supplied)
  let ?m1 = "install_meta (w_meta w) req"
  let ?b = "write_batch_default\<lparr>
              wb_compact_to := Some (is_last_included_index req, is_last_included_term req),
              wb_state := Some bs, wb_meta := Some ?m1,
              wb_active_config := Some (snapshot_record m (w\<lparr>w_meta := ?m1\<rparr>) req supplied)\<rparr>"
  obtain r w2 where c: "commit S (w\<lparr>w_meta := ?m1\<rparr>) ?b = (r, w2)" by fastforce
  have "node_within view b w2"
    by (rule commit_within [OF ok _ c]) (use i in \<open>simp_all add: batch_within_def install_meta_def\<close>)
  with c Some ok show ?thesis
    by (cases r) (simp_all add: commit_snapshot_def node_within_def Let_def)
qed (use ok in \<open>simp add: commit_snapshot_def\<close>)

lemma install_at_term_within:
  assumes ok: "node_within view b w" and i: "is_last_included_index req \<le> b"
  shows "node_within view b (snd (install_at_term S w from req))"
proof -
  have "node_within view b (snd (commit_snapshot S ((follow_leader (is_leader req) w)\<lparr>w_incoming_snapshot := None\<rparr>) m req bs))"
    for m bs
    using ok i by (intro commit_snapshot_within) (simp_all add: node_within_def)
  with ok show ?thesis by (simp add: install_at_term_def receive_chunk_def Let_def node_within_def)
qed

lemma handle_install_snapshot_within:
  assumes ok: "node_within view b w" and inv: "worker_inv view w" and i: "is_last_included_index req \<le> b"
  shows "node_within view b (snd (handle_install_snapshot S w from req))"
proof -
  obtain r w1 where p: "persist_term_bump S w (is_term req) = (r, w1)" by fastforce
  have w1: "node_within view b w1" using term_bump_within(1) [OF ok inv, of "is_term req"] p by simp
  then have "node_within view b (snd (install_at_term S (w1\<lparr>w_seen_leader := None, w_incoming_snapshot := None\<rparr>) from req))"
    using i by (intro install_at_term_within) (simp_all add: node_within_def)
  with w1 p ok install_at_term_within [OF ok i] show ?thesis
    by (cases r) (simp_all add: handle_install_snapshot_def)
qed

lemma handle_request_vote_within:
  assumes ok: "node_within view b w" and inv: "worker_inv view w"
  shows "node_within view b (snd (handle_request_vote S w req))"
proof -
  let ?w1 = "vote_term_state req w"
  let ?w2 = "vote_cast req (vote_grant S ?w1 req) ?w1"
  have w2: "w_storage ?w2 = w_storage w" "snap_last_index (w_meta ?w2) = snap_last_index (w_meta w)"
    using vote_cast_inv [OF inv] by simp_all
  obtain r w3 where c: "commit S ?w2 (meta_batch (w_meta ?w2)) = (r, w3)" by fastforce
  have "node_within view b w3"
    by (rule commit_within [OF ok _ c w2(1)]) (use node_within_snap [OF ok inv] w2 in simp)
  with ok w2 c show ?thesis
    by (cases r) (auto simp: handle_request_vote_def Let_def node_within_def)
qed

lemma handle_append_response_within:
  assumes ok: "node_within view b w" and inv: "worker_inv view w"
  shows "node_within view (b + 1) (snd (handle_append_response S w from resp))"
proof -
  have adv: "node_within view (b + 1) (snd (try_advance_commit_index S (w\<lparr>w_leader := Some l'\<rparr>)))"
    if "w_leader w = Some l" for l l'
    using ok inv that by (intro try_advance_within) (auto simp: node_within_def worker_inv_def)
  have "node_within view (b + 1) (snd (case try_advance_commit_index S (w\<lparr>w_leader := Some l'\<rparr>) of
        (Inl e, w2) \<Rightarrow> (Inl e, w2) | (Inr _, w2) \<Rightarrow> (Inr (), try_resolve_pending_reads S w2)))"
    if "w_leader w = Some l" for l l'
    using adv [OF that, of l'] by (auto simp: node_within_def split: prod.split sum.split)
  with node_within_mono [OF ok, of "b + 1"] node_within_mono [OF term_bump_within(2) [OF ok inv], of "b + 1"]
  show ?thesis by (auto simp: handle_append_response_def Let_def node_within_def split: option.split)
qed

lemma handle_install_snapshot_response_within:
  assumes ok: "node_within view b w" and inv: "worker_inv view w"
  shows "node_within view b (snd (handle_install_snapshot_response S w from resp i t e f))"
  using ok term_bump_within(2) [OF ok inv]
  by (auto simp: handle_install_snapshot_response_def Let_def node_within_def split: option.split)

lemma handle_vote_response_within:
  assumes ok: "node_within view b w" and inv: "worker_inv view w"
  shows "node_within view (b + 2) (snd (handle_vote_response S w from resp))"
proof -
  let ?w1 = "w\<lparr>w_votes_received := bs_insert from (w_votes_received w)\<rparr>"
  have "node_within view (b + 2) (snd (become_leader_no_heartbeat S ?w1))"
    using ok inv by (intro become_leader_within) (simp_all add: node_within_def worker_inv_def)
  with node_within_mono [OF ok, of "b + 2"] node_within_mono [OF term_bump_within(2) [OF ok inv], of "b + 2"]
  show ?thesis by (auto simp: handle_vote_response_def Let_def node_within_def split: prod.split sum.split)
qed

lemma handle_prevote_response_within:
  assumes ok: "node_within view b w" and inv: "worker_inv view w"
  shows "node_within view b (snd (handle_prevote_response S w from nt resp))"
  using ok term_bump_within(2) [OF ok inv]
  by (auto simp: handle_prevote_response_def Let_def node_within_def)

lemma handle_propose_within:
  assumes ok: "node_within view b w" and inv: "worker_inv view w"
  shows "node_within view (b + 2) (snd (handle_propose S w payload))"
proof -
  let ?b = "write_batch_default\<lparr>wb_appends :=
              [entry_data (st_last_index S (w_storage w) + 1) (current_term (w_meta w)) payload]\<rparr>"
  obtain r w1 where c: "commit S w ?b = (r, w1)" by fastforce
  have w1: "node_within view (b + 1) w1" "worker_inv view w1"
    by (rule push_within [OF ok inv _ _ _ _ c]; simp)+
  from try_advance_within [OF this] node_within_mono [OF w1(1), of "b + 2"] node_within_mono [OF ok, of "b + 2"] c
  show ?thesis by (cases r) (simp_all add: handle_propose_def Let_def)
qed

lemma handle_change_membership_within:
  assumes ok: "node_within view b w" and inv: "worker_inv view w"
  shows "node_within view (b + 2) (snd (handle_change_membership S w ms))"
proof -
  let ?i = "st_last_index S (w_storage w) + 1" and ?old = "ac_current (w_effective_cfg w)"
  let ?b = "write_batch_default\<lparr>wb_appends := [entry_config_change ?i (current_term (w_meta w)) (Some ?old) ms],
              wb_active_config := Some \<lparr>acr_log_index = Some ?i, acr_current = ms, acr_joint_old = Some ?old\<rparr>\<rparr>"
  obtain r w1 where c: "commit S w ?b = (r, w1)" by fastforce
  have w1: "node_within view (b + 1) w1" "worker_inv view w1"
    by (rule push_within [OF ok inv _ _ _ _ c]; simp)+
  let ?w2 = "adopt_config S \<lparr>ac_current = ms, ac_joint_old = Some ?old\<rparr> (Some ?i) (Some ?i) w1"
  have "node_within view (b + 1 + 1) (snd (try_advance_commit_index S ?w2))"
    by (rule try_advance_within) (use w1 in \<open>auto simp: node_within_def worker_inv_def\<close>)
  with node_within_mono [OF w1(1), of "b + 2"] node_within_mono [OF ok, of "b + 2"] c show ?thesis
    by (cases r) (simp_all add: handle_change_membership_def Let_def node_within_def)
qed

lemma try_compact_within:
  assumes ok: "node_within view b w"
  shows "node_within view b (snd (try_compact S w))"
proof (cases rule: try_compact_cases [of w])
  case (compact i t majority applied)
  let ?m = "(w_meta w)\<lparr>snap_last_index := i, snap_last_term := t\<rparr>"
  let ?b = "write_batch_default\<lparr>wb_compact_to := Some (i, t), wb_meta := Some ?m\<rparr>"
  have i: "i \<le> b"
    using store_within_term_at [OF _ term_at [OF compact(9), symmetric]] ok by (simp add: node_within_def)
  obtain r w2 where c: "commit S (w\<lparr>w_meta := ?m\<rparr>) ?b = (r, w2)" by fastforce
  have "node_within view b w2" by (rule commit_within [OF ok _ c]) (use i in \<open>simp_all add: batch_within_def\<close>)
  with c compact(1) ok show ?thesis by (cases r) (simp_all add: commit_compaction_def node_within_def)
qed (use ok in simp)

lemma send_heartbeats_within:
  assumes ok: "node_within view b w"
  shows "node_within view b (fst (snd (send_heartbeats S w pending)))"
proof (cases "w_leader w")
  case (Some l)
  obtain r w1 p1 where h: "heartbeat_peers S l (all_members (w_effective_cfg w)) w pending = (r, w1, p1)"
    using prod_cases3 by blast
  have w1: "node_within view b w1"
    using heartbeat_peers_storage [of l "all_members (w_effective_cfg w)" w pending] h ok
    by (simp add: node_within_def)
  then have "node_within view b (snd (try_compact S w1))" by (rule try_compact_within)
  with w1 h Some show ?thesis
    by (cases r) (simp_all add: send_heartbeats_def case_prod_beta Let_def node_within_def)
qed (use ok in \<open>simp add: send_heartbeats_def\<close>)

lemma handle_read_index_within:
  assumes ok: "node_within view b w"
  shows "node_within view b (fst (handle_read_index S w pending timeout reply))"
proof -
  let ?p = "\<lambda>r d. w_pending_read_index w @ [\<lparr>pri_required_index = r, pri_deadline = d, pri_reply = reply\<rparr>]"
  have "node_within view b (fst (snd (send_heartbeats S (w\<lparr>w_pending_read_index := ?p r d\<rparr>) pending)))"
    "node_within view b (fst (snd (send_heartbeats S ((snd (clock_now w))\<lparr>w_pending_read_index := ?p r d\<rparr>) pending)))"
    for r d
    using ok by (intro send_heartbeats_within; simp add: node_within_def)+
  with ok show ?thesis
    by (cases timeout) (simp_all add: handle_read_index_def Let_def case_prod_beta node_within_def)
qed

lemma start_election_within:
  assumes ok: "node_within view b w" and inv: "worker_inv view w" and role: "w_role w \<noteq> Leader"
  shows "node_within view (b + 2) (fst (snd (start_election S w pending)))"
proof -
  let ?me = "cfg_me (w_cfg w)"
  let ?m = "(w_meta w)\<lparr>current_term := current_term (w_meta w) + 1, voted_for := Some ?me\<rparr>"
  let ?w1 = "(set_role Candidate w)\<lparr>w_meta := ?m\<rparr>"
  obtain r w2 where c: "commit S ?w1 (meta_batch ?m) = (r, w2)" by fastforce
  have w2: "node_within view b w2"
    by (rule commit_within [OF ok _ c]) (use node_within_snap [OF ok inv] in simp_all)
  let ?w3 = "w2\<lparr>w_votes_received := bs_insert ?me []\<rparr>"
  have "node_within view (b + 2) (snd (become_leader_no_heartbeat S ?w3))" if "r = Inr u" for u
  proof (rule become_leader_within)
    show "worker_inv view ?w3"
      by (cases rule: commit_cases [of ?w1 "meta_batch ?m"];
          use inv role c that in \<open>auto simp: worker_inv_def\<close>)
  qed (use w2 in \<open>simp add: node_within_def\<close>)
  with node_within_mono [OF w2, of "b + 2"] c node_within_mono [OF ok, of "b + 2"] show ?thesis
    by (cases r) (auto simp: start_election_def Let_def node_within_def commit_meta [OF c]
        split: prod.split sum.split)
qed

lemma on_timer_within:
  assumes ok: "node_within view b w" and inv: "worker_inv view w"
  shows "node_within view (b + 2) (fst (on_timer S w pending))"
proof -
  have pre: "node_within view (b + 2) (fst (snd (start_pre_election S w' pending)))"
    if "node_within view b w'" "worker_inv view w'" "w_role w' \<noteq> Leader" for w'
    using start_election_within [OF that, of pending] node_within_mono [OF that(1), of "b + 2"]
    by (simp add: start_pre_election_def Let_def node_within_def)
  let ?w1 = "w\<lparr>w_pre_candidate_misses := sat_add_u32 (w_pre_candidate_misses w) 1\<rparr>"
  have "node_within view b ?w1" "worker_inv view ?w1"
    using ok inv by (simp_all add: node_within_def worker_inv_def)
  with pre [of w] pre [of ?w1] start_election_within [OF ok inv, of pending]
    node_within_mono [OF send_heartbeats_within [OF ok, of pending], of "b + 2"]
    node_within_mono [OF ok, of "b + 2"] ok inv
  show ?thesis by (cases "w_role w") (simp_all add: on_timer_def Let_def node_within_def)
qed

lemma on_worker_timer_within:
  assumes ok: "node_within view b w" and inv: "worker_inv view w"
  shows "node_within view (b + 2) (fst (on_worker_timer S w pending))"
proof -
  let ?w2 = "expire_pending_reads (fst (clock_now w)) (snd (clock_now w))"
  have "worker_inv view ?w2"
    using inv by (auto simp: worker_inv_def intro: le_trans [OF length_filter_le])
  moreover have "node_within view b ?w2" using ok by (simp add: node_within_def)
  ultimately show ?thesis using on_timer_within [of b ?w2 pending] node_within_mono [of view b ?w2 "b + 2"]
    by (simp add: on_worker_timer_def case_prod_beta Let_def)
qed

lemma handle_rpc_outcome_within:
  assumes ok: "node_within view b w" and inv: "worker_inv view w"
  shows "node_within view (b + 2) (handle_rpc_outcome S w out)"
proof -
  have up: "node_within view (b + 2) x" if "node_within view b x \<or> node_within view (b + 1) x" for x
    using that node_within_mono [of _ b x "b + 2"] node_within_mono [of _ "b + 1" x "b + 2"] by auto
  show ?thesis
    using up [OF disjI1 [OF ok]] up [OF disjI2 [OF handle_append_response_within [OF assms]]]
      handle_vote_response_within [OF assms] up [OF disjI1 [OF handle_prevote_response_within [OF assms]]]
      up [OF disjI1 [OF handle_install_snapshot_response_within [OF assms]]]
    by (simp add: handle_rpc_outcome_def split: rpc_outcome.split option.split)
qed

lemma handle_msg_within:
  assumes ok: "node_within view b w" and inv: "worker_inv view w" and i: "event_index (EvMsg msg) \<le> b"
  shows "node_within view (b + 2) (fst (snd (handle_msg S w pending msg)))"
proof -
  have up: "node_within view (b + 2) x" if "node_within view b x" for x
    using that by (rule node_within_mono) simp
  have pv: "node_within view b (snd (handle_request_prevote S w req))" for req
    using ok by (auto simp: handle_request_prevote_def Let_def case_prod_beta node_within_def)
  show ?thesis
    using i up [OF ok] up [OF pv] up [OF handle_append_entries_within [OF ok inv]]
      up [OF handle_request_vote_within [OF ok inv]] up [OF handle_install_snapshot_within [OF ok inv]]
      handle_propose_within [OF ok inv] handle_change_membership_within [OF ok inv]
      up [OF handle_read_index_within [OF ok]]
    by (cases msg) (simp_all add: handle_msg_def case_prod_beta Let_def event_index_def)
qed

lemma loop_turn_within:
  assumes ok: "node_within view b w" and inv: "worker_inv view w" and i: "event_index ev \<le> b"
    and turn: "loop_turn S now ev (w, pending) = Some (w', pending')"
  shows "node_within view (b + 2) w'"
proof -
  have pub: "node_within view a (publish_status S now x)" if "node_within view a x" for x a
    using that by (simp add: node_within_def)
  show ?thesis
  proof (cases ev)
    case (EvMsg m)
    with turn have "w' = publish_status S now (fst (snd (handle_msg S w pending m)))"
      by (auto simp: loop_turn_def case_prod_beta Let_def split: raft_msg.splits)
    with pub [OF handle_msg_within [OF ok inv]] i EvMsg show ?thesis by simp
  qed (use turn pub [OF on_worker_timer_within [OF ok inv]] pub [OF handle_rpc_outcome_within [OF ok inv]]
      in \<open>auto simp: loop_turn_def case_prod_beta Let_def\<close>)
qed

text \<open>A run raises the term by at most one and the highest index by at most two per turn, above
  what the node started from and what it was told.\<close>

lemma loop_run_within:
  assumes "node_within view b w" "worker_inv view w" "current_term (w_meta w) \<le> t"
    and "\<forall>(now, ev) \<in> set evs. event_term ev \<le> t \<and> event_index ev \<le> b"
    and "loop_run S evs (w, pending) = Some (w', pending')"
  shows "current_term (w_meta w') \<le> t + length evs \<and> node_within view (b + 2 * length evs) w'"
  using assms
proof (induction evs arbitrary: w pending b t)
  case (Cons e evs)
  obtain now ev where e: "e = (now, ev)" by (cases e)
  with Cons.prems obtain w1 p1 where turn: "loop_turn S now ev (w, pending) = Some (w1, p1)"
    and rest: "loop_run S evs (w1, p1) = Some (w', pending')" by (auto split: option.splits)
  have ev: "event_term ev \<le> t" "event_index ev \<le> b" using Cons.prems(4) e by auto
  have "current_term (w_meta w1) \<le> t + 1" using loop_turn_term [OF turn] ev Cons.prems(3) by simp
  moreover have "\<forall>(now, ev) \<in> set evs. event_term ev \<le> t + 1 \<and> event_index ev \<le> b + 2"
    using Cons.prems(4) by fastforce
  ultimately show ?case
    using Cons.IH [OF loop_turn_within [OF Cons.prems(1,2) ev(2) turn]
        worker_stepD [OF loop_turn_step [OF Cons.prems(2) turn]] _ _ rest, of "t + 1"] by simp
qed simp

end

end
