(* ===== verification/Raft_Leader.thy ===== *)
theory Raft_Leader
  imports Raft_Log "HOL-Library.Multiset"
begin

text \<open>
  The leader: when an index is committed, what a membership change does to the quorums, that
  every read request is answered exactly once and only with an index a quorum holds.
\<close>

section \<open>The commit rule\<close>

lemma majority_floor_holds:
  assumes "match_index_majority_floor S w = Some f"
  shows "quorum_holds (w_effective_cfg w) (\<lambda>m. g \<le> member_match_score S w m) \<longleftrightarrow> g \<le> f"
  using assms majority_floor_iff [of "w_effective_cfg w" "member_match_score S w" f g]
  by (simp add: match_index_majority_floor_def split: option.splits)

context raft_storage
begin

lemma auto_finalize_meta: "w_meta (snd (auto_finalize_joint_config S w)) = w_meta w"
proof -
  let ?i = "st_last_index S (w_storage w) + 1" and ?ms = "ac_current (w_effective_cfg w)"
  let ?b = "write_batch_default\<lparr>wb_appends := [entry_config_change ?i (current_term (w_meta w)) None ?ms],
            wb_active_config := Some \<lparr>acr_log_index = Some ?i, acr_current = ?ms, acr_joint_old = None\<rparr>\<rparr>"
  show ?thesis
    by (cases rule: commit_cases [of w ?b])
      (auto simp: auto_finalize_joint_config_def Let_def split: option.split)
qed

lemma try_advance_commits:
  assumes "commit_index (w_meta (snd (try_advance_commit_index S w))) \<noteq> commit_index (w_meta w)"
  shows "let c = commit_index (w_meta (snd (try_advance_commit_index S w))) in
    match_index_majority_floor S w = Some c \<and> commit_index (w_meta w) < c \<and>
    mem_term_at (view (w_storage w)) c = Some (current_term (w_meta w))"
proof (cases "match_index_majority_floor S w")
  case (Some f)
  let ?m = "(w_meta w)\<lparr>commit_index := f\<rparr>"
  have tm: "st_term_at S (w_storage w) f = Inr (Some (current_term (w_meta w)))"
    "\<not> f \<le> commit_index (w_meta w)"
    using assms Some by (auto simp: try_advance_commit_index_def split: sum.splits if_splits)
  show ?thesis
    by (cases rule: commit_cases [of "w\<lparr>w_meta := ?m\<rparr>" "meta_batch ?m"])
      (use assms Some tm term_at [OF tm(1)] in \<open>simp_all add: try_advance_commit_index_def auto_finalize_meta\<close>)
qed (use assms in \<open>simp add: try_advance_commit_index_def\<close>)

end

section \<open>Membership changes\<close>

text \<open>Two views one transition apart still have intersecting quorums.\<close>

definition linked_configs :: "'n active_config \<Rightarrow> 'n active_config \<Rightarrow> bool" where
  "linked_configs c d \<longleftrightarrow> (\<exists>ms. shares_voters c d ms)"

lemma linked_refl [simp]: "linked_configs c c"
  by (auto simp: linked_configs_def shares_voters_def)

lemma linked_steady: "linked_configs c (steady (ac_current c))"
  by (auto simp: linked_configs_def shares_voters_def)

lemma linked_quorums:
  assumes "linked_configs c d" "quorum_holds c P" "quorum_holds d Q"
  shows "\<exists>m. P m \<and> Q m"
  using assms quorums_intersect unfolding linked_configs_def by blast

context raft_storage
begin

lemma auto_finalize_cfg:
  "w_effective_cfg (snd (auto_finalize_joint_config S w)) = w_effective_cfg w \<or>
   w_effective_cfg (snd (auto_finalize_joint_config S w)) = steady (ac_current (w_effective_cfg w))"
proof -
  let ?i = "st_last_index S (w_storage w) + 1" and ?ms = "ac_current (w_effective_cfg w)"
  let ?b = "write_batch_default\<lparr>wb_appends := [entry_config_change ?i (current_term (w_meta w)) None ?ms],
            wb_active_config := Some \<lparr>acr_log_index = Some ?i, acr_current = ?ms, acr_joint_old = None\<rparr>\<rparr>"
  show ?thesis
    by (cases rule: commit_cases [of w ?b])
      (auto simp: auto_finalize_joint_config_def Let_def split: option.split)
qed

lemma auto_finalize_linked:
  "linked_configs (w_effective_cfg w) (w_effective_cfg (snd (auto_finalize_joint_config S w)))"
  using auto_finalize_cfg [of w] by (rule disjE) (simp_all only: linked_refl linked_steady)

text \<open>Leaving the joint phase needs the joint entry committed.\<close>

lemma auto_finalize_committed:
  assumes "w_effective_cfg (snd (auto_finalize_joint_config S w)) \<noteq> w_effective_cfg w"
  shows "w_role w = Leader \<and> is_joint (w_effective_cfg w) \<and>
    (\<exists>j. w_pending_joint_entry w = Some j \<and> j \<le> commit_index (w_meta w))"
  using assms by (auto simp: auto_finalize_joint_config_def split: if_splits option.splits)

lemma try_advance_cfg:
  obtains (same) "w_effective_cfg (snd (try_advance_commit_index S w)) = w_effective_cfg w"
    | (final) w1 where "w_effective_cfg w1 = w_effective_cfg w"
        "w_pending_joint_entry w1 = w_pending_joint_entry w"
        "snd (try_advance_commit_index S w) = snd (auto_finalize_joint_config S w1)"
proof (cases "match_index_majority_floor S w")
  case (Some f)
  let ?m = "(w_meta w)\<lparr>commit_index := f\<rparr>"
  show ?thesis
  proof (cases rule: commit_cases [of "w\<lparr>w_meta := ?m\<rparr>" "meta_batch ?m"])
    case (ok s')
    let ?w1 = "fire_apply_notification (w\<lparr>w_meta := ?m, w_storage := s'\<rparr>)"
    have "snd (try_advance_commit_index S w) = w \<or>
          snd (try_advance_commit_index S w) = snd (auto_finalize_joint_config S ?w1)"
      using Some ok by (auto simp: try_advance_commit_index_def split: sum.split)
    then show ?thesis using same final [of ?w1] by auto
  next
    case (err e s')
    then have "w_effective_cfg (snd (try_advance_commit_index S w)) = w_effective_cfg w"
      using Some by (auto simp: try_advance_commit_index_def split: sum.split)
    then show ?thesis by (rule same)
  qed
qed (use same in \<open>simp add: try_advance_commit_index_def\<close>)

lemma try_advance_linked:
  "linked_configs (w_effective_cfg w) (w_effective_cfg (snd (try_advance_commit_index S w)))"
proof (cases rule: try_advance_cfg [of w])
  case (final w1)
  show ?thesis unfolding final(3) final(1) [symmetric] by (rule auto_finalize_linked)
qed (simp only: linked_refl)

text \<open>An accepted change goes through the joint membership, which it may leave at once only with
  the joint entry committed.\<close>

lemma change_membership_stages:
  assumes h: "handle_change_membership S w ms = (Inr i, w')"
  defines "joint \<equiv> \<lparr>ac_current = ms, ac_joint_old = Some (ac_current (w_effective_cfg w))\<rparr>"
  shows "w_effective_cfg w' = joint \<or> w_effective_cfg w' = steady ms \<and> i \<le> commit_index (w_meta w')"
proof -
  let ?i = "st_last_index S (w_storage w) + 1" and ?old = "ac_current (w_effective_cfg w)"
  let ?b = "write_batch_default\<lparr>wb_appends := [entry_config_change ?i (current_term (w_meta w)) (Some ?old) ms],
              wb_active_config := Some \<lparr>acr_log_index = Some ?i, acr_current = ms, acr_joint_old = Some ?old\<rparr>\<rparr>"
  obtain w1 where w1: "i = ?i" "w' = snd (try_advance_commit_index S (adopt_config S joint (Some ?i) (Some ?i) w1))"
    using h by (cases rule: commit_cases [of w ?b])
      (auto simp: handle_change_membership_def joint_def Let_def split: if_splits)
  show ?thesis
  proof (cases rule: try_advance_cfg [of "adopt_config S joint (Some ?i) (Some ?i) w1"])
    case (final w2)
    then have w2: "w_effective_cfg w2 = joint" "w_pending_joint_entry w2 = Some i"
      "w' = snd (auto_finalize_joint_config S w2)" using w1 by simp_all
    have "w_effective_cfg w' = joint \<or> w_effective_cfg w' = steady ms"
      using auto_finalize_cfg [of w2] unfolding w2(1,3) by (simp add: joint_def)
    moreover have "i \<le> commit_index (w_meta w')" if "w_effective_cfg w' \<noteq> joint"
      using auto_finalize_committed [of w2] that unfolding w2 auto_finalize_meta by simp
    ultimately show ?thesis by blast
  qed (use w1 in simp)
qed

end

section \<open>Reads\<close>

text \<open>Every read request the worker has seen: answered or waiting.\<close>

definition read_ids :: "('n, 's) worker \<Rightarrow> nat multiset" where
  "read_ids w = mset (map fst (w_read_replies w)) + mset (map pri_reply (w_pending_read_index w))"

lemma read_ids_cong:
  "w_read_replies w' = w_read_replies w \<Longrightarrow> w_pending_read_index w' = w_pending_read_index w \<Longrightarrow>
     read_ids w' = read_ids w"
  by (simp add: read_ids_def)

lemma mset_map_filter_split:
  "mset (map f (filter P xs)) + mset (map f (filter (\<lambda>x. \<not> P x) xs)) = mset (map f xs)"
  by (induction xs) auto

lemma map_fst_map_filter:
  "map fst (List.map_filter (\<lambda>p. map_option (\<lambda>r. (f p, r)) (g p)) ps) = map f (filter (\<lambda>p. g p \<noteq> None) ps)"
  by (induction ps) (auto simp: List.map_filter_simps split: option.splits)

lemma read_ids_step_down [simp]: "read_ids (step_down w) = read_ids w"
  by (simp add: read_ids_def o_def)

lemma read_ids_follow [simp]: "read_ids (follow_leader l w) = read_ids w"
  by (simp add: read_ids_def follow_leader_def drain_pending_reads_on_step_down_def Let_def
      case_prod_beta image_mset.compositionality o_def)

lemma read_ids_expire [simp]: "read_ids (expire_pending_reads now w) = read_ids w"
  using mset_map_filter_split [of pri_reply "read_expired now" "w_pending_read_index w"]
  by (simp add: read_ids_def expire_pending_reads_def o_def)

lemma read_ids_resolve [simp]: "read_ids (try_resolve_pending_reads S w) = read_ids w"
proof -
  have "mset (map fst (List.map_filter (\<lambda>p. map_option (\<lambda>r. (pri_reply p, r)) (resolve_read now mf p)) ps)) +
        mset (map pri_reply (filter (\<lambda>p. resolve_read now mf p = None) ps)) = mset (map pri_reply ps)" for now mf ps
    using mset_map_filter_split [of pri_reply "\<lambda>p. resolve_read now mf p \<noteq> None" ps]
    by (simp add: map_fst_map_filter)
  then show ?thesis
    by (auto simp: try_resolve_pending_reads_def read_ids_def clock_now_def Let_def split: option.split)
qed

lemma reset_election_timer_replies [simp]: "w_read_replies (reset_election_timer w) = w_read_replies w"
  by simp

lemma rebuild_replies [simp]:
  "w_read_replies (rebuild_leader_tracking S w) = w_read_replies w"
  "w_read_replies (adopt_config S a i j w) = w_read_replies w"
  "w_read_replies (adopt_view S v w) = w_read_replies w"
  "w_read_replies (adopt_snapshot_config S m req i w) = w_read_replies w"
  "w_read_replies (publish_status S n w) = w_read_replies w"
  "w_read_replies (append_adopt_term t w) = w_read_replies w"
  by (simp_all add: rebuild_leader_tracking_def adopt_config_def adopt_view_def
      adopt_snapshot_config_def publish_status_def append_adopt_term_def Let_def split: option.split)

text \<open>Transitions that touch neither the queue nor the replies.\<close>

lemma read_ids_frame [simp]:
  "read_ids (set_role r w) = read_ids w" "read_ids (reset_election_timer w) = read_ids w"
  "read_ids (deadline_now w) = read_ids w" "read_ids (fire_apply_notification w) = read_ids w"
  "read_ids (publish_status S n w) = read_ids w" "read_ids (append_adopt_term t w) = read_ids w"
  "read_ids (snd (clock_now w)) = read_ids w" "read_ids (w\<lparr>w_meta := m'\<rparr>) = read_ids w"
  "read_ids (w\<lparr>w_storage := s\<rparr>) = read_ids w" "read_ids (w\<lparr>w_votes_received := vs\<rparr>) = read_ids w"
  "read_ids (w\<lparr>w_leader := l\<rparr>) = read_ids w" "read_ids (w\<lparr>w_incoming_snapshot := inc\<rparr>) = read_ids w"
  "read_ids (w\<lparr>w_election_deadline := d\<rparr>) = read_ids w" "read_ids (w\<lparr>w_seen_leader := sl\<rparr>) = read_ids w"
  "read_ids (w\<lparr>w_pre_candidate_misses := k\<rparr>) = read_ids w"
  "read_ids (w\<lparr>w_current_term_first_index := fi\<rparr>) = read_ids w"
  by (rule read_ids_cong; simp add: publish_status_def append_adopt_term_def)+

lemma read_ids_frame_adopt [simp]:
  "read_ids (adopt_config S a i j w) = read_ids w" "read_ids (adopt_view S v w) = read_ids w"
  "read_ids (adopt_snapshot_config S m req i' w) = read_ids w"
  by (rule read_ids_cong; simp)+

lemma read_ids_commit: "commit S w b = (r, w') \<Longrightarrow> read_ids w' = read_ids w"
  by (auto simp: commit_def case_prod_beta)

lemma read_ids_commit_snd [simp]: "read_ids (snd (commit S w b)) = read_ids w"
  by (simp add: commit_def case_prod_beta)

lemma read_ids_vote_cast [simp]: "read_ids (vote_cast req g (vote_term_state req w)) = read_ids w"
  by (simp add: vote_cast_def vote_term_state_def)

lemma read_ids_persist [simp]: "read_ids (snd (persist_term_bump S w t)) = read_ids w"
  by (auto simp: persist_term_bump_def Let_def split: prod.split sum.split dest: read_ids_commit)

lemma read_ids_term_bump [simp]: "read_ids (snd (term_bump_step_down S w t)) = read_ids w"
  by (auto simp: term_bump_step_down_def split: prod.split sum.split
      dest!: arg_cong [where f = "\<lambda>x. read_ids (snd x)"])

lemma read_ids_auto_finalize [simp]: "read_ids (snd (auto_finalize_joint_config S w)) = read_ids w"
  by (auto simp: auto_finalize_joint_config_def Let_def split: option.split prod.split sum.split
      dest: read_ids_commit)

lemma read_ids_try_advance [simp]: "read_ids (snd (try_advance_commit_index S w)) = read_ids w"
  by (auto simp: try_advance_commit_index_def Let_def split: option.split prod.split sum.split
      dest: read_ids_commit)

lemma read_ids_become_leader [simp]: "read_ids (snd (become_leader_no_heartbeat S w)) = read_ids w"
  by (auto simp: become_leader_no_heartbeat_def Let_def split: prod.split sum.split dest: read_ids_commit)

lemma read_ids_append_consistent [simp]: "read_ids (snd (append_consistent S w m req)) = read_ids w"
  by (auto simp: append_consistent_def Let_def split: prod.split sum.split option.split
      dest: read_ids_commit)

lemma read_ids_append [simp]: "read_ids (snd (handle_append_entries S w req)) = read_ids w"
  by (auto simp: handle_append_entries_def Let_def split: prod.split sum.split dest: read_ids_commit)

lemma read_ids_vote [simp]: "read_ids (snd (handle_request_vote S w req)) = read_ids w"
  by (auto simp: handle_request_vote_def Let_def split: prod.split sum.split dest: read_ids_commit)

lemma read_ids_prevote [simp]: "read_ids (snd (handle_request_prevote S w req)) = read_ids w"
  by (auto simp: handle_request_prevote_def Let_def case_prod_beta)

lemma read_ids_commit_snapshot [simp]: "read_ids (snd (commit_snapshot S w m req bs)) = read_ids w"
  by (auto simp: commit_snapshot_def Let_def split: prod.split sum.split option.split dest: read_ids_commit)

lemma read_ids_install [simp]: "read_ids (snd (handle_install_snapshot S w from req)) = read_ids w"
proof -
  have at: "read_ids (snd (install_at_term S w' from req)) = read_ids w'" for w'
    by (simp add: install_at_term_def receive_chunk_def Let_def)
  show ?thesis
    by (auto simp: handle_install_snapshot_def at split: prod.split sum.split
        dest!: arg_cong [where f = "\<lambda>x. read_ids (snd x)"])
qed

lemma read_ids_append_response [simp]: "read_ids (snd (handle_append_response S w from resp)) = read_ids w"
proof -
  have "read_ids (snd (case try_advance_commit_index S (w\<lparr>w_leader := l\<rparr>) of
        (Inl e, w2) \<Rightarrow> (Inl e, w2) | (Inr _, w2) \<Rightarrow> (Inr (), try_resolve_pending_reads S w2))) = read_ids w" for l
    by (auto split: prod.split sum.split dest!: arg_cong [where f = "\<lambda>x. read_ids (snd x)"])
  then show ?thesis by (auto simp: handle_append_response_def Let_def split: option.split)
qed

lemma read_ids_install_response [simp]:
  "read_ids (snd (handle_install_snapshot_response S w from resp i t e f)) = read_ids w"
  by (auto simp: handle_install_snapshot_response_def Let_def split: option.split)

lemma read_ids_vote_response [simp]: "read_ids (snd (handle_vote_response S w from resp)) = read_ids w"
  by (auto simp: handle_vote_response_def Let_def split: prod.split sum.split
      dest!: arg_cong [where f = "\<lambda>x. read_ids (snd x)"])

lemma read_ids_prevote_response [simp]: "read_ids (snd (handle_prevote_response S w from t resp)) = read_ids w"
  by (auto simp: handle_prevote_response_def Let_def)

lemma read_ids_propose [simp]: "read_ids (snd (handle_propose S w p)) = read_ids w"
  by (auto simp: handle_propose_def Let_def split: prod.split sum.split dest: read_ids_commit)

lemma read_ids_change [simp]: "read_ids (snd (handle_change_membership S w ms)) = read_ids w"
  by (auto simp: handle_change_membership_def Let_def split: prod.split sum.split dest: read_ids_commit)

lemma read_ids_compact [simp]: "read_ids (snd (try_compact S w)) = read_ids w"
proof -
  have "read_ids (snd (commit_compaction S w i t)) = read_ids w" for i t
    by (auto simp: commit_compaction_def Let_def split: prod.split sum.split dest: read_ids_commit)
  then show ?thesis by (auto simp: try_compact_def Let_def split: option.split sum.split)
qed

lemma read_ids_heartbeats [simp]: "read_ids (fst (snd (send_heartbeats S w pending))) = read_ids w"
proof -
  have chunk: "read_ids (snd (send_snapshot_chunk S w p i t)) = read_ids w" for w p i t
    by (simp add: send_snapshot_chunk_def Let_def case_prod_beta split: option.split)
  have "read_ids (fst (snd (heartbeat_peers S l ps w pending))) = read_ids w" for l ps
    by (induction ps arbitrary: w pending) (auto simp: Let_def case_prod_beta chunk split: sum.split)
  then show ?thesis
    by (auto simp: send_heartbeats_def Let_def case_prod_beta split: option.split sum.split)
qed

lemma read_ids_read_index:
  "read_ids (fst (handle_read_index S w pending timeout reply)) = add_mset reply (read_ids w)"
proof -
  let ?p = "\<lambda>r d. w_pending_read_index w @ [\<lparr>pri_required_index = r, pri_deadline = d, pri_reply = reply\<rparr>]"
  have "read_ids (w\<lparr>w_pending_read_index := ?p r d\<rparr>) = add_mset reply (read_ids w)"
    "read_ids ((snd (clock_now w))\<lparr>w_pending_read_index := ?p r d\<rparr>) = add_mset reply (read_ids w)"
    "read_ids (w\<lparr>w_read_replies := w_read_replies w @ [(reply, x)]\<rparr>) = add_mset reply (read_ids w)" for r d x
    by (simp_all add: read_ids_def)
  then show ?thesis
    by (cases timeout) (simp_all add: handle_read_index_def Let_def case_prod_beta)
qed

lemma read_ids_start_election [simp]: "read_ids (fst (snd (start_election S w pending))) = read_ids w"
  by (auto simp: start_election_def Let_def split: prod.split sum.split dest: read_ids_commit
      dest!: arg_cong [where f = "\<lambda>x. read_ids (snd x)"])

lemma read_ids_on_worker_timer [simp]: "read_ids (fst (on_worker_timer S w pending)) = read_ids w"
proof -
  have "read_ids (fst (snd (start_pre_election S w' pending))) = read_ids w'" for w'
    by (simp add: start_pre_election_def Let_def)
  then have "read_ids (fst (on_timer S w' pending)) = read_ids w'" for w'
    by (simp add: on_timer_def Let_def split: role.split)
  then show ?thesis by (simp add: on_worker_timer_def case_prod_beta Let_def)
qed

definition read_request :: "'n event \<Rightarrow> nat multiset" where
  "read_request ev = (case ev of EvMsg (MsgReadIndex _ reply) \<Rightarrow> {#reply#} | _ \<Rightarrow> {#})"

lemma read_ids_loop_turn:
  assumes "loop_turn S now ev (w, pending) = Some (w', pending')"
  shows "read_ids w' = read_ids w + read_request ev"
proof -
  have msg: "read_ids (fst (snd (handle_msg S w pending m))) = read_ids w + read_request (EvMsg m)" for m
    by (cases m) (simp_all add: handle_msg_def case_prod_beta Let_def read_request_def read_ids_read_index)
  have out: "read_ids (handle_rpc_outcome S w out) = read_ids w" for out
    by (simp add: handle_rpc_outcome_def split: rpc_outcome.split option.split)
  show ?thesis
  proof (cases ev)
    case (EvMsg m)
    with assms have "w' = publish_status S now (fst (snd (handle_msg S w pending m)))"
      by (auto simp: loop_turn_def case_prod_beta Let_def split: raft_msg.splits)
    with msg EvMsg show ?thesis by simp
  qed (use assms out in \<open>auto simp: loop_turn_def case_prod_beta Let_def read_request_def\<close>)
qed

text \<open>A successful read reply carries an index that a quorum of the membership holds.\<close>

lemma member_match_score_cong:
  "w_storage w' = w_storage w \<Longrightarrow> w_cfg w' = w_cfg w \<Longrightarrow> w_leader w' = w_leader w \<Longrightarrow>
     member_match_score S w' = member_match_score S w"
  by (intro ext) (simp add: member_match_score_def)

lemma resolve_reply_quorum:
  assumes new: "(i, Inr r) \<in> set (w_read_replies (try_resolve_pending_reads S w))"
    and old: "(i, Inr r) \<notin> set (w_read_replies w)"
  shows "quorum_holds (w_effective_cfg w) (\<lambda>m. r \<le> member_match_score S w m)"
proof -
  obtain f where f: "match_index_majority_floor S w = Some f"
    using new old by (auto simp: try_resolve_pending_reads_def split: option.splits if_splits)
  have "r \<le> f"
    using new old f
    by (auto simp: try_resolve_pending_reads_def clock_now_def List.map_filter_def resolve_read_def
        Let_def split: if_splits)
  then show ?thesis using majority_floor_holds [OF f] by simp
qed

context raft_storage
begin

lemma try_advance_replies:
  "\<exists>ps. w_read_replies (snd (try_advance_commit_index S w)) =
        w_read_replies w @ map (\<lambda>p. (p, Inl LeaderStepped)) ps"
proof -
  have fin: "\<exists>ps. w_read_replies (snd (auto_finalize_joint_config S w')) =
        w_read_replies w' @ map (\<lambda>p. (p, Inl LeaderStepped)) ps" for w'
  proof -
    have c: "w_read_replies w2 = w_read_replies w1" if "commit S w1 b = (r, w2)" for w1 w2 b r
      using commit_shape [OF that] by (metis worker.ext_inject worker.surjective worker.update_convs(1))
    have "\<exists>ps. map (\<lambda>p. (pri_reply p, Inl LeaderStepped)) qs = map (\<lambda>p. (p, Inl LeaderStepped)) ps" for qs
      by (rule exI [of _ "map pri_reply qs"]) simp
    then show ?thesis
      by (auto simp: auto_finalize_joint_config_def Let_def split: option.split prod.split sum.split dest!: c)
  qed
  show ?thesis
  proof (cases "match_index_majority_floor S w")
    case (Some f)
    let ?m = "(w_meta w)\<lparr>commit_index := f\<rparr>"
    show ?thesis
      by (cases rule: commit_cases [of "w\<lparr>w_meta := ?m\<rparr>" "meta_batch ?m"])
        (use Some fin [of "fire_apply_notification (w\<lparr>w_meta := ?m, w_storage := s'\<rparr>)" for s'] in
          \<open>auto simp: try_advance_commit_index_def split: sum.split\<close>)
  qed (simp add: try_advance_commit_index_def)
qed

lemma term_bump_replies:
  "\<exists>ps. w_read_replies (snd (term_bump_step_down S w t)) =
        w_read_replies w @ map (\<lambda>p. (p, Inl LeaderStepped)) ps"
proof -
  let ?b = "meta_batch ((w_meta w)\<lparr>current_term := t, voted_for := None\<rparr>)"
  have "\<exists>ps. map (\<lambda>p. (pri_reply p, Inl LeaderStepped)) qs = map (\<lambda>p. (p, Inl LeaderStepped)) ps" for qs
    by (rule exI [of _ "map pri_reply qs"]) simp
  then show ?thesis
    by (cases rule: commit_cases [of w ?b])
      (auto simp: term_bump_step_down_def persist_term_bump_def Let_def)
qed

lemma append_response_reply_quorum:
  assumes new: "(i, Inr r) \<in> set (w_read_replies (snd (handle_append_response S w from resp)))"
    and old: "(i, Inr r) \<notin> set (w_read_replies w)"
  shows "quorum_holds (w_effective_cfg (snd (handle_append_response S w from resp)))
           (\<lambda>m. r \<le> member_match_score S (snd (handle_append_response S w from resp)) m)"
proof -
  have bump: "(i, Inr r) \<notin> set (w_read_replies (snd (term_bump_step_down S w t)))" for t
    using term_bump_replies [of w t] old by auto
  then have tm: "\<not> ar_term resp > current_term (w_meta w)"
    using new by (auto simp: handle_append_response_def)
  then obtain l where l: "w_leader w = Some l" "ar_success resp"
    "w_role w = Leader \<and> ar_term resp = current_term (w_meta w)"
    using new old by (auto simp: handle_append_response_def Let_def split: if_splits option.splits)
  define l' where "l' = l\<lparr>match_index := bt_insert from (max (ar_match_index resp) (lookup_or 0 (match_index l) from)) (match_index l),
      next_index := bt_insert from (max (ar_match_index resp) (lookup_or 0 (match_index l) from) + 1) (next_index l)\<rparr>"
  obtain res w2 where a: "try_advance_commit_index S (w\<lparr>w_leader := Some l'\<rparr>) = (res, w2)" by fastforce
  have eq: "snd (handle_append_response S w from resp) =
      (case res of Inl e \<Rightarrow> w2 | Inr _ \<Rightarrow> try_resolve_pending_reads S w2)"
    using tm l a unfolding l'_def by (simp add: handle_append_response_def Let_def split: sum.split)
  have old2: "(i, Inr r) \<notin> set (w_read_replies w2)"
    using try_advance_replies [of "w\<lparr>w_leader := Some l'\<rparr>"] a old by auto
  with new eq obtain u where u: "res = Inr u" by (cases res) simp_all
  have "quorum_holds (w_effective_cfg w2) (\<lambda>m. r \<le> member_match_score S w2 m)"
    using resolve_reply_quorum [of i r S w2] new eq u old2 by simp
  then show ?thesis
    using member_match_score_cong [of "try_resolve_pending_reads S w2" w2 S] by (simp add: eq u)
qed

end

section \<open>Compaction\<close>

context raft_storage
begin

lemma commit_compaction_result:
  "snap_last_index (w_meta (snd (commit_compaction S w i t))) = snap_last_index (w_meta w) \<or>
   snap_last_index (w_meta (snd (commit_compaction S w i t))) = i \<and>
   (\<forall>j > i. bt_get (ms_log (view (w_storage (snd (commit_compaction S w i t))))) j =
            bt_get (ms_log (view (w_storage w))) j)"
proof -
  let ?m = "(w_meta w)\<lparr>snap_last_index := i, snap_last_term := t\<rparr>"
  let ?b = "write_batch_default\<lparr>wb_compact_to := Some (i, t), wb_meta := Some ?m\<rparr>"
  show ?thesis
    by (cases rule: commit_cases [of "w\<lparr>w_meta := ?m\<rparr>" ?b])
      (auto simp: commit_compaction_def Let_def)
qed

lemma try_compact_bounded:
  assumes inv: "worker_inv view w"
    and moved: "snap_last_index (w_meta (snd (try_compact S w))) \<noteq> snap_last_index (w_meta w)"
  shows "let i = snap_last_index (w_meta (snd (try_compact S w)))
    in snap_last_index (w_meta w) < i \<and> i \<le> commit_index (w_meta w) \<and>
       quorum_holds (w_effective_cfg w) (\<lambda>m. i \<le> member_match_score S w m) \<and>
       (\<forall>a. st_applied_index S (w_storage w) = Inr (Some a) \<longrightarrow> i \<le> a) \<and>
       (\<forall>j > i. bt_get (ms_log (view (w_storage (snd (try_compact S w))))) j = bt_get (ms_log (view (w_storage w))) j)"
proof (cases rule: try_compact_cases [of w])
  case (compact i t majority applied)
  have "snap_last_index (w_meta w) < i" using compact(7) inv by (simp add: snap_index worker_inv_def)
  moreover have "quorum_holds (w_effective_cfg w) (\<lambda>m. i \<le> member_match_score S w m)"
    using majority_floor_holds [OF compact(2)] compact(4) by simp
  moreover have "\<forall>a. st_applied_index S (w_storage w) = Inr (Some a) \<longrightarrow> i \<le> a"
    using compact(3,6) by simp
  ultimately show ?thesis
    using commit_compaction_result [of w i t] moved compact(5) unfolding compact(1) by auto
qed (use moved in simp)

end

end
