(* ===== verification/Raft_Membership.thy ===== *)
theory Raft_Membership
  imports Raft_Leader
begin

text \<open>
  Membership through whole turns of the worker: which turns change the membership the node counts
  quorums by, that every change goes through the joint membership recorded in the log, and that the
  joint membership is left only once its entry is committed.
\<close>

section \<open>Membership through a turn\<close>

text \<open>A turn in which the node follows no other leader's log: everything but AppendEntries and
  InstallSnapshot, which replace the membership with the one of the leader they come from.\<close>

definition own_turn :: "'n event \<Rightarrow> bool" where
  "own_turn ev = (case ev of EvMsg (MsgAppendEntries _ _) \<Rightarrow> False | EvMsg (MsgInstallSnapshot _ _) \<Rightarrow> False
                  | _ \<Rightarrow> True)"

definition same_membership :: "('n, 's) worker \<Rightarrow> ('n, 's) worker \<Rightarrow> bool" where
  "same_membership w w' \<longleftrightarrow> w_effective_cfg w' = w_effective_cfg w \<and>
     w_pending_joint_entry w' = w_pending_joint_entry w"

text \<open>The joint membership left for its new voters, with the joint entry committed.\<close>

definition finished_joint :: "('n, 's) worker \<Rightarrow> ('n, 's) worker \<Rightarrow> bool" where
  "finished_joint w w' \<longleftrightarrow> is_joint (w_effective_cfg w) \<and>
     w_effective_cfg w' = steady (ac_current (w_effective_cfg w)) \<and>
     (\<exists>j. w_pending_joint_entry w = Some j \<and> j \<le> commit_index (w_meta w'))"

definition kept_or_finished :: "('n, 's) worker \<Rightarrow> ('n, 's) worker \<Rightarrow> bool" where
  "kept_or_finished w w' \<longleftrightarrow> same_membership w w' \<or> finished_joint w w'"

lemma kept_same [intro]: "same_membership w w' \<Longrightarrow> kept_or_finished w w'"
  by (simp add: kept_or_finished_def)

lemma same_refl [simp]: "same_membership w w"
  by (simp add: same_membership_def)

lemma kept_before: "same_membership w w1 \<Longrightarrow> kept_or_finished w1 w2 \<Longrightarrow> kept_or_finished w w2"
  by (auto simp: kept_or_finished_def same_membership_def finished_joint_def)

lemma kept_after:
  "kept_or_finished w w1 \<Longrightarrow> same_membership w1 w2 \<Longrightarrow> w_meta w2 = w_meta w1 \<Longrightarrow> kept_or_finished w w2"
  by (auto simp: kept_or_finished_def same_membership_def finished_joint_def)

lemma commit_same: "commit S w b = (r, w') \<Longrightarrow> same_membership w w'"
  by (auto simp: commit_def case_prod_beta same_membership_def)

lemma auto_finalize_kept: "kept_or_finished w (snd (auto_finalize_joint_config S w))"
  by (auto simp: auto_finalize_joint_config_def Let_def kept_or_finished_def same_membership_def finished_joint_def
      split: option.split prod.split sum.split dest: commit_same [unfolded same_membership_def] commit_meta)

lemma try_advance_kept: "kept_or_finished w (snd (try_advance_commit_index S w))"
proof (cases "match_index_majority_floor S w")
  case (Some f)
  let ?m = "(w_meta w)\<lparr>commit_index := f\<rparr>"
  obtain r w2 where c: "commit S (w\<lparr>w_meta := ?m\<rparr>) (meta_batch ?m) = (r, w2)" by fastforce
  have w2: "same_membership w w2" using commit_same [OF c] by (simp add: same_membership_def)
  then have "same_membership w (fire_apply_notification w2)" by (simp add: same_membership_def)
  from kept_before [OF this auto_finalize_kept [of "fire_apply_notification w2" S]] w2 c Some show ?thesis
    by (cases r) (auto simp: try_advance_commit_index_def same_membership_def split: sum.split)
qed (auto simp: try_advance_commit_index_def same_membership_def)

lemma become_leader_kept: "kept_or_finished w (snd (become_leader_no_heartbeat S w))"
proof -
  let ?b = "write_batch_default\<lparr>wb_appends := [entry_data (st_last_index S (w_storage w) + 1) (current_term (w_meta w)) []]\<rparr>"
  obtain r w1 where c: "commit S w ?b = (r, w1)" by fastforce
  let ?w2 = "(set_role Leader w1)\<lparr>w_votes_received := [],
               w_leader := Some (leader_state_fresh (all_members (w_effective_cfg w1))
                                  (cfg_me (w_cfg w1)) (st_last_index S (w_storage w))),
               w_seen_leader := Some (cfg_me (w_cfg w1)),
               w_current_term_first_index := Some (st_last_index S (w_storage w) + 1)\<rparr>"
  have "same_membership w ?w2" using commit_same [OF c] by (simp add: same_membership_def)
  from kept_before [OF this try_advance_kept [of ?w2 S]] c commit_same [OF c] show ?thesis
    by (cases r) (auto simp: become_leader_no_heartbeat_def Let_def)
qed

lemma term_bump_same: "same_membership w (snd (term_bump_step_down S w t))"
  by (auto simp: term_bump_step_down_def persist_term_bump_def Let_def same_membership_def
      split: prod.split sum.split dest: commit_same [unfolded same_membership_def])

lemma request_vote_same: "same_membership w (snd (handle_request_vote S w req))"
  by (auto simp: handle_request_vote_def vote_term_state_def vote_cast_def Let_def same_membership_def
      split: prod.split sum.split dest: commit_same [unfolded same_membership_def])

lemma append_response_kept: "kept_or_finished w (snd (handle_append_response S w from resp))"
proof -
  have "kept_or_finished w (snd (case try_advance_commit_index S (w\<lparr>w_leader := l\<rparr>) of
        (Inl e, w2) \<Rightarrow> (Inl e, w2) | (Inr _, w2) \<Rightarrow> (Inr (), try_resolve_pending_reads S w2)))" for l
  proof -
    obtain r w2 where a: "try_advance_commit_index S (w\<lparr>w_leader := l\<rparr>) = (r, w2)" by fastforce
    have "kept_or_finished w w2"
      using kept_before [OF _ try_advance_kept [of "w\<lparr>w_leader := l\<rparr>" S]] a by (simp add: same_membership_def)
    with kept_after [OF this, of "try_resolve_pending_reads S w2"] a show ?thesis
      by (cases r) (simp_all add: same_membership_def)
  qed
  then show ?thesis
    using kept_same [OF term_bump_same] by (auto simp: handle_append_response_def Let_def same_membership_def split: option.split)
qed

lemma install_response_same: "same_membership w (snd (handle_install_snapshot_response S w from resp i t e f))"
  using term_bump_same [of w S]
  by (auto simp: handle_install_snapshot_response_def Let_def same_membership_def split: option.split)

lemma vote_response_kept: "kept_or_finished w (snd (handle_vote_response S w from resp))"
proof -
  let ?w1 = "w\<lparr>w_votes_received := bs_insert from (w_votes_received w)\<rparr>"
  obtain r w2 where b: "become_leader_no_heartbeat S ?w1 = (r, w2)" by fastforce
  have "kept_or_finished w w2"
    using kept_before [OF _ become_leader_kept [of ?w1 S]] b by (simp add: same_membership_def)
  with kept_after [OF this, of "deadline_now w2"] b kept_same [OF term_bump_same] show ?thesis
    by (cases r) (auto simp: handle_vote_response_def Let_def same_membership_def split: prod.split sum.split)
qed

lemma prevote_response_same: "same_membership w (snd (handle_prevote_response S w from nt resp))"
  using term_bump_same [of w S] by (auto simp: handle_prevote_response_def Let_def same_membership_def)

lemma propose_kept: "kept_or_finished w (snd (handle_propose S w payload))"
proof -
  let ?b = "write_batch_default\<lparr>wb_appends :=
              [entry_data (st_last_index S (w_storage w) + 1) (current_term (w_meta w)) payload]\<rparr>"
  obtain r w1 where c: "commit S w ?b = (r, w1)" by fastforce
  from kept_before [OF commit_same [OF c] try_advance_kept [of w1 S]] commit_same [OF c] c show ?thesis
    by (cases r) (auto simp: handle_propose_def Let_def same_membership_def)
qed

lemma compact_same: "same_membership w (snd (try_compact S w))"
proof -
  have "same_membership w (snd (commit_compaction S w i t))" for i t
    by (auto simp: commit_compaction_def Let_def same_membership_def
        split: prod.split sum.split dest: commit_same [unfolded same_membership_def])
  then show ?thesis by (auto simp: try_compact_def Let_def split: option.split sum.split)
qed

lemma same_trans: "same_membership w w1 \<Longrightarrow> same_membership w1 w2 \<Longrightarrow> same_membership w w2"
  by (simp add: same_membership_def)

lemma chunk_same: "same_membership w (snd (send_snapshot_chunk S w p i t))"
  by (simp add: send_snapshot_chunk_def Let_def case_prod_beta same_membership_def split: option.split)

lemma heartbeat_peers_same: "same_membership w (fst (snd (heartbeat_peers S l ps w pending)))"
proof (induction ps arbitrary: w pending)
  case (Cons p ps)
  have "same_membership w (fst (snd (heartbeat_peers S l ps (snd (send_snapshot_chunk S w p i t)) q)))" for i t q
    by (rule same_trans [OF chunk_same Cons.IH])
  with Cons.IH chunk_same show ?case by (auto simp: Let_def case_prod_beta split: sum.split)
qed (simp add: same_membership_def)

lemma heartbeats_same: "same_membership w (fst (snd (send_heartbeats S w pending)))"
proof (cases "w_leader w")
  case (Some l)
  let ?h = "heartbeat_peers S l (all_members (w_effective_cfg w)) w pending"
  have "same_membership w (snd (try_compact S (fst (snd ?h))))"
    by (rule same_trans [OF heartbeat_peers_same compact_same])
  with heartbeat_peers_same [of w S l "all_members (w_effective_cfg w)" pending] Some show ?thesis
    by (cases "fst ?h") (simp_all add: send_heartbeats_def case_prod_beta Let_def same_membership_def)
qed (simp add: send_heartbeats_def same_membership_def)

lemma read_index_same: "same_membership w (fst (handle_read_index S w pending timeout reply))"
proof -
  let ?p = "\<lambda>r d. w_pending_read_index w @ [\<lparr>pri_required_index = r, pri_deadline = d, pri_reply = reply\<rparr>]"
  have "same_membership w (fst (snd (send_heartbeats S (w\<lparr>w_pending_read_index := ?p r d\<rparr>) pending)))"
    "same_membership w (fst (snd (send_heartbeats S ((snd (clock_now w))\<lparr>w_pending_read_index := ?p r d\<rparr>) pending)))"
    for r d
    by (rule same_trans [OF _ heartbeats_same]; simp add: same_membership_def)+
  then show ?thesis
    by (cases timeout) (simp_all add: handle_read_index_def Let_def case_prod_beta same_membership_def)
qed

lemma start_election_kept: "kept_or_finished w (fst (snd (start_election S w pending)))"
proof -
  let ?me = "cfg_me (w_cfg w)"
  let ?m = "(w_meta w)\<lparr>current_term := current_term (w_meta w) + 1, voted_for := Some ?me\<rparr>"
  let ?w1 = "(set_role Candidate w)\<lparr>w_meta := ?m\<rparr>"
  obtain r w2 where c: "commit S ?w1 (meta_batch ?m) = (r, w2)" by fastforce
  have w2: "same_membership w w2" using commit_same [OF c] by (simp add: same_membership_def)
  let ?w3 = "w2\<lparr>w_votes_received := bs_insert ?me []\<rparr>"
  obtain r4 w4 where b: "become_leader_no_heartbeat S ?w3 = (r4, w4)" by fastforce
  have w4: "kept_or_finished w w4"
    using kept_before [OF _ become_leader_kept [of ?w3 S]] b w2 by (simp add: same_membership_def)
  with kept_after [OF this, of "deadline_now w4"] w2 c b show ?thesis
    by (cases r; cases r4)
      (auto simp: start_election_def Let_def commit_meta [OF c] same_membership_def kept_or_finished_def finished_joint_def)
qed

lemma timer_kept: "kept_or_finished w (fst (on_worker_timer S w pending))"
proof -
  have pre: "kept_or_finished w (fst (snd (start_pre_election S w' pending)))" if "same_membership w w'" for w w'
    using kept_before [OF that start_election_kept [of w' S pending]] that
    by (auto simp: start_pre_election_def Let_def same_membership_def)
  have "kept_or_finished w (reset_election_timer ((set_role Follower (w\<lparr>w_pre_candidate_misses := k\<rparr>))
          \<lparr>w_votes_received := [], w_pre_candidate_misses := 0\<rparr>))" for w :: "('a, 'b) worker" and k
    by (rule kept_same) (simp add: same_membership_def)
  then have timer: "kept_or_finished w (fst (on_timer S w pending))" for w
    using pre [of w w] pre [of w "w\<lparr>w_pre_candidate_misses := sat_add_u32 (w_pre_candidate_misses w) 1\<rparr>"]
      start_election_kept [of w S pending] kept_same [OF heartbeats_same [of w S pending]] kept_same [OF same_refl [of w]]
    by (cases "w_role w") (simp_all add: on_timer_def Let_def same_membership_def)
  let ?w2 = "expire_pending_reads (fst (clock_now w)) (snd (clock_now w))"
  have "same_membership w ?w2" by (simp add: same_membership_def)
  from kept_before [OF this timer] kept_same [OF this] show ?thesis
    by (simp add: on_worker_timer_def case_prod_beta Let_def)
qed

lemma outcome_kept: "kept_or_finished w (handle_rpc_outcome S w out)"
  using append_response_kept vote_response_kept kept_same [OF prevote_response_same] kept_same [OF install_response_same]
    kept_same [OF same_refl [of w]]
  by (auto simp: handle_rpc_outcome_def split: rpc_outcome.split option.split)

lemma prevote_same: "same_membership w (snd (handle_request_prevote S w req))"
  by (auto simp: handle_request_prevote_def Let_def case_prod_beta same_membership_def)

section \<open>An accepted change\<close>

context raft_storage
begin

lemma commit_keeps_log:
  assumes "commit S w b = (r, w')" and "wb_truncate_after b = None" "wb_compact_to b = None"
    and "k \<notin> le_index ` set (wb_appends b)"
  shows "bt_get (ms_log (view (w_storage w'))) k = bt_get (ms_log (view (w_storage w))) k"
proof (cases rule: commit_cases [of w b])
  case (ok s')
  have "map_of (rev (map (\<lambda>e. (le_index e, e)) (wb_appends b))) k = None"
    using assms(4) by (force simp: map_of_eq_None_iff)
  with ok assms show ?thesis by (simp add: bt_get_insert_all)
qed (use assms in auto)

lemma try_advance_keeps_log:
  assumes "k \<le> mem_last_index (view (w_storage w))" and mirror: "ms_meta (view (w_storage w)) = w_meta w"
  shows "bt_get (ms_log (view (w_storage (snd (try_advance_commit_index S w))))) k =
         bt_get (ms_log (view (w_storage w))) k"
proof -
  have fin: "bt_get (ms_log (view (w_storage (snd (auto_finalize_joint_config S w1))))) k =
      bt_get (ms_log (view (w_storage w1))) k" if "k \<le> mem_last_index (view (w_storage w1))" for w1
  proof -
    let ?i = "st_last_index S (w_storage w1) + 1" and ?ms = "ac_current (w_effective_cfg w1)"
    let ?b = "write_batch_default\<lparr>wb_appends := [entry_config_change ?i (current_term (w_meta w1)) None ?ms],
            wb_active_config := Some \<lparr>acr_log_index = Some ?i, acr_current = ?ms, acr_joint_old = None\<rparr>\<rparr>"
    obtain r w2 where c: "commit S w1 ?b = (r, w2)" by fastforce
    have "bt_get (ms_log (view (w_storage w2))) k = bt_get (ms_log (view (w_storage w1))) k"
      by (rule commit_keeps_log [OF c]) (use that in \<open>auto simp: last_index\<close>)
    with c show ?thesis
      by (cases r) (auto simp: auto_finalize_joint_config_def Let_def split: option.split)
  qed
  show ?thesis
  proof (cases "match_index_majority_floor S w")
    case (Some f)
    let ?m = "(w_meta w)\<lparr>commit_index := f\<rparr>"
    show ?thesis
    proof (cases rule: commit_cases [of "w\<lparr>w_meta := ?m\<rparr>" "meta_batch ?m"])
      case (ok s')
      have "ms_log (view s') = ms_log (view (w_storage w))" using ok by simp
      moreover have "k \<le> mem_last_index (view s')" using ok assms by (auto simp: mem_last_index_def bt_last_def split: option.splits)
      ultimately show ?thesis using ok Some fin [of "fire_apply_notification (w\<lparr>w_meta := ?m, w_storage := s'\<rparr>)"]
        by (auto simp: try_advance_commit_index_def split: sum.split)
    qed (use Some in \<open>auto simp: try_advance_commit_index_def split: sum.split\<close>)
  qed (simp add: try_advance_commit_index_def)
qed

lemma change_membership_turn:
  assumes inv: "worker_inv view w" and log: "node_log_ok view w"
    and h: "handle_change_membership S w ms = (r, w')" and moved: "\<not> same_membership w w'"
  defines "i \<equiv> mem_last_index (view (w_storage w)) + 1" and "old \<equiv> ac_current (w_effective_cfg w)"
  shows "r = Inr i \<and> w_role w = Leader \<and> \<not> is_joint (w_effective_cfg w) \<and> ms \<noteq> [] \<and>
    bt_get (ms_log (view (w_storage w'))) i = Some (entry_config_change i (current_term (w_meta w)) (Some old) ms) \<and>
    (w_effective_cfg w' = \<lparr>ac_current = ms, ac_joint_old = Some old\<rparr> \<and> w_pending_joint_entry w' = Some i \<or>
     w_effective_cfg w' = steady ms \<and> i \<le> commit_index (w_meta w'))"
proof -
  let ?e = "entry_config_change i (current_term (w_meta w)) (Some old) ms"
  let ?joint = "\<lparr>ac_current = ms, ac_joint_old = Some old\<rparr>"
  let ?b = "write_batch_default\<lparr>wb_appends := [?e],
              wb_active_config := Some \<lparr>acr_log_index = Some i, acr_current = ms, acr_joint_old = Some old\<rparr>\<rparr>"
  obtain r1 w1 where c: "commit S w ?b = (r1, w1)" by fastforce
  let ?w2 = "adopt_config S ?joint (Some i) (Some i) w1"
  have pre: "w_role w = Leader \<and> \<not> is_joint (w_effective_cfg w) \<and> ms \<noteq> []"
    using h moved by (auto simp: handle_change_membership_def split: if_splits)
  have r1: "r1 = Inr ()"
    using h moved commit_same [OF c] pre c by (cases r1) (simp_all add: handle_change_membership_def Let_def last_index i_def old_def)
  with h pre c have r: "r = Inr i" "w' = snd (try_advance_commit_index S ?w2)"
    by (simp_all add: handle_change_membership_def Let_def last_index i_def old_def)
  show ?thesis
  proof (cases rule: commit_cases [of w ?b])
    case (ok s')
    then have w1: "w1 = w\<lparr>w_storage := s'\<rparr>" using c by simp
    have "log_ok (view s') \<and> mem_last_index (view s') = i"
      using log_ok_push [of "view (w_storage w)" ?b ?e] log ok by (simp add: node_log_ok_def i_def)
    then have "bt_get (ms_log (view (w_storage w'))) i = bt_get (ms_log (view s')) i"
      using try_advance_keeps_log [of i ?w2] inv ok w1 r by (simp add: worker_inv_def)
    also have "\<dots> = Some ?e" using ok by simp
    finally have "bt_get (ms_log (view (w_storage w'))) i = Some ?e" .
    moreover have "kept_or_finished ?w2 w'" using try_advance_kept [of ?w2 S] r by simp
    ultimately show ?thesis using pre r
      by (auto simp: kept_or_finished_def same_membership_def finished_joint_def)
  qed (use c r1 in simp)
qed

text \<open>One turn of the worker.\<close>

lemma own_turn_membership:
  assumes inv: "worker_inv view w" and log: "node_log_ok view w"
    and turn: "loop_turn S now ev (w, pending) = Some (w', pending')" and own: "own_turn ev"
    and moved: "\<not> kept_or_finished w w'"
  defines "i \<equiv> mem_last_index (view (w_storage w)) + 1" and "old \<equiv> ac_current (w_effective_cfg w)"
  shows "\<exists>ms. ev = EvMsg (MsgChangeMembership ms) \<and> w_role w = Leader \<and> \<not> is_joint (w_effective_cfg w) \<and> ms \<noteq> [] \<and>
    bt_get (ms_log (view (w_storage w'))) i = Some (entry_config_change i (current_term (w_meta w)) (Some old) ms) \<and>
    (w_effective_cfg w' = \<lparr>ac_current = ms, ac_joint_old = Some old\<rparr> \<and> w_pending_joint_entry w' = Some i \<or>
     w_effective_cfg w' = steady ms \<and> i \<le> commit_index (w_meta w'))"
proof -
  have pub: "kept_or_finished w (publish_status S now x)" if "kept_or_finished w x" for x
    using that by (rule kept_after) (simp_all add: same_membership_def)
  obtain m where m: "ev = EvMsg m" "w' = publish_status S now (fst (snd (handle_msg S w pending m)))"
  proof (cases ev)
    case (EvMsg m)
    with turn that show ?thesis by (auto simp: loop_turn_def case_prod_beta Let_def split: raft_msg.splits)
  qed (use turn moved pub [OF timer_kept] pub [OF outcome_kept] in \<open>auto simp: loop_turn_def case_prod_beta Let_def\<close>)
  have "\<not> kept_or_finished w (fst (snd (handle_msg S w pending m)))" using moved m pub by blast
  then obtain ms where ms: "m = MsgChangeMembership ms"
    using own m kept_same [OF request_vote_same [of w S]] kept_same [OF prevote_same [of w S]] propose_kept [of w S]
      kept_same [OF read_index_same [of w S]] kept_same [OF same_refl [of w]]
    by (cases m) (auto simp: handle_msg_def case_prod_beta Let_def own_turn_def)
  obtain r x where h: "handle_change_membership S w ms = (r, x)" by fastforce
  have w': "w' = publish_status S now x" using m ms h by (simp add: handle_msg_def)
  have "\<not> same_membership w x" using moved w' pub by blast
  from change_membership_turn [OF inv log h this] show ?thesis unfolding i_def old_def w' m(1) ms by simp
qed

text \<open>The joint membership lasts until its entry is committed.\<close>

lemma own_run_joint:
  assumes "worker_inv view w" "node_log_ok view w" "is_joint (w_effective_cfg w)" "w_pending_joint_entry w = Some j"
    and "list_all (\<lambda>(now, ev). own_turn ev) evs" and "loop_run S evs (w, pending) = Some (w', pending')"
  shows "same_membership w w' \<or> j \<le> commit_index (w_meta w')"
  using assms
proof (induction evs arbitrary: w pending)
  case (Cons e evs)
  obtain now ev where e: "e = (now, ev)" by (cases e)
  with Cons.prems obtain w1 p1 where turn: "loop_turn S now ev (w, pending) = Some (w1, p1)"
    and rest: "loop_run S evs (w1, p1) = Some (w', pending')" and own: "own_turn ev" "list_all (\<lambda>(now, ev). own_turn ev) evs"
    by (auto split: option.splits)
  have inv1: "worker_inv view w1" using worker_stepD [OF loop_turn_step [OF Cons.prems(1) turn]] by simp
  have later: "commit_index (w_meta w1) \<le> commit_index (w_meta w')"
    using loop_run_step [OF inv1 rest] by (simp add: worker_step_def meta_step_def)
  have "kept_or_finished w w1" using own_turn_membership [OF Cons.prems(1,2) turn own(1)] Cons.prems(3) by blast
  then show ?case unfolding kept_or_finished_def
  proof
    assume same: "same_membership w w1"
    have "append_in_window w ev" using own(1) by (auto simp: append_in_window_def own_turn_def split: event.splits raft_msg.splits)
    from Cons.IH [OF inv1 loop_turn_log_ok [OF Cons.prems(2,1) this turn] _ _ own(2) rest] same Cons.prems(3,4)
    show ?thesis by (auto simp: same_membership_def)
  next
    assume "finished_joint w w1"
    with later Cons.prems(4) show ?thesis by (auto simp: finished_joint_def)
  qed
qed simp

end

end
