(* ===== verification/Raft_Install.thy ===== *)
theory Raft_Install
  imports Raft_Log
begin

text \<open>
  InstallSnapshot on the follower: what a completed install leaves in the store, that anything short
  of one leaves the log and the state alone, and that the buffer in which chunks are assembled
  stays within the configured \<open>max_snapshot_bytes\<close> through every turn.
\<close>

section \<open>A completed install\<close>

text \<open>The bytes that a request completes: the chunks buffered for the same transfer and its own.\<close>

definition assembled :: "'n \<Rightarrow> 'n install_snapshot_req \<Rightarrow> 'n incoming_snapshot option \<Rightarrow> byte list" where
  "assembled from req inc =
     (let buffer = in_buffer (current_incoming from req inc)
      in if is_offset req = length buffer then buffer @ is_data req else buffer)"

definition same_data :: "'n mem_storage \<Rightarrow> 'n mem_storage \<Rightarrow> bool" where
  "same_data s s' \<longleftrightarrow> ms_log s' = ms_log s \<and> ms_state s' = ms_state s"

definition installed :: "'n mem_storage \<Rightarrow> 'n install_snapshot_req \<Rightarrow> byte list \<Rightarrow> 'n mem_storage \<Rightarrow> bool" where
  "installed s req bytes s' \<longleftrightarrow>
     snap_last_index (ms_meta s') = is_last_included_index req \<and>
     snap_last_term (ms_meta s') = is_last_included_term req \<and>
     commit_index (ms_meta s') = max (commit_index (ms_meta s)) (is_last_included_index req) \<and>
     current_term (ms_meta s') = is_term req \<and> ms_state s' = bytes \<and>
     (\<forall>k. bt_get (ms_log s') k = (if k \<le> is_last_included_index req then None else bt_get (ms_log s) k))"

context raft_storage
begin

lemma commit_snapshot_effect:
  assumes h: "commit_snapshot S w m req bs = (r, w')" and mirror: "ms_meta (view (w_storage w)) = w_meta w"
    and tm: "current_term (w_meta w) = is_term req" and m: "snap_last_index m = snap_last_index (w_meta w)"
  shows "snap_last_index (w_meta w') = snap_last_index (w_meta w) \<and> same_data (view (w_storage w)) (view (w_storage w')) \<or>
    w_meta w' = ms_meta (view (w_storage w')) \<and> installed (view (w_storage w)) req bs (view (w_storage w'))"
proof (cases "supplied_config_index req")
  case (Some supplied)
  let ?m1 = "install_meta (w_meta w) req"
  let ?b = "write_batch_default\<lparr>
              wb_compact_to := Some (is_last_included_index req, is_last_included_term req),
              wb_state := Some bs, wb_meta := Some ?m1,
              wb_active_config := Some (snapshot_record m (w\<lparr>w_meta := ?m1\<rparr>) req supplied)\<rparr>"
  show ?thesis
  proof (cases rule: commit_cases [of "w\<lparr>w_meta := ?m1\<rparr>" ?b])
    case (ok s')
    then have "w_storage w' = s'" "w_meta w' = ?m1"
      using h Some by (auto simp: commit_snapshot_def Let_def)
    moreover have "installed (view (w_storage w)) req bs (view s') \<and> ms_meta (view s') = ?m1"
      using ok mirror tm by (auto simp: installed_def install_meta_def)
    ultimately show ?thesis by simp
  next
    case (err e s')
    then show ?thesis using h Some m by (auto simp: commit_snapshot_def Let_def same_data_def)
  qed
qed (use h in \<open>auto simp: commit_snapshot_def same_data_def\<close>)

lemma install_at_term_effect:
  assumes inv: "worker_inv view w" and h: "install_at_term S w from req = (r, w')"
    and tm: "current_term (w_meta w) = is_term req"
  shows "snap_last_index (w_meta w') = snap_last_index (w_meta w) \<and> same_data (view (w_storage w)) (view (w_storage w')) \<or>
    is_done req \<and> snap_last_index (w_meta w) < is_last_included_index req \<and> w_meta w' = ms_meta (view (w_storage w')) \<and>
    installed (view (w_storage w)) req (assembled from req (w_incoming_snapshot w)) (view (w_storage w'))"
proof -
  let ?w1 = "follow_leader (is_leader req) w"
  let ?inc = "current_incoming from req (w_incoming_snapshot w)"
  have snap: "st_snap_last_index S (w_storage w) = snap_last_index (w_meta w)"
    and mirror: "ms_meta (view (w_storage w)) = w_meta w"
    using inv by (simp_all add: snap_index worker_inv_def)
  have complete: "is_done req \<and> \<not> is_offset req > length (in_buffer ?inc) \<and>
      commit_snapshot S (?w1\<lparr>w_incoming_snapshot := None\<rparr>) (w_meta w) req (assembled from req (w_incoming_snapshot w)) = (r, w')
    \<or> w_storage w' = w_storage w \<and> w_meta w' = w_meta w"
    if "is_last_included_index req > snap_last_index (w_meta w)"
    using h that snap by (auto simp: install_at_term_def receive_chunk_def assembled_def Let_def split: if_splits)
  have "w_storage w' = w_storage w \<and> w_meta w' = w_meta w"
    if "is_last_included_index req \<le> snap_last_index (w_meta w)"
    using h that snap by (auto simp: install_at_term_def)
  with complete commit_snapshot_effect [where w = "?w1\<lparr>w_incoming_snapshot := None\<rparr>" and m = "w_meta w" and req = req
      and bs = "assembled from req (w_incoming_snapshot w)" and r = r and w' = w'] mirror tm
  show ?thesis by (cases "is_last_included_index req > snap_last_index (w_meta w)") (auto simp: same_data_def)
qed

lemma handle_install_snapshot_effect:
  assumes inv: "worker_inv view w" and h: "handle_install_snapshot S w from req = (r, w')"
  shows "snap_last_index (w_meta w') = snap_last_index (w_meta w) \<and> same_data (view (w_storage w)) (view (w_storage w')) \<or>
    is_done req \<and> snap_last_index (w_meta w) < is_last_included_index req \<and> w_meta w' = ms_meta (view (w_storage w')) \<and>
    installed (view (w_storage w)) req
      (assembled from req (if is_term req = current_term (w_meta w) then w_incoming_snapshot w else None))
      (view (w_storage w'))"
proof (cases "is_term req > current_term (w_meta w)")
  case True
  let ?b = "meta_batch ((w_meta w)\<lparr>current_term := is_term req, voted_for := None\<rparr>)"
  show ?thesis
  proof (cases rule: commit_cases [of w ?b])
    case (ok s')
    let ?w1 = "w\<lparr>w_storage := s', w_meta := (w_meta w)\<lparr>current_term := is_term req, voted_for := None\<rparr>,
                 w_seen_leader := None, w_incoming_snapshot := None\<rparr>"
    have "worker_inv view ?w1" using inv ok by (simp add: worker_inv_def)
    moreover have "install_at_term S ?w1 from req = (r, w')"
      using h True ok by (simp add: handle_install_snapshot_def persist_term_bump_def Let_def)
    ultimately have "snap_last_index (w_meta w') = snap_last_index (w_meta w) \<and> same_data (view s') (view (w_storage w')) \<or>
      is_done req \<and> snap_last_index (w_meta w) < is_last_included_index req \<and> w_meta w' = ms_meta (view (w_storage w')) \<and>
      installed (view s') req (assembled from req None) (view (w_storage w'))"
      using install_at_term_effect [of ?w1 "from" req r w'] by simp
    moreover have "ms_log (view s') = ms_log (view (w_storage w))" "ms_state (view s') = ms_state (view (w_storage w))"
      "commit_index (ms_meta (view s')) = commit_index (ms_meta (view (w_storage w)))"
      using ok inv by (simp_all add: worker_inv_def)
    ultimately show ?thesis using True by (auto simp: same_data_def installed_def)
  next
    case (err e s')
    with h True show ?thesis
      by (auto simp: handle_install_snapshot_def persist_term_bump_def Let_def same_data_def)
  qed
next
  case False
  with h install_at_term_effect [OF inv, of "from" req r w'] show ?thesis
    by (cases "is_term req < current_term (w_meta w)")
      (auto simp: handle_install_snapshot_def same_data_def split: if_splits)
qed

end

section \<open>The assembly buffer\<close>

definition buffer_bounded :: "('n, 's) worker \<Rightarrow> bool" where
  "buffer_bounded w \<longleftrightarrow>
     (case w_incoming_snapshot w of None \<Rightarrow> 0 | Some inc \<Rightarrow> length (in_buffer inc)) \<le> max_snapshot_bytes (w_cfg w)"

definition buffer_kept :: "('n, 's) worker \<Rightarrow> ('n, 's) worker \<Rightarrow> bool" where
  "buffer_kept w w' \<longleftrightarrow> w_cfg w' = w_cfg w \<and>
     (w_incoming_snapshot w' = w_incoming_snapshot w \<or> w_incoming_snapshot w' = None)"

lemma buffer_kept_bounded: "buffer_kept w w' \<Longrightarrow> buffer_bounded w \<Longrightarrow> buffer_bounded w'"
  by (auto simp: buffer_kept_def buffer_bounded_def)

lemma buffer_kept_trans: "buffer_kept w w1 \<Longrightarrow> buffer_kept w1 w2 \<Longrightarrow> buffer_kept w w2"
  by (auto simp: buffer_kept_def)

lemma buffer_kept_refl [simp]: "buffer_kept w w"
  by (simp add: buffer_kept_def)

lemma buffer_kept_frame [simp]:
  "buffer_kept w (w'\<lparr>w_leader := l\<rparr>) = buffer_kept w w'" "buffer_kept (w\<lparr>w_leader := l\<rparr>) w' = buffer_kept w w'"
  "buffer_kept w (w'\<lparr>w_votes_received := vs\<rparr>) = buffer_kept w w'"
  "buffer_kept (w\<lparr>w_votes_received := vs\<rparr>) w' = buffer_kept w w'"
  "buffer_kept w (w'\<lparr>w_pre_candidate_misses := k\<rparr>) = buffer_kept w w'"
  "buffer_kept w (try_resolve_pending_reads S w') = buffer_kept w w'" "buffer_kept w (deadline_now w') = buffer_kept w w'"
  "buffer_kept w (set_role r w') = buffer_kept w w'" "buffer_kept w (reset_election_timer w') = buffer_kept w w'"
  by (simp_all add: buffer_kept_def)

lemma commit_buffer: "commit S w b = (r, w') \<Longrightarrow> w_incoming_snapshot w' = w_incoming_snapshot w \<and> w_cfg w' = w_cfg w"
  by (auto simp: commit_def case_prod_beta)

lemma receive_chunk_bounded:
  assumes "buffer_bounded w" and cap: "max_snapshot_bytes (w_cfg w) < u64_max"
  shows "buffer_bounded (snd (receive_chunk S w m from req))"
proof -
  let ?inc = "current_incoming from req (w_incoming_snapshot w)"
  have inc: "length (in_buffer ?inc) \<le> max_snapshot_bytes (w_cfg w)"
    using assms(1) by (auto simp: current_incoming_def fresh_incoming_def buffer_bounded_def split: option.splits)
  have sum: "a + b \<le> max_snapshot_bytes (w_cfg w)" if "\<not> sat_add_u64 a b > max_snapshot_bytes (w_cfg w)" for a b
    using that cap by (auto simp: sat_add_u64_def min_def split: if_splits)
  have commit: "w_incoming_snapshot (snd (commit_snapshot S (w\<lparr>w_incoming_snapshot := None\<rparr>) m req bs)) = None" for bs
    by (auto simp: commit_snapshot_def Let_def split: option.split prod.split sum.split dest: commit_buffer)
  let ?h = "receive_chunk S w m from req"
  consider "w_incoming_snapshot (snd ?h) = None"
    | "w_cfg (snd ?h) = w_cfg w" "w_incoming_snapshot (snd ?h) = Some ?inc"
    | "w_cfg (snd ?h) = w_cfg w" "\<not> sat_add_u64 (length (in_buffer ?inc)) (length (is_data req)) > max_snapshot_bytes (w_cfg w)"
      "w_incoming_snapshot (snd ?h) = Some (?inc\<lparr>in_buffer := in_buffer ?inc @ is_data req\<rparr>)"
    by (cases "is_done req"; cases "is_offset req > length (in_buffer ?inc)"; cases "is_offset req = length (in_buffer ?inc)";
        cases "sat_add_u64 (length (in_buffer ?inc)) (length (is_data req)) > max_snapshot_bytes (w_cfg w)")
      (auto simp: receive_chunk_def Let_def commit)
  then show ?thesis
    using inc sum [of "length (in_buffer ?inc)" "length (is_data req)"] by cases (auto simp: buffer_bounded_def)
qed

lemma handle_install_bounded:
  assumes "buffer_bounded w" and "max_snapshot_bytes (w_cfg w) < u64_max"
  shows "buffer_bounded (snd (handle_install_snapshot S w from req))"
proof -
  have at: "buffer_bounded (snd (install_at_term S w' from req))"
    if "buffer_bounded w'" "w_cfg w' = w_cfg w" for w'
    using that assms(2) receive_chunk_bounded [of "follow_leader (is_leader req) w'" S "w_meta w'" "from" req]
    by (simp add: install_at_term_def Let_def buffer_bounded_def)
  have "buffer_kept w (snd (persist_term_bump S w (is_term req)))"
    by (auto simp: persist_term_bump_def Let_def buffer_kept_def split: prod.split sum.split dest: commit_buffer)
  then show ?thesis
    using at [of w] assms at [of "(snd (persist_term_bump S w (is_term req)))\<lparr>w_seen_leader := None, w_incoming_snapshot := None\<rparr>"]
      buffer_kept_bounded [of w "snd (persist_term_bump S w (is_term req))"]
    by (auto simp: handle_install_snapshot_def buffer_kept_def buffer_bounded_def split: prod.split sum.split
        dest!: arg_cong [where f = snd])
qed

subsection \<open>The other handlers\<close>

lemma auto_finalize_buffer: "buffer_kept w (snd (auto_finalize_joint_config S w))"
  by (auto simp: auto_finalize_joint_config_def Let_def buffer_kept_def
      split: option.split prod.split sum.split dest: commit_buffer)

lemma try_advance_buffer: "buffer_kept w (snd (try_advance_commit_index S w))"
proof (cases "match_index_majority_floor S w")
  case (Some f)
  let ?m = "(w_meta w)\<lparr>commit_index := f\<rparr>"
  obtain r w2 where c: "commit S (w\<lparr>w_meta := ?m\<rparr>) (meta_batch ?m) = (r, w2)" by fastforce
  have "buffer_kept w (fire_apply_notification w2)" using commit_buffer [OF c] by (simp add: buffer_kept_def)
  from buffer_kept_trans [OF this auto_finalize_buffer [of "fire_apply_notification w2" S]] commit_buffer [OF c] c Some
  show ?thesis by (cases r) (auto simp: try_advance_commit_index_def buffer_kept_def split: sum.split)
qed (simp add: try_advance_commit_index_def)

lemma become_leader_buffer: "buffer_kept w (snd (become_leader_no_heartbeat S w))"
proof -
  let ?b = "write_batch_default\<lparr>wb_appends := [entry_data (st_last_index S (w_storage w) + 1) (current_term (w_meta w)) []]\<rparr>"
  obtain r w1 where c: "commit S w ?b = (r, w1)" by fastforce
  let ?w2 = "(set_role Leader w1)\<lparr>w_votes_received := [],
               w_leader := Some (leader_state_fresh (all_members (w_effective_cfg w1))
                                  (cfg_me (w_cfg w1)) (st_last_index S (w_storage w))),
               w_seen_leader := Some (cfg_me (w_cfg w1)),
               w_current_term_first_index := Some (st_last_index S (w_storage w) + 1)\<rparr>"
  have "buffer_kept w ?w2" using commit_buffer [OF c] by (simp add: buffer_kept_def)
  from buffer_kept_trans [OF this try_advance_buffer [of ?w2 S]] c commit_buffer [OF c] show ?thesis
    by (cases r) (simp_all add: become_leader_no_heartbeat_def Let_def buffer_kept_def)
qed

lemma term_bump_buffer: "buffer_kept w (snd (term_bump_step_down S w t))"
  by (auto simp: term_bump_step_down_def persist_term_bump_def Let_def buffer_kept_def
      split: prod.split sum.split dest: commit_buffer)

lemma append_consistent_buffer: "buffer_kept w (snd (append_consistent S w m req))"
  by (auto simp: append_consistent_def Let_def buffer_kept_def split: prod.split sum.split option.split
      dest: commit_buffer)

lemma append_entries_buffer: "buffer_kept w (snd (handle_append_entries S w req))"
proof -
  let ?w1 = "follow_leader (ae_leader req) (append_adopt_term (ae_term req) w)"
  have w1: "buffer_kept w ?w1" by (auto simp: buffer_kept_def append_adopt_term_def)
  obtain r2 w2 where c: "commit S ?w1 (meta_batch (w_meta ?w1)) = (r2, w2)" by fastforce
  have "buffer_kept w (?w1\<lparr>w_meta := m\<rparr>)" "buffer_kept w w2" "buffer_kept w (w2\<lparr>w_meta := m\<rparr>)" for m
    using w1 commit_buffer [OF c] by (auto simp: buffer_kept_def)
  with c buffer_kept_trans [OF w1 append_consistent_buffer [of ?w1 S]] show ?thesis
    by (cases r2) (auto simp: handle_append_entries_def Let_def split: sum.split)
qed

lemma request_vote_buffer: "buffer_kept w (snd (handle_request_vote S w req))"
  by (auto simp: handle_request_vote_def vote_term_state_def vote_cast_def append_adopt_term_def Let_def buffer_kept_def
      split: prod.split sum.split dest: commit_buffer)

lemma append_response_buffer: "buffer_kept w (snd (handle_append_response S w from resp))"
proof -
  have "buffer_kept w (snd (case try_advance_commit_index S (w\<lparr>w_leader := l\<rparr>) of
        (Inl e, w2) \<Rightarrow> (Inl e, w2) | (Inr _, w2) \<Rightarrow> (Inr (), try_resolve_pending_reads S w2)))" for l
    using try_advance_buffer [of "w\<lparr>w_leader := l\<rparr>" S] by (auto split: prod.split sum.split)
  then show ?thesis
    using term_bump_buffer [of w S] by (auto simp: handle_append_response_def Let_def split: option.split)
qed

lemma install_response_buffer: "buffer_kept w (snd (handle_install_snapshot_response S w from resp i t e f))"
  using term_bump_buffer [of w S]
  by (auto simp: handle_install_snapshot_response_def Let_def split: option.split)

lemma vote_response_buffer: "buffer_kept w (snd (handle_vote_response S w from resp))"
proof -
  let ?w1 = "w\<lparr>w_votes_received := bs_insert from (w_votes_received w)\<rparr>"
  have "buffer_kept w (snd (become_leader_no_heartbeat S ?w1))"
    using become_leader_buffer [of ?w1 S] by simp
  with term_bump_buffer [of w S] show ?thesis
    by (auto simp: handle_vote_response_def Let_def split: prod.split sum.split)
qed

lemma prevote_response_buffer: "buffer_kept w (snd (handle_prevote_response S w from nt resp))"
  using term_bump_buffer [of w S] by (auto simp: handle_prevote_response_def Let_def)

lemma propose_buffer: "buffer_kept w (snd (handle_propose S w payload))"
proof -
  let ?b = "write_batch_default\<lparr>wb_appends :=
              [entry_data (st_last_index S (w_storage w) + 1) (current_term (w_meta w)) payload]\<rparr>"
  obtain r w1 where c: "commit S w ?b = (r, w1)" by fastforce
  have "buffer_kept w w1" using commit_buffer [OF c] by (simp add: buffer_kept_def)
  from buffer_kept_trans [OF this try_advance_buffer [of w1 S]] this c show ?thesis
    by (cases r) (simp_all add: handle_propose_def Let_def)
qed

lemma change_membership_buffer: "buffer_kept w (snd (handle_change_membership S w ms))"
proof -
  let ?i = "st_last_index S (w_storage w) + 1" and ?old = "ac_current (w_effective_cfg w)"
  let ?b = "write_batch_default\<lparr>wb_appends := [entry_config_change ?i (current_term (w_meta w)) (Some ?old) ms],
              wb_active_config := Some \<lparr>acr_log_index = Some ?i, acr_current = ms, acr_joint_old = Some ?old\<rparr>\<rparr>"
  obtain r w1 where c: "commit S w ?b = (r, w1)" by fastforce
  let ?w2 = "adopt_config S \<lparr>ac_current = ms, ac_joint_old = Some ?old\<rparr> (Some ?i) (Some ?i) w1"
  have "buffer_kept w ?w2" using commit_buffer [OF c] by (simp add: buffer_kept_def)
  from buffer_kept_trans [OF this try_advance_buffer [of ?w2 S]] commit_buffer [OF c] c show ?thesis
    by (cases r) (simp_all add: handle_change_membership_def Let_def buffer_kept_def)
qed

lemma compact_buffer: "buffer_kept w (snd (try_compact S w))"
proof -
  have "buffer_kept w (snd (commit_compaction S w i t))" for i t
    by (auto simp: commit_compaction_def Let_def buffer_kept_def split: prod.split sum.split dest: commit_buffer)
  then show ?thesis by (auto simp: try_compact_def Let_def split: option.split sum.split)
qed

lemma heartbeat_peers_buffer: "buffer_kept w (fst (snd (heartbeat_peers S l ps w pending)))"
proof (induction ps arbitrary: w pending)
  case (Cons p ps)
  have chunk: "buffer_kept w (snd (send_snapshot_chunk S w p i t))" for i t
    by (simp add: send_snapshot_chunk_def Let_def case_prod_beta buffer_kept_def split: option.split)
  have "buffer_kept w (fst (snd (heartbeat_peers S l ps (snd (send_snapshot_chunk S w p i t)) q)))" for i t q
    by (rule buffer_kept_trans [OF chunk Cons.IH])
  with Cons.IH chunk show ?case by (auto simp: Let_def case_prod_beta split: sum.split)
qed simp

lemma heartbeats_buffer: "buffer_kept w (fst (snd (send_heartbeats S w pending)))"
proof (cases "w_leader w")
  case (Some l)
  let ?h = "heartbeat_peers S l (all_members (w_effective_cfg w)) w pending"
  have "buffer_kept w (snd (try_compact S (fst (snd ?h))))"
    by (rule buffer_kept_trans [OF heartbeat_peers_buffer compact_buffer])
  with heartbeat_peers_buffer [of w S l "all_members (w_effective_cfg w)" pending] Some show ?thesis
    by (cases "fst ?h") (simp_all add: send_heartbeats_def case_prod_beta Let_def buffer_kept_def)
qed (simp add: send_heartbeats_def)

lemma read_index_buffer: "buffer_kept w (fst (handle_read_index S w pending timeout reply))"
proof -
  let ?p = "\<lambda>r d. w_pending_read_index w @ [\<lparr>pri_required_index = r, pri_deadline = d, pri_reply = reply\<rparr>]"
  have "buffer_kept w (fst (snd (send_heartbeats S (w\<lparr>w_pending_read_index := ?p r d\<rparr>) pending)))"
    "buffer_kept w (fst (snd (send_heartbeats S ((snd (clock_now w))\<lparr>w_pending_read_index := ?p r d\<rparr>) pending)))"
    for r d
    by (rule buffer_kept_trans [OF _ heartbeats_buffer]; simp add: buffer_kept_def)+
  then show ?thesis
    by (cases timeout) (simp_all add: handle_read_index_def Let_def case_prod_beta buffer_kept_def)
qed

lemma start_election_buffer: "buffer_kept w (fst (snd (start_election S w pending)))"
proof -
  let ?me = "cfg_me (w_cfg w)"
  let ?m = "(w_meta w)\<lparr>current_term := current_term (w_meta w) + 1, voted_for := Some ?me\<rparr>"
  let ?w1 = "(set_role Candidate w)\<lparr>w_meta := ?m\<rparr>"
  obtain r w2 where c: "commit S ?w1 (meta_batch ?m) = (r, w2)" by fastforce
  let ?w3 = "w2\<lparr>w_votes_received := bs_insert ?me []\<rparr>"
  obtain r4 w4 where b: "become_leader_no_heartbeat S ?w3 = (r4, w4)" by fastforce
  have "buffer_kept w ?w3" using commit_buffer [OF c] by (simp add: buffer_kept_def)
  from buffer_kept_trans [OF this become_leader_buffer [of ?w3 S]] commit_buffer [OF c] c b show ?thesis
    by (cases r; cases r4) (auto simp: start_election_def Let_def commit_meta [OF c] buffer_kept_def)
qed

lemma timer_buffer: "buffer_kept w (fst (on_worker_timer S w pending))"
proof -
  have pre: "buffer_kept w (fst (snd (start_pre_election S w pending)))" for w
    using start_election_buffer [of w S pending] by (auto simp: start_pre_election_def Let_def buffer_kept_def)
  have "buffer_kept w (fst (on_timer S w pending))" for w
    using pre [of w] pre [of "w\<lparr>w_pre_candidate_misses := sat_add_u32 (w_pre_candidate_misses w) 1\<rparr>"]
      start_election_buffer [of w S pending] heartbeats_buffer [of w S pending]
    by (cases "w_role w") (simp_all add: on_timer_def Let_def buffer_kept_def)
  from this [of "expire_pending_reads (fst (clock_now w)) (snd (clock_now w))"] show ?thesis
    by (simp add: on_worker_timer_def case_prod_beta Let_def buffer_kept_def)
qed

lemma outcome_buffer: "buffer_kept w (handle_rpc_outcome S w out)"
  using append_response_buffer [of w S] vote_response_buffer [of w S] prevote_response_buffer [of w S]
    install_response_buffer [of w S]
  by (auto simp: handle_rpc_outcome_def split: rpc_outcome.split option.split)

lemma handle_msg_buffer:
  assumes "buffer_bounded w" and "max_snapshot_bytes (w_cfg w) < u64_max"
  shows "buffer_bounded (fst (snd (handle_msg S w pending m)))"
proof -
  have pv: "buffer_kept w (snd (handle_request_prevote S w req))" for req
    by (auto simp: handle_request_prevote_def Let_def case_prod_beta buffer_kept_def)
  note kept = buffer_kept_bounded [OF _ assms(1)]
  show ?thesis
    using assms(1) kept [OF pv] kept [OF append_entries_buffer [of w S]] kept [OF request_vote_buffer [of w S]]
      handle_install_bounded [OF assms, of S] kept [OF propose_buffer [of w S]] kept [OF change_membership_buffer [of w S]]
      kept [OF read_index_buffer [of w S]]
    by (cases m) (simp_all add: handle_msg_def case_prod_beta Let_def)
qed

lemma loop_turn_buffer:
  assumes "buffer_bounded w" and "max_snapshot_bytes (w_cfg w) < u64_max"
    and "loop_turn S now ev (w, pending) = Some (w', pending')"
  shows "buffer_bounded w'"
proof -
  have pub: "buffer_bounded (publish_status S now x)" if "buffer_bounded x" for x
    using that by (simp add: buffer_bounded_def)
  note kept = buffer_kept_bounded [OF _ assms(1)]
  show ?thesis
  proof (cases ev)
    case (EvMsg m)
    with assms(3) have "w' = publish_status S now (fst (snd (handle_msg S w pending m)))"
      by (auto simp: loop_turn_def case_prod_beta Let_def split: raft_msg.splits)
    with pub [OF handle_msg_buffer [OF assms(1,2)]] show ?thesis by simp
  qed (use assms(3) pub [OF kept [OF timer_buffer]] pub [OF kept [OF outcome_buffer]]
      in \<open>auto simp: loop_turn_def case_prod_beta Let_def\<close>)
qed

end
