(* ===== verification/Raft_Snapshot.thy ===== *)
theory Raft_Snapshot
  imports Raft_Log
begin

text \<open>
  Chunked snapshot transfer between a leader and one follower, on \<open>MemStorage\<close>: one
  round is the leader's next chunk, the follower's handling of it and the leader's handling of
  the reply. Repeating it installs exactly the leader's state bytes, in at most one round per
  byte plus one, and fewer for larger chunks.
\<close>

type_synonym 'n mem_worker = "('n, 'n mem_storage) worker"

definition stream_round :: "'n::linorder \<Rightarrow> nat \<Rightarrow> nat \<Rightarrow> 'n mem_worker \<times> 'n mem_worker \<Rightarrow> 'n mem_worker \<times> 'n mem_worker" where
  "stream_round peer si st lf =
     (let (l, f) = lf;
          S = (mem_ops :: ('n, 'n mem_storage, unit) storage_ops)
      in case send_snapshot_chunk S l peer si st of
           (CallInstall _ req i t chunk_end final, l1) \<Rightarrow>
             (case handle_install_snapshot S f (cfg_me (w_cfg l)) req of
                (Inr resp, f1) \<Rightarrow> (snd (handle_install_snapshot_response S l1 peer resp i t chunk_end final), f1)
              | (Inl e, f1) \<Rightarrow> (l1, f1))
         | (_, l1) \<Rightarrow> (l1, f))"

fun stream_rounds :: "nat \<Rightarrow> 'n::linorder \<Rightarrow> nat \<Rightarrow> nat \<Rightarrow> 'n mem_worker \<times> 'n mem_worker \<Rightarrow> 'n mem_worker \<times> 'n mem_worker" where
  "stream_rounds 0 peer si st lf = lf"
| "stream_rounds (Suc n) peer si st lf = stream_rounds n peer si st (stream_round peer si st lf)"

definition received_bytes :: "'n mem_worker \<Rightarrow> 'n \<Rightarrow> nat \<Rightarrow> nat \<Rightarrow> nat \<Rightarrow> byte list" where
  "received_bytes f ldr term si st =
     (case w_incoming_snapshot f of None \<Rightarrow> []
      | Some s \<Rightarrow> if in_leader s = ldr \<and> in_term s = term \<and> in_last_included_index s = si \<and>
                     in_last_included_term s = st then in_buffer s else [])"

text \<open>A transfer that has delivered the first \<open>off\<close> bytes.\<close>

definition transferring ::
  "'n::linorder \<Rightarrow> nat \<Rightarrow> nat \<Rightarrow> nat \<Rightarrow> 'n mem_worker \<times> 'n mem_worker \<Rightarrow> bool" where
  "transferring peer si st off lf \<longleftrightarrow>
     (let (l, f) = lf; bytes = ms_state (w_storage l)
      in off \<le> length bytes \<and> length bytes \<le> u64_max \<and> si < u64_max \<and>
         w_role l = Leader \<and> w_leader l \<noteq> None \<and> ac_current (w_effective_cfg l) \<noteq> [] \<and>
         resume_offset l peer si st = off \<and>
         current_term (w_meta f) = current_term (w_meta l) \<and>
         snap_last_index (ms_meta (w_storage f)) < si \<and>
         received_bytes f (cfg_me (w_cfg l)) (current_term (w_meta l)) si st = take off bytes)"

text \<open>The same, with a follower that accepts a snapshot of this size.\<close>

definition streaming ::
  "'n::linorder \<Rightarrow> nat \<Rightarrow> nat \<Rightarrow> nat \<Rightarrow> 'n mem_worker \<times> 'n mem_worker \<Rightarrow> bool" where
  "streaming peer si st off lf \<longleftrightarrow> transferring peer si st off lf \<and>
     length (ms_state (w_storage (fst lf))) \<le> max_snapshot_bytes (w_cfg (snd lf))"

text \<open>A transfer that is over: the follower holds the bytes under the new boundary, and the
  leader counts the follower as caught up to it.\<close>

definition streamed :: "'n::linorder \<Rightarrow> nat \<Rightarrow> nat \<Rightarrow> byte list \<Rightarrow> 'n mem_worker \<times> 'n mem_worker \<Rightarrow> bool" where
  "streamed peer si st bytes lf \<longleftrightarrow>
     (let (l, f) = lf
      in ms_state (w_storage f) = bytes \<and> ms_applied_index (w_storage f) = Some si \<and>
         snap_last_index (ms_meta (w_storage f)) = si \<and> snap_last_term (ms_meta (w_storage f)) = st \<and>
         (\<exists>ls. w_leader l = Some ls \<and> bt_get (next_index ls) peer = Some (si + 1) \<and>
               (\<exists>m. bt_get (match_index ls) peer = Some m \<and> si \<le> m)))"

lemma snapshot_chunk_spec:
  assumes "snapshot_chunk bytes off c = (chunk, stop, final)" and "off \<le> length bytes"
  shows "take off bytes @ chunk = take stop bytes" and "length chunk = stop - off" and "off \<le> stop"
    and "stop \<le> length bytes" and "final \<longleftrightarrow> stop = length bytes" and "\<not> final \<Longrightarrow> off < stop"
proof -
  have stop: "stop = min (off + max c 1) (length bytes)"
    and chunk: "chunk = take (stop - off) (drop off bytes)"
    and final: "final \<longleftrightarrow> stop \<ge> length bytes"
    using assms by (auto simp: snapshot_chunk_def Let_def)
  show le: "off \<le> stop" "stop \<le> length bytes" "final \<longleftrightarrow> stop = length bytes"
    using stop final assms(2) by auto
  show "\<not> final \<Longrightarrow> off < stop" using stop le by (auto simp: min_def max_def split: if_splits)
  show "take off bytes @ chunk = take stop bytes"
    using le by (simp add: chunk flip: take_add)
  show "length chunk = stop - off" using le chunk by simp
qed

text \<open>The request of a round, with its chunk.\<close>

lemma send_chunk_request:
  assumes s: "streaming peer si st off (l, f)" and ls: "w_leader l = Some ls"
    and c: "snapshot_chunk (ms_state (w_storage l)) off (install_snapshot_chunk_bytes (w_cfg l)) = (chunk, stop, final)"
  obtains req where
    "send_snapshot_chunk (mem_ops :: ('n::linorder, 'n mem_storage, unit) storage_ops) l peer si st =
       (CallInstall peer req si st stop final,
        l\<lparr>w_leader := Some (ls\<lparr>snapshot_send := bt_insert peer \<lparr>ss_last_included_index = si,
            ss_last_included_term = st, ss_offset = off\<rparr> (snapshot_send ls)\<rparr>)\<rparr>)"
    "is_term req = current_term (w_meta l)" "is_last_included_index req = si"
    "is_last_included_term req = st" "is_offset req = off" "is_done req = final" "is_data req = chunk"
    "supplied_config_index req \<noteq> None"
proof -
  have off: "resume_offset l peer si st = off" and ne: "ac_current (w_effective_cfg l) \<noteq> []"
    using s by (simp_all add: streaming_def transferring_def Let_def)
  define carries where "carries \<longleftrightarrow> final \<and> (case w_active_config_index l of None \<Rightarrow> False
                                  | Some index \<Rightarrow> index \<le> si)"
  define req where "req = \<lparr>is_leader = cfg_me (w_cfg l), is_term = current_term (w_meta l),
                 is_last_included_index = si, is_last_included_term = st,
                 is_offset = off, is_done = final, is_data = chunk,
                 is_members = (if carries then ac_current (w_effective_cfg l) else []),
                 is_joint_old = (if carries then ac_joint_old (w_effective_cfg l) else None),
                 is_active_config_index = (if carries then w_active_config_index l else None)\<rparr>"
  have "supplied_config_index req \<noteq> None"
    using ne by (auto simp: supplied_config_index_def req_def carries_def split: option.splits if_splits)
  moreover have "send_snapshot_chunk mem_ops l peer si st =
       (CallInstall peer req si st stop final,
        l\<lparr>w_leader := Some (ls\<lparr>snapshot_send := bt_insert peer \<lparr>ss_last_included_index = si,
            ss_last_included_term = st, ss_offset = off\<rparr> (snapshot_send ls)\<rparr>)\<rparr>)"
    using c ls by (simp add: send_snapshot_chunk_def off mem_ops_def Let_def req_def carries_def)
  ultimately show ?thesis using that [of req] by (simp add: req_def)
qed

text \<open>The follower's side of a round.\<close>

lemma receive_round:
  assumes tm: "is_term req = current_term (w_meta f)"
    and snap: "snap_last_index (ms_meta (w_storage f)) < is_last_included_index req"
    and buf: "received_bytes f ldr (is_term req) (is_last_included_index req) (is_last_included_term req) = take off bytes"
    and req: "is_offset req = off" "off \<le> length bytes" "length (is_data req) \<le> length bytes - off"
    and cap: "length bytes \<le> max_snapshot_bytes (w_cfg f)" "length bytes \<le> u64_max"
  shows "handle_install_snapshot (mem_ops :: ('n::linorder, 'n mem_storage, unit) storage_ops) f ldr req =
    (let f1 = follow_leader (is_leader req) f;
         buffer = take off bytes @ is_data req
     in if is_done req then commit_snapshot mem_ops (f1\<lparr>w_incoming_snapshot := None\<rparr>) (w_meta f) req buffer
        else (Inr \<lparr>ir_term = is_term req, ir_bytes_received = length buffer\<rparr>,
              f1\<lparr>w_incoming_snapshot := Some \<lparr>in_leader = ldr, in_term = is_term req,
                  in_last_included_index = is_last_included_index req,
                  in_last_included_term = is_last_included_term req, in_buffer = buffer\<rparr>\<rparr>))"
proof -
  let ?f1 = "follow_leader (is_leader req) f"
  have inc: "current_incoming ldr req (w_incoming_snapshot f) =
      \<lparr>in_leader = ldr, in_term = is_term req, in_last_included_index = is_last_included_index req,
       in_last_included_term = is_last_included_term req, in_buffer = take off bytes\<rparr>"
    using buf by (cases "w_incoming_snapshot f")
      (auto simp: current_incoming_def received_bytes_def snapshot_identity_matches_def fresh_incoming_def
        split: if_splits)
  have "sat_add_u64 off (length (is_data req)) \<le> max_snapshot_bytes (w_cfg f)"
    using req cap by (auto simp: sat_add_u64_def min_def)
  with tm snap inc req show ?thesis
    by (simp add: handle_install_snapshot_def install_at_term_def receive_chunk_def Let_def mem_ops_def)
qed

lemma mem_commit [simp]:
  "commit mem_ops w b = (Inr (), w\<lparr>w_storage := mem_commit_batch (w_storage w) b\<rparr>)"
  by (simp add: commit_def mem_ops_def)

lemma mem_commit_batch_applied:
  "ms_applied_index (mem_commit_batch s b) =
     (case (wb_state b, wb_compact_to b) of (Some _, Some (i, _)) \<Rightarrow> Some i | _ \<Rightarrow> ms_applied_index s)"
  by (auto simp: mem_commit_batch_def mem_set_active_config_def mem_set_meta_def
      mem_set_state_def mem_append_def mem_compact_def mem_truncate_def
      split: option.splits prod.splits)

text \<open>Committing the assembled bytes.\<close>

lemma commit_snapshot_mem:
  assumes "supplied_config_index req \<noteq> None"
  shows "\<exists>f'. commit_snapshot (mem_ops :: ('n::linorder, 'n mem_storage, unit) storage_ops) f m req bs =
      (Inr \<lparr>ir_term = current_term (w_meta f), ir_bytes_received = length bs\<rparr>, f') \<and>
      ms_state (w_storage f') = bs \<and> ms_applied_index (w_storage f') = Some (is_last_included_index req) \<and>
      snap_last_index (ms_meta (w_storage f')) = is_last_included_index req \<and>
      snap_last_term (ms_meta (w_storage f')) = is_last_included_term req"
  using assms by (auto simp: commit_snapshot_def install_meta_def mem_commit_batch_applied Let_def)

text \<open>The leader's side of a round's reply.\<close>

lemma chunk_acknowledged:
  fixes ls :: "'n::linorder leader_state" and peer :: 'n and si st off :: nat
  assumes l: "w_role l = Leader" and r: "ir_term resp = current_term (w_meta l)" "ir_bytes_received resp = stop"
  defines "ls1 \<equiv> ls\<lparr>snapshot_send := bt_insert peer \<lparr>ss_last_included_index = si,
            ss_last_included_term = st, ss_offset = off\<rparr> (snapshot_send ls)\<rparr>"
  shows "\<exists>ls2. handle_install_snapshot_response S (l\<lparr>w_leader := Some ls1\<rparr>) peer resp si st stop final =
      (Inr (), l\<lparr>w_leader := Some ls2\<rparr>) \<and>
    (if final then bt_get (next_index ls2) peer = Some (si + 1) \<and>
                   (0 < si \<longrightarrow> (\<exists>m. bt_get (match_index ls2) peer = Some m \<and> si \<le> m))
     else bt_get (snapshot_send ls2) peer =
            Some \<lparr>ss_last_included_index = si, ss_last_included_term = st, ss_offset = stop\<rparr>)"
  using l r unfolding ls1_def
  by (auto simp: handle_install_snapshot_response_def Let_def lookup_or_def split: option.splits)

lemma stream_round_step:
  assumes s: "streaming peer si st off (l, f)"
  shows "streamed peer si st (ms_state (w_storage l)) (stream_round peer si st (l, f)) \<or>
    (\<exists>off'>off. streaming peer si st off' (stream_round peer si st (l, f)) \<and>
       w_storage (fst (stream_round peer si st (l, f))) = w_storage l)"
proof -
  let ?bytes = "ms_state (w_storage l)"
  obtain ls where ls: "w_leader l = Some ls" using s by (auto simp: streaming_def transferring_def Let_def)
  obtain chunk stop final where c: "snapshot_chunk ?bytes off (install_snapshot_chunk_bytes (w_cfg l)) = (chunk, stop, final)"
    using prod_cases3 by blast
  note cs = snapshot_chunk_spec [OF c]
  have off: "off \<le> length ?bytes" using s by (simp add: streaming_def transferring_def Let_def)
  obtain req where req: "send_snapshot_chunk (mem_ops :: ('a, 'a mem_storage, unit) storage_ops) l peer si st =
       (CallInstall peer req si st stop final,
        l\<lparr>w_leader := Some (ls\<lparr>snapshot_send := bt_insert peer \<lparr>ss_last_included_index = si,
            ss_last_included_term = st, ss_offset = off\<rparr> (snapshot_send ls)\<rparr>)\<rparr>)"
    "is_term req = current_term (w_meta l)" "is_last_included_index req = si"
    "is_last_included_term req = st" "is_offset req = off" "is_done req = final" "is_data req = chunk"
    "supplied_config_index req \<noteq> None"
    using send_chunk_request [OF s ls c] by blast
  note recv = receive_round [of req f "cfg_me (w_cfg l)" off ?bytes, folded req(2)]
  define f1 where "f1 = follow_leader (is_leader req) f"
  have h: "handle_install_snapshot (mem_ops :: ('a, 'a mem_storage, unit) storage_ops) f (cfg_me (w_cfg l)) req =
     (if final then commit_snapshot mem_ops (f1\<lparr>w_incoming_snapshot := None\<rparr>) (w_meta f) req (take stop ?bytes)
      else (Inr \<lparr>ir_term = current_term (w_meta l), ir_bytes_received = stop\<rparr>,
              f1\<lparr>w_incoming_snapshot := Some \<lparr>in_leader = cfg_me (w_cfg l), in_term = current_term (w_meta l),
                  in_last_included_index = si, in_last_included_term = st, in_buffer = take stop ?bytes\<rparr>\<rparr>))"
    using s req cs [OF off] receive_round [of req f "cfg_me (w_cfg l)" off ?bytes]
    by (simp add: streaming_def transferring_def Let_def f1_def)
  have leader: "w_role l = Leader" "0 < si" "current_term (w_meta f1) = current_term (w_meta l)"
    using s by (simp_all add: streaming_def transferring_def Let_def f1_def)
  note ack = chunk_acknowledged [OF leader(1), where stop = stop and ls = ls and peer = peer and si = si
      and st = st and off = off and final = final and S = "mem_ops :: ('a, 'a mem_storage, unit) storage_ops"]
  show ?thesis
  proof (cases final)
    case True
    then have "stop = length ?bytes" using cs(5) [OF off] by simp
    with commit_snapshot_mem [OF req(8), of "f1\<lparr>w_incoming_snapshot := None\<rparr>" "w_meta f" "take stop ?bytes"]
      h True leader obtain f' where f': "handle_install_snapshot (mem_ops :: ('a, 'a mem_storage, unit) storage_ops) f (cfg_me (w_cfg l)) req =
        (Inr \<lparr>ir_term = current_term (w_meta l), ir_bytes_received = stop\<rparr>, f')"
      "ms_state (w_storage f') = ?bytes" "ms_applied_index (w_storage f') = Some si"
      "snap_last_index (ms_meta (w_storage f')) = si" "snap_last_term (ms_meta (w_storage f')) = st"
      using req(3,4) by auto
    from ack [of "\<lparr>ir_term = current_term (w_meta l), ir_bytes_received = stop\<rparr>"] True leader f'
    show ?thesis by (auto simp: stream_round_def req(1) streamed_def)
  next
    case False
    obtain ls2 where ls2: "handle_install_snapshot_response
          (mem_ops :: ('a, 'a mem_storage, unit) storage_ops) (l\<lparr>w_leader := Some (ls\<lparr>snapshot_send := bt_insert peer
            \<lparr>ss_last_included_index = si, ss_last_included_term = st, ss_offset = off\<rparr> (snapshot_send ls)\<rparr>)\<rparr>) peer
          \<lparr>ir_term = current_term (w_meta l), ir_bytes_received = stop\<rparr> si st stop final = (Inr (), l\<lparr>w_leader := Some ls2\<rparr>)"
      "bt_get (snapshot_send ls2) peer =
         Some \<lparr>ss_last_included_index = si, ss_last_included_term = st, ss_offset = stop\<rparr>"
      using ack [of "\<lparr>ir_term = current_term (w_meta l), ir_bytes_received = stop\<rparr>"] False by auto
    have "streaming peer si st stop (stream_round peer si st (l, f))"
      using s False h ls2 cs(4) [OF off]
      by (simp add: streaming_def transferring_def stream_round_def req(1) Let_def f1_def resume_offset_def received_bytes_def)
    moreover have "w_storage (fst (stream_round peer si st (l, f))) = w_storage l"
      using False h ls2 by (simp add: stream_round_def req(1))
    ultimately show ?thesis using cs(6) [OF off False] by blast
  qed
qed

lemma stream_rounds_finish:
  assumes "streaming peer si st off (l, f)"
  shows "\<exists>n \<le> length (ms_state (w_storage l)) - off + 1.
           streamed peer si st (ms_state (w_storage l)) (stream_rounds n peer si st (l, f))"
  using assms
proof (induction "length (ms_state (w_storage l)) - off" arbitrary: off l f rule: less_induct)
  case less
  let ?lf = "stream_round peer si st (l, f)"
  from stream_round_step [OF less.prems] show ?case
  proof
    assume "streamed peer si st (ms_state (w_storage l)) ?lf"
    then have "streamed peer si st (ms_state (w_storage l)) (stream_rounds 1 peer si st (l, f))" by simp
    then show ?thesis by (intro exI [of _ 1]) simp
  next
    assume "\<exists>off'>off. streaming peer si st off' ?lf \<and> w_storage (fst ?lf) = w_storage l"
    then obtain off' l' f' where lf: "?lf = (l', f')" "off < off'" "streaming peer si st off' (l', f')"
      "w_storage l' = w_storage l" by (cases ?lf) auto
    have "off' \<le> length (ms_state (w_storage l'))" using lf(3) by (simp add: streaming_def transferring_def Let_def)
    with lf(2,4) have "length (ms_state (w_storage l')) - off' < length (ms_state (w_storage l)) - off"
      by simp
    from less.hyps [OF this lf(3)] lf obtain n where "n \<le> length (ms_state (w_storage l)) - off' + 1"
      "streamed peer si st (ms_state (w_storage l)) (stream_rounds n peer si st ?lf)" by auto
    with lf(2) \<open>off' \<le> length (ms_state (w_storage l'))\<close> lf(4) show ?thesis by (intro exI [of _ "Suc n"]) auto
  qed
qed

end
