(* ===== verification/Raft_Demo.thy ===== *)
theory Raft_Demo
  imports Raft_Cluster Raft_Range Raft_Membership Raft_Install Raft_Snapshot "HOL-Library.Code_Target_Nat"
begin

text \<open>
  Concrete workers and clusters on \<open>MemStorage\<close>, with node identities as numbers and a clock
  that advances a second per reading. They are the states at which the general theorems are
  instantiated, and the runs that exhibit the behaviours reported as findings.
\<close>

abbreviation nat_ops :: "(nat, nat mem_storage, unit) storage_ops" where
  "nat_ops \<equiv> mem_ops"

definition demo_cfg :: "nat \<Rightarrow> nat list \<Rightarrow> bool \<Rightarrow> nat config" where
  "demo_cfg n M pv = (config_new n M [])\<lparr>pre_vote := pv, compact_hysteresis := 1\<rparr>"

definition demo_start :: "nat mem_storage \<Rightarrow> nat list \<Rightarrow> bool \<Rightarrow> nat \<Rightarrow> unit + (nat, nat mem_storage) worker" where
  "demo_start s M pv n = run_worker_init nat_ops s (demo_cfg n M pv) (\<lambda>i. 1000 * i) (\<lambda>_. 0) [] 0"

definition demo_boot :: "nat list \<Rightarrow> bool \<Rightarrow> nat \<Rightarrow> (nat, nat mem_storage) worker" where
  "demo_boot M pv n = (case demo_start mem_new M pv n of Inr w \<Rightarrow> w | Inl _ \<Rightarrow> undefined)"

lemma demo_boot_init: "run_worker_init nat_ops mem_new (demo_cfg n M pv) (\<lambda>i. 1000 * i) (\<lambda>_. 0) [] 0 = Inr (demo_boot M pv n)"
proof -
  have "\<exists>v. recover_active_config nat_ops mem_new (demo_cfg n M pv) True = Inr v"
    by (auto simp: recover_active_config_def mem_ops_def Let_def split: option.split)
  then obtain v where "recover_active_config nat_ops mem_new (demo_cfg n M pv) True = Inr v" ..
  moreover have "st_load_meta nat_ops mem_new = Inr (ms_meta mem_new)" by (simp add: mem_ops_def)
  ultimately have "\<exists>w. demo_start mem_new M pv n = Inr w"
    by (simp add: demo_start_def run_worker_init_def Let_def)
  then show ?thesis by (auto simp: demo_boot_def demo_start_def)
qed

lemma demo_boot_inv: "worker_inv (\<lambda>s. s) (demo_boot M pv n)"
  using mem.run_worker_init_inv [OF demo_boot_init [of n M pv]]
  by (simp add: mem_new_def meta_default_def)

lemma demo_boot_storage: "w_storage (demo_boot M pv n) = mem_new"
  by (rule run_worker_init_storage [OF demo_boot_init])

lemma demo_boot_fresh: "fresh_node nat_ops (\<lambda>s. s) M n (demo_boot M False n)"
  unfolding fresh_node_def
  by (intro exI conjI, rule demo_boot_init) (simp_all add: demo_cfg_def config_new_def)

text \<open>A single node that has elected itself, and a leader of three.\<close>

definition solo :: "(nat, nat mem_storage) worker" where
  "solo = fst (on_worker_timer nat_ops (demo_boot [1] False 1) [])"

definition grant :: "nat \<Rightarrow> nat rpc_outcome" where
  "grant q = OutVote q (Some \<lparr>vr_term = 1, vr_vote_granted = True\<rparr>)"

definition leader3 :: "(nat, nat mem_storage) worker" where
  "leader3 = handle_rpc_outcome nat_ops (fst (on_worker_timer nat_ops (demo_boot [1, 2, 3] False 1) [])) (grant 2)"

end
