(* ===== verification/Raft_Properties.thy ===== *)
theory Raft_Properties
  imports Raft_Demo
begin

text \<open>
  What the Raft worker guarantees, stated over its model: durability of the scalars through every
  turn and restart, votes, log replication, the commit rule, membership changes, reads,
  compaction and snapshot transfer. Each property is a short consequence of the component
  lemmas, for every backend that meets the storage contract, and is instantiated at a concrete
  worker on \<open>MemStorage\<close> or on the fault-injecting backend.
\<close>

lemmas mem_contract = mem.raft_storage_axioms
lemmas fault_contract = fault.raft_storage_axioms

section \<open>Turns and restarts\<close>

text \<open>C2 (\<open>worker_run_safe\<close>). Take a worker booted on any backend that meets the storage
  contract, from a store whose snapshot boundary is not above its commit index. Whatever messages,
  timers, outcomes and storage failures follow, it keeps its in-memory scalars equal to the durable
  ones, never lowers its term, commit index or snapshot boundary, never changes a vote within a
  term, has leader bookkeeping exactly while it is the leader, and queues no more reads than the
  configured cap. The source counts in \<open>u64\<close>: the stored and received terms are at most \<open>t\<close>
  and the stored and received indices at most \<open>b\<close>, and a run of \<open>k\<close> turns raises them to at most
  \<open>t + k\<close> and \<open>b + 2 k\<close>; as long as these are below \<open>2^64\<close> no counter wraps around.\<close>

theorem worker_run_safe:
  assumes "raft_storage S view" and "run_worker_init S st c clk rng bs now = Inr w0"
    and "snap_last_index (ms_meta (view st)) \<le> commit_index (ms_meta (view st))"
    and "loop_run S evs (w0, []) = Some (w, pending)"
    and "current_term (ms_meta (view st)) \<le> t" and "store_within b (view st)"
    and "\<forall>(now, ev) \<in> set evs. event_term ev \<le> t \<and> event_index ev \<le> b"
    and "t + length evs < 2 ^ 64" and "b + 2 * length evs < 2 ^ 64"
  shows "worker_inv view w \<and> meta_step (ms_meta (view st)) (ms_meta (view (w_storage w))) \<and> w_cfg w = c \<and>
    current_term (w_meta w) < 2 ^ 64 \<and> mem_last_index (view (w_storage w)) < 2 ^ 64"
proof -
  have w0: "worker_inv view w0" "w_meta w0 = ms_meta (view st)" "w_cfg w0 = c" "w_storage w0 = st"
    using raft_storage.run_worker_init_inv [OF assms(1-3)] run_worker_init_storage [OF assms(2)] by simp_all
  from raft_storage.loop_run_step [OF assms(1) w0(1) assms(4)]
  have step: "worker_inv view w" "meta_step (w_meta w0) (w_meta w)" "w_cfg w = w_cfg w0"
    by (simp_all only: worker_step_def)
  have "current_term (w_meta w) \<le> t + length evs \<and> node_within view (b + 2 * length evs) w"
    by (rule raft_storage.loop_run_within [OF assms(1) _ w0(1) _ assms(7,4)])
      (use w0 assms(5,6) in \<open>simp_all add: node_within_def\<close>)
  with assms(8,9) store_within_last have "current_term (w_meta w) < 2 ^ 64 \<and> mem_last_index (view (w_storage w)) < 2 ^ 64"
    by (fastforce simp: node_within_def)
  with w0 step show ?thesis by (simp add: worker_inv_def)
qed

definition faulty_store :: "nat fault_storage" where
  "faulty_store = \<lparr>fs_inner = mem_new, fs_fail_commit = 1, fs_fail_load_meta = 0, fs_fail_term_at = 0,
                   fs_fail_entries = 0\<rparr>"

definition faulty_start :: "(nat, nat fault_storage) worker" where
  "faulty_start = (case run_worker_init fault_ops faulty_store (demo_cfg 1 [1] False) (\<lambda>i. 1000 * i) (\<lambda>_. 0) [] 0 of
                     Inr w \<Rightarrow> w | Inl _ \<Rightarrow> undefined)"

definition faulty_run :: "((nat, nat fault_storage) worker \<times> nat rpc_call list) option" where
  "faulty_run = loop_run fault_ops [(0, EvTimer), (1, EvTimer), (2, EvMsg (MsgPropose [7]))] (faulty_start, [])"

lemma faulty_start: "run_worker_init fault_ops faulty_store (demo_cfg 1 [1] False) (\<lambda>i. 1000 * i) (\<lambda>_. 0) [] 0 = Inr faulty_start"
  by (simp add: faulty_start_def faulty_store_def run_worker_init_def recover_active_config_def fault_ops_def
      mem_new_def mem_last_index_def bt_last_def latest_config_def entry_configs_def Let_def)

theorem worker_run_safe_witness:
  "\<exists>w pending. faulty_run = Some (w, pending) \<and> w_role w = Leader \<and> commit_index (w_meta w) = 2 \<and>
     worker_inv fs_inner w \<and> meta_step (ms_meta (fs_inner faulty_store)) (ms_meta (fs_inner (w_storage w)))"
proof -
  have run: "map_option (\<lambda>(w, p). (w_role w, commit_index (w_meta w))) faulty_run = Some (Leader, 2)"
    by code_simp
  then obtain w p where w: "faulty_run = Some (w, p)" "w_role w = Leader" "commit_index (w_meta w) = 2"
    by auto
  have "snap_last_index (ms_meta (fs_inner faulty_store)) \<le> commit_index (ms_meta (fs_inner faulty_store))"
    by code_simp
  note safe = worker_run_safe [OF fault_contract faulty_start this w(1) [unfolded faulty_run_def], of 0 0]
  have "worker_inv fs_inner w \<and> meta_step (ms_meta (fs_inner faulty_store)) (ms_meta (fs_inner (w_storage w)))"
    using safe by (simp add: faulty_store_def mem_new_def meta_default_def store_within_def event_term_def event_index_def)
  with w show ?thesis by blast
qed

text \<open>C6 (\<open>restart_resumes\<close>). A worker that stops after any turn and is started again on the
  store it leaves resumes with the same term, vote, commit index and snapshot boundary, as a
  follower; the new configuration may differ.\<close>

theorem restart_resumes:
  assumes "raft_storage S view" and "worker_inv view w"
    and "run_worker_init S (w_storage w) c clk rng bs now = Inr w'"
  shows "w_meta w' = w_meta w \<and> worker_inv view w' \<and> w_role w' = Follower \<and> w_votes_received w' = []"
proof -
  have meta: "ms_meta (view (w_storage w)) = w_meta w" and "snap_last_index (w_meta w) \<le> commit_index (w_meta w)"
    using assms(2) by (auto simp: worker_inv_def)
  moreover have "w_role w' = Follower \<and> w_votes_received w' = []"
    using assms(3) by (auto simp: run_worker_init_def Let_def split: sum.splits)
  ultimately show ?thesis
    using raft_storage.run_worker_init_inv [OF assms(1,3)] by simp
qed

definition solo_again :: "(nat, nat mem_storage) worker" where
  "solo_again = (case demo_start (w_storage solo) [1] False 1 of Inr w \<Rightarrow> w | Inl _ \<Rightarrow> undefined)"

lemma solo_again: "run_worker_init nat_ops (w_storage solo) (demo_cfg 1 [1] False) (\<lambda>i. 1000 * i) (\<lambda>_. 0) [] 0 = Inr solo_again"
proof -
  have "(case demo_start (w_storage solo) [1] False 1 of Inr _ \<Rightarrow> True | Inl _ \<Rightarrow> False)" by code_simp
  then show ?thesis by (auto simp: solo_again_def demo_start_def split: sum.splits)
qed

lemma solo_inv: "worker_inv (\<lambda>s. s) solo"
  unfolding solo_def by (rule worker_stepD [OF mem.on_worker_timer_step [OF demo_boot_inv]])

theorem restart_resumes_witness:
  "current_term (w_meta solo_again) = 1 \<and> voted_for (w_meta solo_again) = Some 1 \<and>
   commit_index (w_meta solo_again) = 1 \<and> w_role solo_again = Follower"
proof -
  have "current_term (w_meta solo) = 1 \<and> voted_for (w_meta solo) = Some 1 \<and> commit_index (w_meta solo) = 1"
    by code_simp
  with restart_resumes [OF mem_contract solo_inv solo_again] show ?thesis by simp
qed

section \<open>Votes\<close>

text \<open>C5 (\<open>vote_granted_durably\<close>). A granted vote is on disk before the reply: the store then
  holds the request's term and the candidate. It is granted only to a candidate whose log is at
  least as up to date as the voter's, and never when the voter has voted for another candidate
  in that term.\<close>

theorem vote_granted_durably:
  assumes "raft_storage S view" and "worker_inv view w"
    and "handle_request_vote S w req = (Inr resp, w')" and "vr_vote_granted resp"
  shows "current_term (ms_meta (view (w_storage w'))) = rv_term req \<and>
    voted_for (ms_meta (view (w_storage w'))) = Some (rv_candidate req) \<and>
    current_term (w_meta w) \<le> rv_term req \<and>
    (rv_term req = current_term (w_meta w) \<longrightarrow> voted_for (w_meta w) \<in> {None, Some (rv_candidate req)}) \<and>
    (mem_last_term (view (w_storage w)) < rv_last_log_term req \<or>
     mem_last_term (view (w_storage w)) = rv_last_log_term req \<and>
     mem_last_index (view (w_storage w)) \<le> rv_last_log_index req)"
proof -
  note h = raft_storage.handle_request_vote_granted [OF assms(1,3,4)]
  from raft_storage.handle_request_vote_step [OF assms(1,2), of req] assms(3)
  have step: "worker_step view w w'" by simp
  then have "ms_meta (view (w_storage w')) = w_meta w'" "meta_step (w_meta w) (w_meta w')"
    by (simp_all add: worker_step_def worker_inv_def)
  with h have durable: "current_term (ms_meta (view (w_storage w'))) = rv_term req"
      "voted_for (ms_meta (view (w_storage w'))) = Some (rv_candidate req)"
      "current_term (w_meta w) \<le> rv_term req"
      "rv_term req = current_term (w_meta w) \<longrightarrow> voted_for (w_meta w) \<in> {None, Some (rv_candidate req)}"
    unfolding meta_step_def by fastforce+
  have "vote_grant S (vote_term_state req w) req"
    using assms(3,4) by (auto simp: handle_request_vote_def Let_def split: if_splits prod.splits sum.splits)
  then have "log_up_to_date S w (rv_last_log_term req) (rv_last_log_index req)"
    by (simp add: vote_grant_def log_up_to_date_def vote_term_state_def Let_def split: if_splits)
  with durable raft_storage.last_index [OF assms(1)] raft_storage.last_term [OF assms(1)] show ?thesis
    by (auto simp: log_up_to_date_def Let_def)
qed

definition ask_vote :: "nat \<Rightarrow> nat \<Rightarrow> nat request_vote_req" where
  "ask_vote c t = \<lparr>rv_candidate = c, rv_term = t, rv_last_log_index = 0, rv_last_log_term = 0\<rparr>"

theorem vote_granted_durably_witness:
  "let w' = snd (handle_request_vote nat_ops (demo_boot [1, 2, 3] False 2) (ask_vote 1 1))
   in current_term (ms_meta (w_storage w')) = 1 \<and> voted_for (ms_meta (w_storage w')) = Some 1"
proof -
  let ?h = "handle_request_vote nat_ops (demo_boot [1, 2, 3] False 2) (ask_vote 1 1)"
  have "fst ?h = Inr \<lparr>vr_term = 1, vr_vote_granted = True\<rparr>" by code_simp
  then have "?h = (Inr \<lparr>vr_term = 1, vr_vote_granted = True\<rparr>, snd ?h)" by (simp add: prod_eq_iff)
  from vote_granted_durably [OF mem_contract demo_boot_inv this] show ?thesis
    by (simp add: ask_vote_def)
qed

section \<open>Replication\<close>

text \<open>C3 (\<open>append_replicates\<close>). A successful AppendEntries reply means that the follower held
  the previous entry at the stated term, and that the acknowledged index is the last one sent. When
  the previous index is not below the follower's snapshot boundary, the follower's log then agrees
  with the request: each entry sent is there with its term, and everything at or below the previous
  index is as before. On a contiguous log a successful request can reach below the boundary only
  with previous index 0, and this is the case the replication claim leaves out. The indices the
  request names fit the source's \<open>u64\<close>.\<close>

theorem append_replicates:
  assumes "raft_storage S view" and "worker_inv view w" and "node_log_ok view w"
    and "handle_append_entries S w req = (Inr resp, w')" and "ar_success resp"
    and "ae_prev_log_index req + length (ae_entries req) < 2 ^ 64"
  shows "mem_term_at (view (w_storage w)) (ae_prev_log_index req) = Some (ae_prev_log_term req) \<and>
    ar_match_index resp = ae_prev_log_index req + length (ae_entries req) \<and> ar_match_index resp < 2 ^ 64 \<and>
    ar_term resp = ae_term req \<and>
    (if snap_last_index (w_meta w) \<le> ae_prev_log_index req
     then (\<forall>i < length (ae_entries req).
             mem_term_at (view (w_storage w')) (ae_prev_log_index req + 1 + i) = Some (le_term (ae_entries req ! i))) \<and>
          (\<forall>j \<le> ae_prev_log_index req.
             bt_get (ms_log (view (w_storage w'))) j = bt_get (ms_log (view (w_storage w))) j)
     else ae_prev_log_index req = 0)"
proof -
  have mirror: "ms_meta (view (w_storage w)) = w_meta w" using assms(2) by (simp add: worker_inv_def)
  from raft_storage.handle_append_success [OF assms(1,4,5) mirror] obtain c k cfg where
    scan: "scan_result (view (w_storage w)) (ae_prev_log_index req + 1) (ae_entries req) (c, k)"
    and w': "view (w_storage w') = mem_commit_batch (view (w_storage w))
       (append_batch (ae_prev_log_index req) (ae_entries req) (c, k) (w_meta w') cfg)"
    and snap: "snap_last_index (w_meta w') = snap_last_index (w_meta w)"
    and rest: "mem_term_at (view (w_storage w)) (ae_prev_log_index req) = Some (ae_prev_log_term req)"
      "ar_match_index resp = ae_prev_log_index req + length (ae_entries req)" "ar_term resp = ae_term req"
    by blast
  have "ae_prev_log_index req = 0" if "\<not> snap_last_index (w_meta w) \<le> ae_prev_log_index req"
    using rest(1) that log_ok_get [of "view (w_storage w)" "ae_prev_log_index req"] assms(3) mirror
    by (auto simp: mem_term_at_def node_log_ok_def split: if_splits)
  then show ?thesis
    using rest append_batch_terms [OF scan, where m = "w_meta w'" and cfg = cfg] snap mirror assms(6)
      append_batch_prefix [OF scan, where m = "w_meta w'" and cfg = cfg]
    unfolding w' by simp
qed

definition feed :: "nat append_entries_req" where
  "feed = \<lparr>ae_leader = 1, ae_term = 1, ae_prev_log_index = 0, ae_prev_log_term = 0, ae_leader_commit = 1,
           ae_entries = [entry_data 1 1 [], entry_data 2 1 [7]]\<rparr>"

theorem append_replicates_witness:
  "mem_term_at (w_storage (snd (handle_append_entries nat_ops (demo_boot [1, 2, 3] False 2) feed))) 2 = Some 1"
proof -
  let ?w = "demo_boot [1, 2, 3] False 2"
  let ?h = "handle_append_entries nat_ops ?w feed"
  let ?r = "\<lparr>ar_term = 1, ar_success = True, ar_match_index = 2\<rparr>"
  have "fst ?h = Inr ?r" by code_simp
  then have h: "?h = (Inr ?r, snd ?h)" by (simp add: prod_eq_iff)
  have "node_log_ok (\<lambda>s. s) ?w" and snap: "snap_last_index (w_meta ?w) = 0" by code_simp+
  moreover have "ae_prev_log_index feed + length (ae_entries feed) < 2 ^ 64" by (simp add: feed_def)
  moreover have "snap_last_index (w_meta ?w) \<le> ae_prev_log_index feed" using snap by simp
  ultimately have "\<forall>i < length (ae_entries feed). mem_term_at (w_storage (snd ?h)) (ae_prev_log_index feed + 1 + i) =
      Some (le_term (ae_entries feed ! i))"
    using append_replicates [OF mem_contract demo_boot_inv _ h] by (metis append_entries_resp.select_convs(2))
  then have "mem_term_at (w_storage (snd ?h)) (ae_prev_log_index feed + 1 + 1) = Some (le_term (ae_entries feed ! 1))"
    by (rule allE [of _ 1]) (simp add: feed_def)
  then show ?thesis by (simp add: feed_def entry_data_def numeral_2_eq_2)
qed

text \<open>C8 (\<open>append_redelivery_harmless\<close>). A request whose previous entry and entries the log
  already holds -- a duplicate, or a delayed one that ends before the follower's log does -- never
  touches the log: nothing after its last entry is cut off. If the request is of the follower's
  term or later, it is acknowledged with the index of its last entry, unless the store fails, and
  then the store is as before. If it is of an earlier term, it is refused and the follower is
  unchanged.\<close>

theorem append_redelivery_harmless:
  assumes "raft_storage S view" and "worker_inv view w" and "node_log_ok view w"
    and "mem_term_at (view (w_storage w)) (ae_prev_log_index req) = Some (ae_prev_log_term req)"
    and "\<And>i. i < length (ae_entries req) \<Longrightarrow>
      mem_term_at (view (w_storage w)) (ae_prev_log_index req + 1 + i) = Some (le_term (ae_entries req ! i))"
    and "handle_append_entries S w req = (r, w')"
  shows "ms_log (view (w_storage w')) = ms_log (view (w_storage w)) \<and>
    (if ae_term req < current_term (w_meta w)
     then w' = w \<and> (\<exists>resp. r = Inr resp \<and> \<not> ar_success resp \<and> ar_term resp = current_term (w_meta w))
     else case r of Inl e \<Rightarrow> view (w_storage w') = view (w_storage w)
          | Inr resp \<Rightarrow> ar_success resp \<and> ar_term resp = ae_term req \<and>
                        ar_match_index resp = ae_prev_log_index req + length (ae_entries req))"
proof (cases "ae_term req < current_term (w_meta w)")
  case True
  with assms(6) show ?thesis by (auto simp: handle_append_entries_def)
next
  case False
  have mirror: "ms_meta (view (w_storage w)) = w_meta w" using assms(2) by (simp add: worker_inv_def)
  have wf: "bt_wf (ms_log (view (w_storage w)))" using assms(3) by (simp add: node_log_ok_def log_ok_wf)
  note answer = raft_storage.handle_append_answer [OF assms(1) _ assms(4,6)]
  show ?thesis
  proof (cases r)
    case (Inr resp)
    with answer False assms(6) have h: "handle_append_entries S w req = (Inr resp, w')" "ar_success resp" by simp_all
    from raft_storage.handle_append_success [OF assms(1) h mirror] obtain c k cfg where
      scan: "scan_result (view (w_storage w)) (ae_prev_log_index req + 1) (ae_entries req) (c, k)"
      and w': "view (w_storage w') = mem_commit_batch (view (w_storage w))
         (append_batch (ae_prev_log_index req) (ae_entries req) (c, k) (w_meta w') cfg)"
      and rest: "ar_term resp = ae_term req" "ar_match_index resp = ae_prev_log_index req + length (ae_entries req)"
      by blast
    have "ms_log (view (w_storage w')) = ms_log (view (w_storage w))"
      unfolding w' by (rule append_batch_repeat [OF wf scan assms(5)])
    with rest h False Inr show ?thesis by simp
  qed (use answer False in simp)
qed

definition fed :: "(nat, nat mem_storage) worker" where
  "fed = snd (handle_append_entries nat_ops (demo_boot [1, 2, 3] False 2) feed)"

lemma fed_inv: "worker_inv (\<lambda>s. s) fed"
  unfolding fed_def by (rule worker_stepD [OF mem.handle_append_entries_step [OF demo_boot_inv]])

theorem append_redelivery_harmless_witness:
  "ms_log (w_storage (snd (handle_append_entries nat_ops fed (feed\<lparr>ae_entries := take 1 (ae_entries feed)\<rparr>)))) =
     ms_log (w_storage fed) \<and> length (ms_log (w_storage fed)) = 2 \<and>
   fst (handle_append_entries nat_ops fed (feed\<lparr>ae_entries := take 1 (ae_entries feed)\<rparr>)) =
     Inr \<lparr>ar_term = 1, ar_success = True, ar_match_index = 1\<rparr>"
proof -
  let ?req = "feed\<lparr>ae_entries := take 1 (ae_entries feed)\<rparr>"
  let ?h = "handle_append_entries nat_ops fed ?req"
  let ?r = "\<lparr>ar_term = 1, ar_success = True, ar_match_index = 1\<rparr>"
  have r: "fst ?h = Inr ?r" by code_simp
  have h: "?h = (fst ?h, snd ?h)" by simp
  have ok: "node_log_ok (\<lambda>s. s) fed" by code_simp
  have prev: "mem_term_at (w_storage fed) (ae_prev_log_index ?req) = Some (ae_prev_log_term ?req)" by code_simp
  have held: "list_all (\<lambda>i. mem_term_at (w_storage fed) (ae_prev_log_index ?req + 1 + i) =
      Some (le_term (ae_entries ?req ! i))) [0..<length (ae_entries ?req)]" by code_simp
  have "ms_log (w_storage (snd ?h)) = ms_log (w_storage fed)"
    by (rule conjunct1 [OF append_redelivery_harmless [OF mem_contract fed_inv ok prev _ h]])
       (use held in \<open>auto simp: list_all_iff\<close>)
  moreover have "length (ms_log (w_storage fed)) = 2" by code_simp
  ultimately show ?thesis using r by simp
qed

text \<open>C7 (\<open>log_contiguous\<close>). Through every run in which no AppendEntries reaches below the
  snapshot boundary, the durable log stays contiguous: its entries carry their own indices,
  start right after the snapshot boundary and leave no gap. The indices stored and received are at
  most \<open>b\<close>, and a run of \<open>k\<close> turns raises them to at most \<open>b + 2 k\<close>; this bound is below
  \<open>2^64\<close>, so that the source's \<open>u64\<close> indices do not wrap around.\<close>

theorem log_contiguous:
  assumes "raft_storage S view" and "worker_inv view w" and "node_log_ok view w"
    and "appends_in_window S evs (w, pending)"
    and "loop_run S evs (w, pending) = Some (w', pending')"
    and "node_within view b w" and "\<forall>(now, ev) \<in> set evs. event_index ev \<le> b"
    and "b + 2 * length evs < 2 ^ 64"
  shows "log_ok (view (w_storage w')) \<and> mem_last_index (view (w_storage w')) \<le> b + 2 * length evs \<and>
    mem_last_index (view (w_storage w')) < 2 ^ 64"
proof -
  define t where "t = Max (insert (current_term (w_meta w)) (event_term ` snd ` set evs))"
  have "current_term (w_meta w) \<le> t" by (simp add: t_def)
  moreover have "\<forall>(now, ev) \<in> set evs. event_term ev \<le> t \<and> event_index ev \<le> b"
    using assms(7) by (force simp: t_def intro!: Max_ge)
  ultimately have "node_within view (b + 2 * length evs) w'"
    using raft_storage.loop_run_within [OF assms(1,6,2) _ _ assms(5)] by blast
  then have "mem_last_index (view (w_storage w')) \<le> b + 2 * length evs"
    by (simp add: node_within_def store_within_last)
  with raft_storage.loop_run_log_ok [OF assms(1,3,2,4,5)] assms(8) show ?thesis by (simp add: node_log_ok_def)
qed

definition busy :: "(nat \<times> nat event) list" where
  "busy = [(0, EvTimer), (1, EvMsg (MsgPropose [7])), (2, EvMsg (MsgPropose [8])), (3, EvTimer)]"

theorem log_contiguous_witness:
  "\<exists>w p. loop_run nat_ops busy (demo_boot [1] False 1, []) = Some (w, p) \<and> log_ok (w_storage w) \<and>
     mem_last_index (w_storage w) = 3"
proof -
  let ?run = "loop_run nat_ops busy (demo_boot [1] False 1, [])"
  have "map_option (\<lambda>(w, p). mem_last_index (w_storage w)) ?run = Some 3" by code_simp
  then obtain w p where run: "?run = Some (w, p)" and last: "mem_last_index (w_storage w) = 3" by auto
  have "node_log_ok (\<lambda>s. s) (demo_boot [1] False 1)" by code_simp
  moreover have "appends_in_window nat_ops busy (demo_boot [1] False 1, [])" by code_simp
  moreover have "node_within (\<lambda>s. s) 0 (demo_boot [1] False 1)"
    by (simp add: node_within_def store_within_def demo_boot_storage mem_new_def meta_default_def)
  moreover have "\<forall>(now, ev) \<in> set busy. event_index ev \<le> 0" by (simp add: busy_def event_index_def)
  ultimately have "log_ok (w_storage w)"
    using log_contiguous [OF mem_contract demo_boot_inv _ _ run] by (simp add: busy_def)
  with run last show ?thesis by blast
qed

section \<open>Leadership\<close>

text \<open>C4 (\<open>commit_needs_quorum\<close>). A leader's commit index only moves forward, and only to an
  index that a quorum -- of both voter lists while the membership is joint -- has acknowledged
  and whose entry is of the leader's own term.\<close>

theorem commit_needs_quorum:
  fixes S :: "('n::linorder, 's, 'e) storage_ops" and w :: "('n, 's) worker"
  assumes "raft_storage S view"
    and "commit_index (w_meta (snd (try_advance_commit_index S w))) \<noteq> commit_index (w_meta w)"
  shows "let c = commit_index (w_meta (snd (try_advance_commit_index S w)))
    in commit_index (w_meta w) < c \<and>
       quorum_holds (w_effective_cfg w) (\<lambda>m. c \<le> member_match_score S w m) \<and>
       mem_term_at (view (w_storage w)) c = Some (current_term (w_meta w))"
  using raft_storage.try_advance_commits [OF assms] by (simp add: Let_def majority_floor_holds)

definition acked :: "nat \<Rightarrow> nat \<Rightarrow> (nat, nat mem_storage) worker \<Rightarrow> (nat, nat mem_storage) worker" where
  "acked q i w = w\<lparr>w_leader := map_option (\<lambda>l. l\<lparr>match_index := bt_insert q i (match_index l)\<rparr>) (w_leader w)\<rparr>"

theorem commit_needs_quorum_witness:
  "commit_index (w_meta (snd (try_advance_commit_index nat_ops (acked 2 1 leader3)))) = 1 \<and>
   quorum_holds (w_effective_cfg (acked 2 1 leader3)) (\<lambda>m. 1 \<le> member_match_score nat_ops (acked 2 1 leader3) m)"
proof -
  have c: "commit_index (w_meta (snd (try_advance_commit_index nat_ops (acked 2 1 leader3)))) = 1" by code_simp
  moreover have "commit_index (w_meta (acked 2 1 leader3)) = 0" by code_simp
  ultimately have "commit_index (w_meta (snd (try_advance_commit_index nat_ops (acked 2 1 leader3)))) \<noteq>
      commit_index (w_meta (acked 2 1 leader3))" by simp
  from commit_needs_quorum [OF mem_contract this] c show ?thesis by simp
qed

text \<open>C9 (\<open>membership_change_overlaps\<close>). In any turn but one that follows another leader's
  AppendEntries or InstallSnapshot, the membership the node counts quorums by changes in two ways
  only. A leader whose membership is not joint accepts a change: the joint entry with the old and
  the new voters is then in its log, and its membership is the joint one, pending that entry, or,
  once that very entry is committed, the new one. Or the joint membership gives way to its new
  voters, and then the pending joint entry is committed. A quorum of the membership before the turn
  and one of the membership after it share a member, except when a change is accepted and its joint
  entry committed within the turn.\<close>

theorem membership_change_overlaps:
  fixes S :: "('n::linorder, 's, 'e) storage_ops"
  assumes "raft_storage S view" and "worker_inv view w" and "node_log_ok view w"
    and "loop_turn S now ev (w, pending) = Some (w', pending')" and "own_turn ev"
  defines "old \<equiv> ac_current (w_effective_cfg w)" and "i \<equiv> mem_last_index (view (w_storage w)) + 1"
  shows "(w_effective_cfg w' = w_effective_cfg w \<and> w_pending_joint_entry w' = w_pending_joint_entry w \<or>
     (\<exists>ms. ev = EvMsg (MsgChangeMembership ms) \<and> w_role w = Leader \<and> \<not> is_joint (w_effective_cfg w) \<and> ms \<noteq> [] \<and>
       bt_get (ms_log (view (w_storage w'))) i = Some (entry_config_change i (current_term (w_meta w)) (Some old) ms) \<and>
       (w_effective_cfg w' = \<lparr>ac_current = ms, ac_joint_old = Some old\<rparr> \<and> w_pending_joint_entry w' = Some i \<or>
        w_effective_cfg w' = steady ms \<and> i \<le> commit_index (w_meta w'))) \<or>
     is_joint (w_effective_cfg w) \<and> w_effective_cfg w' = steady old \<and>
       (\<exists>j. w_pending_joint_entry w = Some j \<and> j \<le> commit_index (w_meta w'))) \<and>
    (quorum_holds (w_effective_cfg w) P \<and> quorum_holds (w_effective_cfg w') Q \<longrightarrow>
     (\<exists>m. P m \<and> Q m) \<or> (\<exists>ms. ev = EvMsg (MsgChangeMembership ms) \<and> w_effective_cfg w' = steady ms \<and>
                              i \<le> commit_index (w_meta w')))"
proof (cases "kept_or_finished w w'")
  case True
  then have "linked_configs (w_effective_cfg w) (w_effective_cfg w')"
    using linked_steady [of "w_effective_cfg w"]
    by (auto simp: kept_or_finished_def same_membership_def finished_joint_def)
  with True linked_quorums [of _ _ P Q] show ?thesis
    by (auto simp: kept_or_finished_def same_membership_def finished_joint_def old_def)
next
  case False
  from raft_storage.own_turn_membership [OF assms(1-5) this, folded old_def i_def]
  obtain ms where ms: "ev = EvMsg (MsgChangeMembership ms)" "w_role w = Leader" "\<not> is_joint (w_effective_cfg w)" "ms \<noteq> []"
    "bt_get (ms_log (view (w_storage w'))) i = Some (entry_config_change i (current_term (w_meta w)) (Some old) ms)"
    "w_effective_cfg w' = \<lparr>ac_current = ms, ac_joint_old = Some old\<rparr> \<and> w_pending_joint_entry w' = Some i \<or>
     w_effective_cfg w' = steady ms \<and> i \<le> commit_index (w_meta w')" by blast
  have "linked_configs (w_effective_cfg w) \<lparr>ac_current = ms, ac_joint_old = Some old\<rparr>"
    unfolding linked_configs_def shares_voters_def old_def by (intro exI [of _ "ac_current (w_effective_cfg w)"]) simp
  from linked_quorums [OF this, of P Q] ms show ?thesis by auto
qed

text \<open>The leader of a single-node cluster that takes in a second voter: it enters the joint phase
  with entry 2 and leaves it when the new voter acknowledges that entry.\<close>

definition joining :: "(nat, nat mem_storage) worker" where
  "joining = snd (handle_change_membership nat_ops solo [1, 2])"

definition join_ack :: "nat event" where
  "join_ack = EvOutcome 0 (OutAppend 2 (Some \<lparr>ar_term = 1, ar_success = True, ar_match_index = 2\<rparr>))"

theorem membership_change_overlaps_witness:
  "\<exists>w' p'. loop_turn nat_ops 0 join_ack (joining, [CallAppend 2 feed]) = Some (w', p') \<and>
     w_effective_cfg joining = \<lparr>ac_current = [1, 2], ac_joint_old = Some [1]\<rparr> \<and>
     w_effective_cfg w' = steady [1, 2] \<and> 2 \<le> commit_index (w_meta w') \<and>
     (\<exists>m. m \<in> {1, 2} \<and> m \<in> {1, 2 :: nat})"
proof -
  let ?t = "loop_turn nat_ops 0 join_ack (joining, [CallAppend 2 feed])"
  have end_cfg: "map_option (\<lambda>(w, p). w_effective_cfg w) ?t = Some (steady [1, 2])" by code_simp
  then obtain w' p' where t: "?t = Some (w', p')" and w': "w_effective_cfg w' = steady [1, 2]" by auto
  have joining: "w_effective_cfg joining = \<lparr>ac_current = [1, 2], ac_joint_old = Some [1]\<rparr>"
    "w_pending_joint_entry joining = Some 2" by code_simp+
  have inv: "worker_inv (\<lambda>s. s) joining"
    unfolding joining_def by (rule worker_stepD [OF mem.handle_change_membership_step [OF solo_inv]])
  have log: "node_log_ok (\<lambda>s. s) joining" by code_simp
  have quorums: "quorum_holds (w_effective_cfg joining) (\<lambda>m. m \<in> {1, 2})"
    "quorum_holds (w_effective_cfg w') (\<lambda>m. m \<in> {1, 2})" unfolding joining w' by code_simp+
  have own: "own_turn join_ack" by (simp add: own_turn_def join_ack_def)
  note turn = membership_change_overlaps [OF mem_contract inv log t own,
      of "\<lambda>m. m \<in> {1, 2}" "\<lambda>m. m \<in> {1, 2}"]
  have "2 \<le> commit_index (w_meta w')"
    using turn joining w' by (auto simp: join_ack_def steady_def)
  moreover have "\<exists>m. m \<in> {1, 2} \<and> m \<in> {1, 2 :: nat}"
    using turn quorums by (auto simp: join_ack_def)
  ultimately show ?thesis using t joining(1) w' by blast
qed

text \<open>C10 (\<open>joint_phase_lasts\<close>). A node in the joint membership of the entry at \<open>j\<close> stays in it,
  through any run without AppendEntries or InstallSnapshot from another leader, as long as entry
  \<open>j\<close> is not committed.\<close>

theorem joint_phase_lasts:
  fixes S :: "('n::linorder, 's, 'e) storage_ops"
  assumes "raft_storage S view" and "worker_inv view w" and "node_log_ok view w"
    and "is_joint (w_effective_cfg w)" and "w_pending_joint_entry w = Some j"
    and "list_all (\<lambda>(now, ev). own_turn ev) evs" and "loop_run S evs (w, pending) = Some (w', pending')"
    and "commit_index (w_meta w') < j"
  shows "w_effective_cfg w' = w_effective_cfg w \<and> w_pending_joint_entry w' = Some j"
  using raft_storage.own_run_joint [OF assms(1-7)] assms(5,8) by (auto simp: same_membership_def)

theorem joint_phase_lasts_witness:
  "\<exists>w' p'. loop_run nat_ops [(0, EvTimer), (1, EvMsg (MsgPropose [7])), (2, EvMsg (MsgChangeMembership [1]))]
       (joining, []) = Some (w', p') \<and> w_effective_cfg w' = \<lparr>ac_current = [1, 2], ac_joint_old = Some [1]\<rparr>"
proof -
  let ?evs = "[(0, EvTimer), (1, EvMsg (MsgPropose [7])), (2, EvMsg (MsgChangeMembership [1]))]"
  let ?t = "loop_run nat_ops ?evs (joining, [])"
  have "map_option (\<lambda>(w, p). commit_index (w_meta w)) ?t = Some 1" by code_simp
  then obtain w' p' where t: "?t = Some (w', p')" and c: "commit_index (w_meta w') = 1" by auto
  have joining: "w_effective_cfg joining = \<lparr>ac_current = [1, 2], ac_joint_old = Some [1]\<rparr>"
    "w_pending_joint_entry joining = Some 2" by code_simp+
  have inv: "worker_inv (\<lambda>s. s) joining"
    unfolding joining_def by (rule worker_stepD [OF mem.handle_change_membership_step [OF solo_inv]])
  have log: "node_log_ok (\<lambda>s. s) joining" by code_simp
  have "list_all (\<lambda>(now, ev). own_turn ev) ?evs" by (simp add: own_turn_def)
  from joint_phase_lasts [OF mem_contract inv log _ joining(2) this t] joining t c show ?thesis
    by (auto simp: is_joint_def)
qed

section \<open>Reads\<close>

text \<open>C14 (\<open>reads_answered_once\<close>). Every linearizable read is accounted for exactly once: after a
  turn, the requests answered or still waiting are those before plus the one just received.
  None is dropped on step-down, expiry or error, and none is answered twice.\<close>

theorem reads_answered_once:
  assumes "loop_turn S now ev (w, pending) = Some (w', pending')"
  shows "read_ids w' = read_ids w + read_request ev"
  by (rule read_ids_loop_turn [OF assms])

theorem reads_answered_once_witness:
  "\<exists>w' p'. loop_turn nat_ops 0 (EvMsg (MsgReadIndex (Some 500) 9)) (leader3, []) = Some (w', p') \<and> read_ids w' = {#9#}"
proof -
  let ?t = "loop_turn nat_ops 0 (EvMsg (MsgReadIndex (Some 500) 9)) (leader3, [])"
  have "\<not> Option.is_none ?t" by code_simp
  then obtain w' p' where t: "?t = Some (w', p')" by (cases ?t) auto
  moreover have "w_read_replies leader3 = [] \<and> w_pending_read_index leader3 = []" by code_simp
  ultimately show ?thesis
    using reads_answered_once [OF t] by (simp add: read_request_def read_ids_def)
qed

text \<open>C15 (\<open>read_needs_quorum\<close>). When an append acknowledgement answers a waiting read with index
  \<open>r\<close>, a quorum of the current membership has acknowledged the log up to \<open>r\<close>.\<close>

theorem read_needs_quorum:
  fixes S :: "('n::linorder, 's, 'e) storage_ops" and w :: "('n, 's) worker"
  assumes "raft_storage S view"
    and "(i, Inr r) \<in> set (w_read_replies (snd (handle_append_response S w peer resp)))"
    and "(i, Inr r) \<notin> set (w_read_replies w)"
  shows "quorum_holds (w_effective_cfg (snd (handle_append_response S w peer resp)))
           (\<lambda>m. r \<le> member_match_score S (snd (handle_append_response S w peer resp)) m)"
  by (rule raft_storage.append_response_reply_quorum [OF assms])

definition reading :: "(nat, nat mem_storage) worker" where
  "reading = fst (handle_read_index nat_ops leader3 [] (Some 500000) 9)"

definition ack1 :: append_entries_resp where
  "ack1 = \<lparr>ar_term = 1, ar_success = True, ar_match_index = 1\<rparr>"

theorem read_needs_quorum_witness:
  "w_read_replies (snd (handle_append_response nat_ops reading 2 ack1)) = [(9, Inr 1)] \<and>
   quorum_holds (w_effective_cfg (snd (handle_append_response nat_ops reading 2 ack1)))
     (\<lambda>m. 1 \<le> member_match_score nat_ops (snd (handle_append_response nat_ops reading 2 ack1)) m)"
proof -
  have new: "w_read_replies (snd (handle_append_response nat_ops reading 2 ack1)) = [(9, Inr 1)]" by code_simp
  have old: "w_read_replies reading = []" by code_simp
  have "(9, Inr 1) \<in> set (w_read_replies (snd (handle_append_response nat_ops reading 2 ack1)))"
    by (simp only: new) simp
  from read_needs_quorum [OF mem_contract this] old new show ?thesis by simp
qed

section \<open>Compaction and snapshots\<close>

text \<open>C16 (\<open>compaction_bounded\<close>). Compaction never drops an entry that is still needed: the new
  snapshot boundary is at or below the commit index, at or below what the state machine reports
  as applied, and at or below what a quorum has acknowledged; entries above it stay in the log.\<close>

theorem compaction_bounded:
  fixes S :: "('n::linorder, 's, 'e) storage_ops" and w :: "('n, 's) worker"
  assumes "raft_storage S view" and "worker_inv view w"
    and "snap_last_index (w_meta (snd (try_compact S w))) \<noteq> snap_last_index (w_meta w)"
  shows "let i = snap_last_index (w_meta (snd (try_compact S w)))
    in snap_last_index (w_meta w) < i \<and> i \<le> commit_index (w_meta w) \<and>
       quorum_holds (w_effective_cfg w) (\<lambda>m. i \<le> member_match_score S w m) \<and>
       (\<forall>a. st_applied_index S (w_storage w) = Inr (Some a) \<longrightarrow> i \<le> a) \<and>
       (\<forall>j > i. bt_get (ms_log (view (w_storage (snd (try_compact S w))))) j = bt_get (ms_log (view (w_storage w))) j)"
  by (rule raft_storage.try_compact_bounded [OF assms])

definition solo_applied :: "(nat, nat mem_storage) worker" where
  "solo_applied = (let w = snd (handle_propose nat_ops solo [7])
                   in w\<lparr>w_storage := (w_storage w)\<lparr>ms_applied_index := Some 1\<rparr>\<rparr>)"

theorem compaction_bounded_witness:
  "snap_last_index (w_meta (snd (try_compact nat_ops solo_applied))) = 1 \<and>
   bt_get (ms_log (w_storage (snd (try_compact nat_ops solo_applied)))) 2 = bt_get (ms_log (w_storage solo_applied)) 2"
proof -
  let ?w' = "snd (try_compact nat_ops solo_applied)"
  have i: "snap_last_index (w_meta ?w') = 1" by code_simp
  have inv: "worker_inv (\<lambda>s. s) solo_applied" by code_simp
  have "snap_last_index (w_meta solo_applied) = 0" by code_simp
  with i have "snap_last_index (w_meta ?w') \<noteq> snap_last_index (w_meta solo_applied)" by simp
  from compaction_bounded [OF mem_contract inv this] i show ?thesis by (simp add: Let_def)
qed

text \<open>C13 (\<open>snapshot_transfer_completes\<close>). Chunked snapshot transfer terminates: from any point
  of a transfer of a state no longer than the follower's configured \<open>max_snapshot_bytes\<close>, between a
  leader and a follower of the same term on in-memory stores, with no message lost, after at most
  one exchange per remaining byte and one more, the follower has installed the leader's state bytes
  at the snapshot boundary and the leader has recorded the follower's progress past it.\<close>

theorem snapshot_transfer_completes:
  assumes "transferring peer si st off (l, f)"
    and "length (ms_state (w_storage l)) \<le> max_snapshot_bytes (w_cfg f)"
  shows "\<exists>n \<le> length (ms_state (w_storage l)) - off + 1.
           streamed peer si st (ms_state (w_storage l)) (stream_rounds n peer si st (l, f))"
  by (rule stream_rounds_finish) (use assms in \<open>simp add: streaming_def\<close>)

definition stream_leader :: "(nat, nat mem_storage) worker" where
  "stream_leader = leader3\<lparr>w_storage := (w_storage leader3)\<lparr>ms_state := [1, 2, 3, 4, 5]\<rparr>,
                           w_cfg := (w_cfg leader3)\<lparr>install_snapshot_chunk_bytes := 2\<rparr>\<rparr>"

definition stream_follower :: "(nat, nat mem_storage) worker" where
  "stream_follower = snd (handle_request_vote nat_ops (demo_boot [1, 2, 3] False 3) (ask_vote 1 1))"

theorem snapshot_transfer_completes_witness:
  "\<exists>n \<le> 6. streamed 3 4 1 [1, 2, 3, 4, 5] (stream_rounds n 3 4 1 (stream_leader, stream_follower))"
proof -
  have "transferring 3 4 1 0 (stream_leader, stream_follower)" by code_simp
  moreover have "length (ms_state (w_storage stream_leader)) \<le> max_snapshot_bytes (w_cfg stream_follower)" by code_simp
  moreover have "ms_state (w_storage stream_leader) = [1, 2, 3, 4, 5]" by code_simp
  ultimately show ?thesis
    using snapshot_transfer_completes [of 3 4 1 0 stream_leader stream_follower] by (simp add: eval_nat_numeral)
qed

text \<open>C11 (\<open>snapshot_install_effect\<close>). A turn of InstallSnapshot that moves the follower's snapshot
  boundary is the final chunk of a snapshot beyond it. The store then holds, in one write, the
  boundary's index and term, a commit index not below it, the term of the request, and as state the
  bytes assembled from the chunks of this transfer; the log has lost the entries up to the boundary
  and no other. Any other request, also a failing one, leaves log and state as they were.\<close>

theorem snapshot_install_effect:
  assumes "raft_storage S view" and "worker_inv view w" and "handle_install_snapshot S w from req = (r, w')"
  shows "if snap_last_index (w_meta w') = snap_last_index (w_meta w)
    then ms_log (view (w_storage w')) = ms_log (view (w_storage w)) \<and> ms_state (view (w_storage w')) = ms_state (view (w_storage w))
    else is_done req \<and> snap_last_index (w_meta w) < is_last_included_index req \<and> w_meta w' = ms_meta (view (w_storage w')) \<and>
      installed (view (w_storage w)) req
        (assembled from req (if is_term req = current_term (w_meta w) then w_incoming_snapshot w else None))
        (view (w_storage w'))"
  using raft_storage.handle_install_snapshot_effect [OF assms] by (auto simp: same_data_def installed_def)

text \<open>A snapshot up to index 1 of term 2, for a follower whose entry 1 is of term 1.\<close>

definition divergent_snapshot :: "nat install_snapshot_req" where
  "divergent_snapshot = \<lparr>is_leader = 1, is_term = 2, is_last_included_index = 1, is_last_included_term = 2,
     is_offset = 0, is_done = True, is_data = [9], is_members = [1, 2, 3], is_joint_old = None,
     is_active_config_index = Some 0\<rparr>"

theorem snapshot_install_effect_witness:
  "let s' = w_storage (snd (handle_install_snapshot nat_ops fed 1 divergent_snapshot))
   in snap_last_index (ms_meta s') = 1 \<and> current_term (ms_meta s') = 2 \<and> ms_state s' = [9] \<and>
      bt_get (ms_log s') 1 = None \<and> bt_get (ms_log s') 2 = bt_get (ms_log (w_storage fed)) 2"
proof -
  let ?h = "handle_install_snapshot nat_ops fed 1 divergent_snapshot"
  have h: "?h = (fst ?h, snd ?h)" by simp
  have "snap_last_index (w_meta (snd ?h)) = 1" "snap_last_index (w_meta fed) = 0" "current_term (w_meta fed) = 1"
    "w_incoming_snapshot fed = None" by code_simp+
  with snapshot_install_effect [OF mem_contract fed_inv h] show ?thesis
    by (simp add: installed_def assembled_def divergent_snapshot_def current_incoming_def fresh_incoming_def Let_def)
qed

text \<open>C12 (\<open>snapshot_buffer_bounded\<close>). The buffer in which a follower assembles a snapshot never
  grows beyond the configured \<open>max_snapshot_bytes\<close> (a cap below \<open>usize::MAX\<close>): whatever chunks a
  peer sends, with whatever offsets, every turn keeps it within the cap.\<close>

theorem snapshot_buffer_bounded:
  assumes "case w_incoming_snapshot w of None \<Rightarrow> True | Some inc \<Rightarrow> length (in_buffer inc) \<le> max_snapshot_bytes (w_cfg w)"
    and "max_snapshot_bytes (w_cfg w) < u64_max" and "loop_turn S now ev (w, pending) = Some (w', pending')"
  shows "case w_incoming_snapshot w' of None \<Rightarrow> True | Some inc \<Rightarrow> length (in_buffer inc) \<le> max_snapshot_bytes (w_cfg w')"
proof -
  have "buffer_bounded w" using assms(1) by (simp add: buffer_bounded_def split: option.splits)
  from loop_turn_buffer [OF this assms(2,3)] show ?thesis by (simp add: buffer_bounded_def split: option.splits)
qed

definition first_chunk :: "nat event" where
  "first_chunk = EvMsg (MsgInstallSnapshot 1 (divergent_snapshot\<lparr>is_done := False, is_data := [1, 2, 3]\<rparr>))"

theorem snapshot_buffer_bounded_witness:
  "\<exists>w' p'. loop_turn nat_ops 0 first_chunk (fed, []) = Some (w', p') \<and>
     map_option in_buffer (w_incoming_snapshot w') = Some [1, 2, 3] \<and> 3 \<le> max_snapshot_bytes (w_cfg w')"
proof -
  let ?t = "loop_turn nat_ops 0 first_chunk (fed, [])"
  have "map_option (\<lambda>(w, p). map_option in_buffer (w_incoming_snapshot w)) ?t = Some (Some [1, 2, 3])" by code_simp
  then obtain w' p' where t: "?t = Some (w', p')" and w': "map_option in_buffer (w_incoming_snapshot w') = Some [1, 2, 3]"
    by auto
  have "w_incoming_snapshot fed = None" "max_snapshot_bytes (w_cfg fed) < u64_max" by code_simp+
  with snapshot_buffer_bounded [OF _ _ t] w' have "3 \<le> max_snapshot_bytes (w_cfg w')" by (auto split: option.splits)
  with t w' show ?thesis by blast
qed

end
