(* ===== verification/Raft_Scenarios.thy ===== *)
theory Raft_Scenarios
  imports Raft_Properties
begin

text \<open>
  Cluster-level behaviour. Election safety for a cluster with a fixed membership and pre-vote
  off, in every run of deliveries, losses, timers, client calls and restarts; and concrete runs
  of the same model that show where the code departs from its intent: two leaders of one term
  with pre-vote on, an append that reaches below a snapshot, a divergent tail kept by a snapshot
  install, a pre-vote failure that raises the term, a read confirmed by one fresh
  acknowledgement, and a removed leader that steps down before its removal commits.
\<close>

definition demo_cluster :: "nat list \<Rightarrow> bool \<Rightarrow> (nat, nat mem_storage) cluster" where
  "demo_cluster M pv = cluster_init (demo_boot M pv)"

definition call_pv :: "nat \<Rightarrow> nat \<Rightarrow> nat \<Rightarrow> nat \<Rightarrow> nat \<Rightarrow> nat rpc_call" where
  "call_pv n q t li lt = CallPreVote q t
     \<lparr>pv_candidate = n, pv_next_term = t, pv_last_log_index = li, pv_last_log_term = lt\<rparr>"

definition call_v :: "nat \<Rightarrow> nat \<Rightarrow> nat \<Rightarrow> nat \<Rightarrow> nat \<Rightarrow> nat rpc_call" where
  "call_v n q t li lt = CallVote q
     \<lparr>rv_candidate = n, rv_term = t, rv_last_log_index = li, rv_last_log_term = lt\<rparr>"

definition out_pv :: "nat \<Rightarrow> nat \<Rightarrow> nat \<Rightarrow> nat rpc_outcome" where
  "out_pv q nt t = OutPreVote q nt (Some \<lparr>pr_term = t, pr_vote_granted = True\<rparr>)"

definition out_v :: "nat \<Rightarrow> nat \<Rightarrow> nat rpc_outcome" where
  "out_v q t = OutVote q (Some \<lparr>vr_term = t, vr_vote_granted = True\<rparr>)"

definition first_append :: "nat \<Rightarrow> nat \<Rightarrow> nat \<Rightarrow> nat rpc_call" where
  "first_append n q t = CallAppend q
     \<lparr>ae_leader = n, ae_term = t, ae_prev_log_index = 0, ae_prev_log_term = 0, ae_leader_commit = 0,
      ae_entries = [entry_data 1 t []]\<rparr>"

section \<open>Election safety\<close>

text \<open>C1 (\<open>election_safety\<close>). With a fixed membership and pre-vote off, no run of the cluster
  -- with any interleaving of deliveries, duplications and losses of calls and replies, timers,
  client requests, storage failures and restarts -- has two different leaders in one term.\<close>

theorem election_safety:
  fixes S :: "('n::linorder, 's, 'e) storage_ops"
  assumes "raft_storage S view" and "\<And>n. fresh_node S view M n (boot n)"
    and "static_reachable S (cluster_init boot) cl"
    and "(t, a) \<in> set (cl_leaders cl)" and "(t, b) \<in> set (cl_leaders cl)"
  shows "a = b"
  using cluster_inv_one_leader [OF raft_storage.static_reachable_inv [OF assms(1,3)
      raft_storage.cluster_init_inv [OF assms(1,2)]] assms(4,5)] .

definition plain_election :: "nat cluster_event list" where
  "plain_election = [Tick 1 0, Tick 2 0, Deliver 1 (call_v 1 3 1 0 0) 0, Deliver 2 (call_v 2 3 1 0 0) 0,
     Resolve 1 1 (out_v 3 1) 0, Restart 3 (\<lambda>i. 1000 * i) (\<lambda>_. 0) 0, Deliver 2 (call_v 2 3 1 0 0) 0]"

theorem election_safety_witness:
  "\<exists>cl. cluster_run nat_ops (demo_cluster [1, 2, 3] False) plain_election = Some cl \<and>
        {b. (1, b) \<in> set (cl_leaders cl)} = {1}"
proof -
  have "map_option cl_leaders (cluster_run nat_ops (demo_cluster [1, 2, 3] False) plain_election) = Some [(1, 1)]"
    by code_simp
  then obtain cl where cl: "cluster_run nat_ops (demo_cluster [1, 2, 3] False) plain_election = Some cl"
    "cl_leaders cl = [(1, 1)]" by auto
  have "list_all static_event plain_election" by (simp add: plain_election_def)
  with cl(1) have "static_reachable nat_ops (cluster_init (demo_boot [1, 2, 3] False)) cl"
    unfolding demo_cluster_def by (intro cluster_run_reachable [OF static_reachable.start])
  from election_safety [OF mem_contract demo_boot_fresh this] cl(2) have "b = 1" if "(1, b) \<in> set (cl_leaders cl)" for b
    using that by (metis list.set_intros(1))
  with cl show ?thesis by auto
qed

text \<open>\<open>prevote_two_leaders\<close>: with pre-vote on, election safety fails: in this run of five
  nodes, node 2 is elected leader of term 1, and node 1, promoted from pre-candidate to candidate
  with its pre-vote grants still counted and its term not yet raised, takes a late real grant of
  term 1 as its quorum and becomes a second leader of term 1.\<close>

definition prevote_trace :: "nat cluster_event list" where
  "prevote_trace = [Tick 1 0, Deliver 1 (call_pv 1 2 1 0 0) 0, Deliver 1 (call_pv 1 3 1 0 0) 0,
     Resolve 1 0 (out_pv 2 1 0) 0, Resolve 1 0 (out_pv 3 1 0) 0, Lost 1 0 0, Lost 1 0 0,
     Tick 1 0, Deliver 1 (call_v 1 5 1 0 0) 0, Lost 1 0 0, Lost 1 0 0, Lost 1 0 0,
     Tick 2 0, Deliver 2 (call_pv 2 3 1 0 0) 0, Deliver 2 (call_pv 2 4 1 0 0) 0,
     Lost 2 0 0, Resolve 2 0 (out_pv 3 1 0) 0, Resolve 2 0 (out_pv 4 1 0) 0, Lost 2 0 0,
     Tick 2 0, Deliver 2 (call_v 2 3 1 0 0) 0, Deliver 2 (call_v 2 4 1 0 0) 0,
     Lost 2 0 0, Resolve 2 0 (out_v 3 1) 0, Resolve 2 0 (out_v 4 1) 0, Tick 2 0,
     Deliver 2 (first_append 2 1 1) 0,
     Tick 1 0, Deliver 1 (call_pv 1 3 2 1 1) 0, Deliver 1 (call_pv 1 4 2 1 1) 0,
     Lost 1 1 0, Resolve 1 1 (out_pv 3 2 1) 0, Resolve 1 1 (out_pv 4 2 1) 0, Resolve 1 0 (out_v 5 1) 0]"

theorem prevote_two_leaders:
  "map_option cl_leaders (cluster_run nat_ops (demo_cluster [1, 2, 3, 4, 5] True) prevote_trace) =
     Some [(1, 1), (1, 2), (1, 2)]"
  by code_simp

section \<open>Other departures\<close>

text \<open>\<open>append_below_snapshot\<close>: a follower holding a snapshot up to index 4 accepts an
  AppendEntries with previous index 0, acknowledges it, and stores entries 1 and 2 below its
  snapshot boundary: its log is no longer the contiguous one that starts after the boundary.\<close>

definition snapshotted :: "(nat, nat mem_storage) worker" where
  "snapshotted = snd (stream_rounds 3 3 4 1 (stream_leader, stream_follower))"

theorem append_below_snapshot:
  "snap_last_index (w_meta snapshotted) = 4 \<and> log_ok (w_storage snapshotted) \<and>
   fst (handle_append_entries nat_ops snapshotted feed) =
     Inr \<lparr>ar_term = 1, ar_success = True, ar_match_index = 2\<rparr> \<and>
   map fst (ms_log (w_storage (snd (handle_append_entries nat_ops snapshotted feed)))) = [1, 2] \<and>
   \<not> log_ok (w_storage (snd (handle_append_entries nat_ops snapshotted feed)))"
  by code_simp

text \<open>\<open>install_keeps_divergent_tail\<close>: installing a snapshot up to index 1 of term 2 on a
  follower whose entry 1 is of term 1 keeps the follower's entry 2 of term 1, although the log
  the snapshot stands for diverges from the follower's before that entry.\<close>

theorem install_keeps_divergent_tail:
  "mem_term_at (w_storage fed) 1 = Some 1 \<and>
   mem_term_at (w_storage (snd (handle_install_snapshot nat_ops fed 1 divergent_snapshot))) 1 = Some 2 \<and>
   mem_term_at (w_storage (snd (handle_install_snapshot nat_ops fed 1 divergent_snapshot))) 2 = Some 1"
  by code_simp

text \<open>\<open>prevote_failure_raises_term\<close>: a pre-candidate of term 0 whose pre-vote call the
  receiving side cannot answer (its worker is gone) gets a reply carrying the hypothetical term,
  takes it for a higher real term, persists term 1 and steps down: the pre-vote round, meant to
  leave terms alone, has raised one.\<close>

definition pre_candidate :: "(nat, nat mem_storage) worker" where
  "pre_candidate = fst (on_worker_timer nat_ops (demo_boot [1, 2, 3] True 1) [])"

definition lost_prevote :: "nat pre_vote_req" where
  "lost_prevote = \<lparr>pv_candidate = 1, pv_next_term = 1, pv_last_log_index = 0, pv_last_log_term = 0\<rparr>"

theorem prevote_failure_raises_term:
  "CallPreVote 2 1 lost_prevote \<in> set (snd (on_worker_timer nat_ops (demo_boot [1, 2, 3] True 1) [])) \<and>
   w_role pre_candidate = PreCandidate \<and> current_term (w_meta pre_candidate) = 0 \<and>
   (let w = handle_rpc_outcome nat_ops pre_candidate (OutPreVote 2 1 (Some (handle_inbound_prevote lost_prevote None)))
    in w_role w = Follower \<and> current_term (ms_meta (w_storage w)) = 1)"
  by code_simp

text \<open>\<open>read_confirmed_by_one_ack\<close>: in a cluster of five whose members have all acknowledged
  the committed entry, a read queued afterwards is answered as soon as one follower acknowledges,
  because the quorum test looks at log positions, which already satisfy it, and not at
  acknowledgements of the heartbeat round the read started.\<close>

definition leader5 :: "(nat, nat mem_storage) worker" where
  "leader5 = (let w0 = handle_rpc_outcome nat_ops (handle_rpc_outcome nat_ops
                  (fst (on_worker_timer nat_ops (demo_boot [1, 2, 3, 4, 5] False 1) [])) (grant 2)) (grant 3)
              in fold (\<lambda>q w. snd (handle_append_response nat_ops w q ack1)) [2, 3, 4, 5] w0)"

theorem read_confirmed_by_one_ack:
  "let w1 = fst (handle_read_index nat_ops leader5 [] None 9);
       w2 = snd (handle_append_response nat_ops w1 2 ack1)
   in w_role leader5 = Leader \<and> commit_index (w_meta leader5) = 1 \<and>
      w_read_replies w1 = [] \<and> w_read_replies w2 = [(9, Inr 1)]"
  by code_simp

text \<open>\<open>removed_leader_steps_down_early\<close>: a leader that removes itself from the membership
  steps down in the same call that appends the final configuration entry, while that entry (index
  3) is above its commit index (2).\<close>

definition removed_leader :: "(nat, nat mem_storage) worker" where
  "removed_leader = (let w1 = snd (handle_change_membership nat_ops leader3 [2, 3])
                     in fold (\<lambda>q w. snd (handle_append_response nat_ops w q (ack1\<lparr>ar_match_index := 2\<rparr>))) [2, 3] w1)"

theorem removed_leader_steps_down_early:
  "w_role removed_leader = Follower \<and> commit_index (w_meta removed_leader) = 2 \<and>
   bt_get (ms_log (w_storage removed_leader)) 3 = Some (entry_config_change 3 1 None [2, 3])"
  by code_simp

end
