(* ===== verification/Merkle_Encode.thy ===== *)
theory Merkle_Encode
  imports Vos_Prelude
begin

text \<open>
  The deterministic byte encoding of \<open>support/merkle-crdt/src/encode.rs\<close>, over which content
  identifiers are computed. An \<open>Encode\<close> implementation is a function to bytes; a
  \<open>Decode\<close> implementation is a function of the buffer and a cursor, with the cursor
  arithmetic of the code: \<open>checked_add\<close> on a 64-bit \<open>usize\<close>, a slice that must lie
  inside the buffer, and the cap on element counts. Generic implementations take those of their
  component types as arguments. The locale \<open>codec\<close> is the contract between the two traits;
  every pair of implementations is an interpretation or, for the generic ones, preserves it.
\<close>

section \<open>Little-endian numbers\<close>

fun to_le_bytes :: "nat \<Rightarrow> nat \<Rightarrow> byte list" where
  "to_le_bytes 0 v = []"
| "to_le_bytes (Suc n) v = of_nat (v mod 256) # to_le_bytes n (v div 256)"

fun from_le_bytes :: "byte list \<Rightarrow> nat" where
  "from_le_bytes [] = 0"
| "from_le_bytes (b # bs) = unat b + 256 * from_le_bytes bs"

lemma length_to_le_bytes [simp]: "length (to_le_bytes n v) = n"
  by (induction n arbitrary: v) simp_all

lemma unat_byte_mod: "unat (of_nat (v mod 256) :: byte) = v mod 256"
  by (simp add: unat_of_nat)

lemma from_to_le_bytes: "v < 256 ^ n \<Longrightarrow> from_le_bytes (to_le_bytes n v) = v"
proof (induction n arbitrary: v)
  case (Suc n)
  then have "v div 256 < 256 ^ n" by (simp add: less_mult_imp_div_less mult.commute)
  with Suc.IH show ?case by (simp add: unat_byte_mod del: of_nat_mod)
qed simp

section \<open>Reading from a cursor\<close>

type_synonym 'a encode = "'a \<Rightarrow> byte list"
type_synonym 'a decode = "byte list \<Rightarrow> nat \<Rightarrow> ('a \<times> nat) option"

abbreviation usize_max :: nat where
  "usize_max \<equiv> u64_max"

definition max_decode_items :: nat where
  "max_decode_items = 1000000"

definition take_bytes :: "byte list \<Rightarrow> nat \<Rightarrow> nat \<Rightarrow> (byte list \<times> nat) option" where
  "take_bytes buf pos n =
     (if pos + n > usize_max then None
      else if pos + n \<le> length buf then Some (take n (drop pos buf), pos + n)
      else None)"

definition read_u64 :: "nat decode" where
  "read_u64 buf pos = map_option (\<lambda>(b, p). (from_le_bytes b, p)) (take_bytes buf pos 8)"

definition read_len :: "nat decode" where
  "read_len buf pos = (case read_u64 buf pos of None \<Rightarrow> None
     | Some (n, p) \<Rightarrow> if n \<le> usize_max then Some (n, p) else None)"

definition read_count :: "nat decode" where
  "read_count buf pos = (case read_len buf pos of None \<Rightarrow> None
     | Some (n, p) \<Rightarrow> if n \<le> max_decode_items then Some (n, p) else None)"

text \<open>\<open>Decode::decode\<close>: the whole slice, nothing left over.\<close>

definition decode_all :: "'a decode \<Rightarrow> byte list \<Rightarrow> 'a option" where
  "decode_all D buf = (case D buf 0 of None \<Rightarrow> None
     | Some (v, pos) \<Rightarrow> if pos = length buf then Some v else None)"

section \<open>Encoders\<close>

definition encode_unit :: "unit encode" where
  "encode_unit u = []"

definition encode_bool :: "bool encode" where
  "encode_bool b = [if b then 1 else 0]"

definition encode_int :: "'w::len word encode" where
  "encode_int w = to_le_bytes (LENGTH('w) div 8) (unat w)"

definition encode_slice :: "byte list encode" where
  "encode_slice bs = to_le_bytes 8 (length bs) @ bs"

definition encode_array :: "byte list encode" where
  "encode_array bs = bs"

definition encode_string :: "byte list encode" where
  "encode_string s = encode_slice s"

definition encode_vec :: "'a encode \<Rightarrow> 'a list encode" where
  "encode_vec E xs = to_le_bytes 8 (length xs) @ concat (map E xs)"

definition encode_set :: "'a::linorder encode \<Rightarrow> 'a list encode" where
  "encode_set E s = to_le_bytes 8 (length s) @ concat (map E s)"

definition encode_map :: "'k::linorder encode \<Rightarrow> 'v encode \<Rightarrow> ('k, 'v) btree encode" where
  "encode_map EK EV m = to_le_bytes 8 (length m) @ concat (map (\<lambda>(k, v). EK k @ EV v) m)"

definition encode_option :: "'a encode \<Rightarrow> 'a option encode" where
  "encode_option E x = (case x of None \<Rightarrow> [0] | Some v \<Rightarrow> 1 # E v)"

definition encode_tuple2 :: "'a encode \<Rightarrow> 'b encode \<Rightarrow> ('a \<times> 'b) encode" where
  "encode_tuple2 EA EB x = (case x of (a, b) \<Rightarrow> EA a @ EB b)"

definition encode_tuple3 :: "'a encode \<Rightarrow> 'b encode \<Rightarrow> 'c encode \<Rightarrow> ('a \<times> 'b \<times> 'c) encode" where
  "encode_tuple3 EA EB EC x = (case x of (a, b, c) \<Rightarrow> EA a @ EB b @ EC c)"

definition encode_tuple4 ::
  "'a encode \<Rightarrow> 'b encode \<Rightarrow> 'c encode \<Rightarrow> 'd encode \<Rightarrow> ('a \<times> 'b \<times> 'c \<times> 'd) encode" where
  "encode_tuple4 EA EB EC ED x = (case x of (a, b, c, d) \<Rightarrow> EA a @ EB b @ EC c @ ED d)"

section \<open>Decoders\<close>

text \<open>\<open>core::str::from_utf8\<close>: the well-formed byte sequences of UTF-8. A Rust string is its
  bytes, of which this holds.\<close>

definition utf8_cont :: "byte \<Rightarrow> bool" where
  "utf8_cont b \<longleftrightarrow> 0x80 \<le> b \<and> b \<le> 0xBF"

definition utf8_second :: "byte \<Rightarrow> byte \<Rightarrow> bool" where
  "utf8_second b0 b1 \<longleftrightarrow>
     (if b0 = 0xE0 then 0xA0 \<le> b1 \<and> b1 \<le> 0xBF else if b0 = 0xED then 0x80 \<le> b1 \<and> b1 \<le> 0x9F
      else if b0 = 0xF0 then 0x90 \<le> b1 \<and> b1 \<le> 0xBF else if b0 = 0xF4 then 0x80 \<le> b1 \<and> b1 \<le> 0x8F
      else utf8_cont b1)"

fun utf8_valid :: "byte list \<Rightarrow> bool" where
  "utf8_valid [] = True"
| "utf8_valid (b0 # bs) =
     (if b0 < 0x80 then utf8_valid bs
      else if 0xC2 \<le> b0 \<and> b0 \<le> 0xDF then (case bs of b1 # r \<Rightarrow> utf8_cont b1 \<and> utf8_valid r | _ \<Rightarrow> False)
      else if 0xE0 \<le> b0 \<and> b0 \<le> 0xEF then
        (case bs of b1 # b2 # r \<Rightarrow> utf8_second b0 b1 \<and> utf8_cont b2 \<and> utf8_valid r | _ \<Rightarrow> False)
      else if 0xF0 \<le> b0 \<and> b0 \<le> 0xF4 then
        (case bs of b1 # b2 # b3 # r \<Rightarrow> utf8_second b0 b1 \<and> utf8_cont b2 \<and> utf8_cont b3 \<and> utf8_valid r
         | _ \<Rightarrow> False)
      else False)"

definition decode_unit :: "unit decode" where
  "decode_unit buf pos = Some ((), pos)"

definition decode_bool :: "bool decode" where
  "decode_bool buf pos = map_option (\<lambda>(b, p). (hd b \<noteq> 0, p)) (take_bytes buf pos 1)"

definition decode_int :: "'w::len word decode" where
  "decode_int buf pos =
     map_option (\<lambda>(b, p). (of_nat (from_le_bytes b), p)) (take_bytes buf pos (LENGTH('w) div 8))"

definition decode_array :: "nat \<Rightarrow> byte list decode" where
  "decode_array n buf pos = take_bytes buf pos n"

definition decode_string :: "byte list decode" where
  "decode_string buf pos = (case read_len buf pos of None \<Rightarrow> None
     | Some (len, p) \<Rightarrow>
         (case take_bytes buf p len of None \<Rightarrow> None
          | Some (b, p') \<Rightarrow> if utf8_valid b then Some (b, p') else None))"

fun decode_items :: "'a decode \<Rightarrow> nat \<Rightarrow> 'a list decode" where
  "decode_items D 0 buf pos = Some ([], pos)"
| "decode_items D (Suc n) buf pos = (case D buf pos of None \<Rightarrow> None
     | Some (v, p) \<Rightarrow> map_option (\<lambda>(vs, p'). (v # vs, p')) (decode_items D n buf p))"

definition decode_vec :: "'a decode \<Rightarrow> 'a list decode" where
  "decode_vec D buf pos = (case read_count buf pos of None \<Rightarrow> None
     | Some (count, p) \<Rightarrow> decode_items D count buf p)"

fun decode_set_items :: "'a::linorder decode \<Rightarrow> nat \<Rightarrow> 'a list \<Rightarrow> 'a list decode" where
  "decode_set_items D 0 s buf pos = Some (s, pos)"
| "decode_set_items D (Suc n) s buf pos = (case D buf pos of None \<Rightarrow> None
     | Some (v, p) \<Rightarrow> if v \<in> set s then None else decode_set_items D n (bs_insert v s) buf p)"

definition decode_set :: "'a::linorder decode \<Rightarrow> 'a list decode" where
  "decode_set D buf pos = (case read_count buf pos of None \<Rightarrow> None
     | Some (count, p) \<Rightarrow> decode_set_items D count [] buf p)"

definition decode_option :: "'a decode \<Rightarrow> 'a option decode" where
  "decode_option D buf pos = (case take_bytes buf pos 1 of None \<Rightarrow> None
     | Some (b, p) \<Rightarrow> if hd b = 0 then Some (None, p)
                     else map_option (\<lambda>(v, p'). (Some v, p')) (D buf p))"

definition decode_tuple2 :: "'a decode \<Rightarrow> 'b decode \<Rightarrow> ('a \<times> 'b) decode" where
  "decode_tuple2 DA DB buf pos = (case DA buf pos of None \<Rightarrow> None
     | Some (a, p) \<Rightarrow> map_option (\<lambda>(b, p'). ((a, b), p')) (DB buf p))"

definition decode_tuple3 :: "'a decode \<Rightarrow> 'b decode \<Rightarrow> 'c decode \<Rightarrow> ('a \<times> 'b \<times> 'c) decode" where
  "decode_tuple3 DA DB DC = decode_tuple2 DA (decode_tuple2 DB DC)"

definition decode_tuple4 ::
  "'a decode \<Rightarrow> 'b decode \<Rightarrow> 'c decode \<Rightarrow> 'd decode \<Rightarrow> ('a \<times> 'b \<times> 'c \<times> 'd) decode" where
  "decode_tuple4 DA DB DC DD = decode_tuple2 DA (decode_tuple3 DB DC DD)"

section \<open>The contract of an encoder and a decoder\<close>

text \<open>Decoding from the position where an encoding starts gives the value back and leaves the
  cursor at its end, whatever surrounds it, for the values \<open>ok\<close> describes.\<close>

locale codec =
  fixes E :: "'a encode" and D :: "'a decode" and ok :: "'a \<Rightarrow> bool"
  assumes decode_encode: "ok x \<Longrightarrow> length pre + length (E x) \<le> usize_max \<Longrightarrow>
    D (pre @ E x @ rest) (length pre) = Some (x, length pre + length (E x))"
begin

lemma decode_all_encode:
  assumes "ok x" and "length (E x) \<le> usize_max"
  shows "decode_all D (E x) = Some x"
  using decode_encode [of x "[]" "[]"] assms by (simp add: decode_all_def)

lemma encode_prefix_free:
  assumes "ok x" "ok y" "length (E x) \<le> usize_max" "length (E y) \<le> usize_max" "E x @ r = E y @ s"
  shows "x = y \<and> r = s"
  using decode_encode [of x "[]" r] decode_encode [of y "[]" s] assms by auto

lemma encode_inj: "inj_on E {x. ok x \<and> length (E x) \<le> usize_max}"
  using encode_prefix_free [of _ _ "[]" "[]"] by (auto simp: inj_on_def)

end

lemma take_bytes_at:
  assumes "length pre + length b \<le> usize_max" and "n = length b"
  shows "take_bytes (pre @ b @ rest) (length pre) n = Some (b, length pre + length b)"
  using assms by (simp add: take_bytes_def)

lemma read_u64_at:
  assumes "length pre + 8 \<le> usize_max" and "v \<le> u64_max"
  shows "read_u64 (pre @ to_le_bytes 8 v @ rest) (length pre) = Some (v, length pre + 8)"
  using assms by (simp add: read_u64_def take_bytes_at from_to_le_bytes)

lemma read_len_at:
  assumes "length pre + 8 \<le> usize_max" and "v \<le> u64_max"
  shows "read_len (pre @ to_le_bytes 8 v @ rest) (length pre) = Some (v, length pre + 8)"
  using assms by (simp add: read_len_def read_u64_at)

lemma read_count_at:
  assumes "length pre + 8 \<le> usize_max" and "v \<le> max_decode_items"
  shows "read_count (pre @ to_le_bytes 8 v @ rest) (length pre) = Some (v, length pre + 8)"
  using assms by (simp add: read_count_def read_len_at max_decode_items_def)

section \<open>Interpretations\<close>

interpretation unit_codec: codec encode_unit decode_unit "\<lambda>_. True"
  by unfold_locales (simp add: encode_unit_def decode_unit_def)

interpretation bool_codec: codec encode_bool decode_bool "\<lambda>_. True"
proof
  fix x :: bool and pre rest :: "byte list"
  assume "length pre + length (encode_bool x) \<le> usize_max"
  then show "decode_bool (pre @ encode_bool x @ rest) (length pre) =
      Some (x, length pre + length (encode_bool x))"
    using take_bytes_at [of pre "encode_bool x" 1 rest] by (simp add: decode_bool_def encode_bool_def)
qed

lemma int_codec:
  assumes "8 dvd LENGTH('w)"
  shows "codec (encode_int :: 'w::len word encode) decode_int (\<lambda>_. True)"
proof
  fix x :: "'w word" and pre rest :: "byte list"
  assume len: "length pre + length (encode_int x) \<le> usize_max"
  have "(256 :: nat) ^ (LENGTH('w) div 8) = (2 ^ 8) ^ (LENGTH('w) div 8)" by simp
  also have "\<dots> = 2 ^ (8 * (LENGTH('w) div 8))" by (rule power_mult [symmetric])
  also have "8 * (LENGTH('w) div 8) = LENGTH('w)" using assms by (rule dvd_mult_div_cancel)
  finally have "unat x < 256 ^ (LENGTH('w) div 8)" using unsigned_less [of x] by (simp only:)
  then have v: "from_le_bytes (encode_int x) = unat x" unfolding encode_int_def by (rule from_to_le_bytes)
  have "length (encode_int x) = LENGTH('w) div 8" by (simp add: encode_int_def)
  then have "take_bytes (pre @ encode_int x @ rest) (length pre) (LENGTH('w) div 8) =
      Some (encode_int x, length pre + length (encode_int x))"
    using len by (intro take_bytes_at) simp_all
  then show "decode_int (pre @ encode_int x @ rest) (length pre) =
      Some (x, length pre + length (encode_int x))"
    unfolding decode_int_def by (simp add: v)
qed

interpretation u8_codec: codec "encode_int :: 8 word encode" decode_int "\<lambda>_. True"
  by (rule int_codec) simp

interpretation u16_codec: codec "encode_int :: 16 word encode" decode_int "\<lambda>_. True"
  by (rule int_codec) simp

interpretation u32_codec: codec "encode_int :: 32 word encode" decode_int "\<lambda>_. True"
  by (rule int_codec) simp

interpretation u64_codec: codec "encode_int :: 64 word encode" decode_int "\<lambda>_. True"
  by (rule int_codec) simp

interpretation u128_codec: codec "encode_int :: 128 word encode" decode_int "\<lambda>_. True"
  by (rule int_codec) simp

interpretation array_codec: codec encode_array "decode_array n" "\<lambda>b. length b = n" for n
  by unfold_locales (simp add: encode_array_def decode_array_def take_bytes_at)

interpretation string_codec: codec encode_string decode_string utf8_valid
proof
  fix x pre rest :: "byte list"
  assume v: "utf8_valid x" and len: "length pre + length (encode_string x) \<le> usize_max"
  let ?h = "to_le_bytes 8 (length x)"
  have "read_len (pre @ ?h @ x @ rest) (length pre) = Some (length x, length pre + 8)"
    using len by (intro read_len_at) (simp_all add: encode_string_def encode_slice_def)
  moreover have "take_bytes ((pre @ ?h) @ x @ rest) (length (pre @ ?h)) (length x) =
      Some (x, length (pre @ ?h) + length x)"
    using len by (intro take_bytes_at) (simp_all add: encode_string_def encode_slice_def)
  ultimately show "decode_string (pre @ encode_string x @ rest) (length pre) =
      Some (x, length pre + length (encode_string x))"
    using v by (simp add: decode_string_def encode_string_def encode_slice_def)
qed

section \<open>Generic implementations keep the contract\<close>

context codec
begin

lemma decode_items_encode:
  assumes "list_all ok xs" and "length pre + length (concat (map E xs)) \<le> usize_max"
  shows "decode_items D (length xs) (pre @ concat (map E xs) @ rest) (length pre) =
           Some (xs, length pre + length (concat (map E xs)))"
  using assms
proof (induction xs arbitrary: pre)
  case (Cons x xs)
  have "D (pre @ E x @ concat (map E xs) @ rest) (length pre) = Some (x, length pre + length (E x))"
    using Cons.prems by (intro decode_encode) simp_all
  with Cons.IH [of "pre @ E x"] Cons.prems show ?case by simp
qed simp

lemma vec_codec: "codec (encode_vec E) (decode_vec D) (\<lambda>xs. list_all ok xs \<and> length xs \<le> max_decode_items)"
proof
  fix xs :: "'a list" and pre rest :: "byte list"
  assume ok: "list_all ok xs \<and> length xs \<le> max_decode_items"
    and len: "length pre + length (encode_vec E xs) \<le> usize_max"
  let ?h = "to_le_bytes 8 (length xs)"
  have "read_count (pre @ ?h @ concat (map E xs) @ rest) (length pre) = Some (length xs, length pre + 8)"
    using ok len by (intro read_count_at) (simp_all add: encode_vec_def)
  moreover have "decode_items D (length xs) ((pre @ ?h) @ concat (map E xs) @ rest) (length (pre @ ?h)) =
      Some (xs, length (pre @ ?h) + length (concat (map E xs)))"
    using ok len by (intro decode_items_encode) (simp_all add: encode_vec_def)
  ultimately show "decode_vec D (pre @ encode_vec E xs @ rest) (length pre) =
      Some (xs, length pre + length (encode_vec E xs))"
    by (simp add: decode_vec_def encode_vec_def)
qed

lemma option_codec: "codec (encode_option E) (decode_option D) (pred_option ok)"
proof
  fix x :: "'a option" and pre rest :: "byte list"
  assume ok: "pred_option ok x" and len: "length pre + length (encode_option E x) \<le> usize_max"
  show "decode_option D (pre @ encode_option E x @ rest) (length pre) =
      Some (x, length pre + length (encode_option E x))"
  proof (cases x)
    case None
    with len show ?thesis
      using take_bytes_at [of pre "[0]" 1 rest] by (simp add: decode_option_def encode_option_def)
  next
    case (Some v)
    have "take_bytes (pre @ [1] @ E v @ rest) (length pre) 1 = Some ([1], length pre + 1)"
      using len Some by (intro take_bytes_at [THEN trans]) (simp_all add: encode_option_def)
    moreover have "D ((pre @ [1]) @ E v @ rest) (length (pre @ [1])) = Some (v, length (pre @ [1]) + length (E v))"
      using ok len Some by (intro decode_encode) (simp_all add: encode_option_def)
    ultimately show ?thesis using Some by (simp add: decode_option_def encode_option_def)
  qed
qed

end

lemma decode_set_items_encode:
  fixes E :: "'a::linorder encode"
  assumes "codec E D ok" "list_all ok xs" "distinct xs" "set xs \<inter> set s = {}"
    and "length pre + length (concat (map E xs)) \<le> usize_max"
  shows "decode_set_items D (length xs) s (pre @ concat (map E xs) @ rest) (length pre) =
           Some (bs_extend xs s, length pre + length (concat (map E xs)))"
  using assms(2-)
proof (induction xs arbitrary: pre s)
  case (Cons x xs)
  have "D (pre @ E x @ concat (map E xs) @ rest) (length pre) = Some (x, length pre + length (E x))"
    using Cons.prems by (intro codec.decode_encode [OF assms(1)]) simp_all
  with Cons.IH [of "bs_insert x s" "pre @ E x"] Cons.prems show ?case by auto
qed simp

lemma bs_extend_sorted:
  assumes "bs_wf xs"
  shows "bs_extend xs [] = xs"
  using assms by (intro bs_wf_ext) simp_all

lemma set_codec:
  fixes E :: "'a::linorder encode"
  assumes "codec E D ok"
  shows "codec (encode_set E) (decode_set D) (\<lambda>s. bs_wf s \<and> list_all ok s \<and> length s \<le> max_decode_items)"
proof
  fix s :: "'a list" and pre rest :: "byte list"
  assume ok: "bs_wf s \<and> list_all ok s \<and> length s \<le> max_decode_items"
    and len: "length pre + length (encode_set E s) \<le> usize_max"
  let ?h = "to_le_bytes 8 (length s)"
  have "read_count (pre @ ?h @ concat (map E s) @ rest) (length pre) = Some (length s, length pre + 8)"
    using ok len by (intro read_count_at) (simp_all add: encode_set_def)
  moreover have "decode_set_items D (length s) [] ((pre @ ?h) @ concat (map E s) @ rest) (length (pre @ ?h)) =
      Some (bs_extend s [], length (pre @ ?h) + length (concat (map E s)))"
    using ok len by (intro decode_set_items_encode [OF assms]) (simp_all add: encode_set_def bs_wf_distinct)
  ultimately show "decode_set D (pre @ encode_set E s @ rest) (length pre) =
      Some (s, length pre + length (encode_set E s))"
    using ok by (simp add: decode_set_def encode_set_def bs_extend_sorted)
qed

lemma tuple2_codec:
  assumes "codec EA DA okA" and "codec EB DB okB"
  shows "codec (encode_tuple2 EA EB) (decode_tuple2 DA DB) (\<lambda>(a, b). okA a \<and> okB b)"
proof
  fix x :: "'a \<times> 'b" and pre rest :: "byte list"
  assume ok: "(\<lambda>(a, b). okA a \<and> okB b) x" and len: "length pre + length (encode_tuple2 EA EB x) \<le> usize_max"
  obtain a b where x: "x = (a, b)" by (cases x)
  have "DA (pre @ EA a @ EB b @ rest) (length pre) = Some (a, length pre + length (EA a))"
    using ok len x by (intro codec.decode_encode [OF assms(1)]) (simp_all add: encode_tuple2_def)
  moreover have "DB ((pre @ EA a) @ EB b @ rest) (length (pre @ EA a)) = Some (b, length (pre @ EA a) + length (EB b))"
    using ok len x by (intro codec.decode_encode [OF assms(2)]) (simp_all add: encode_tuple2_def)
  ultimately show "decode_tuple2 DA DB (pre @ encode_tuple2 EA EB x @ rest) (length pre) =
      Some (x, length pre + length (encode_tuple2 EA EB x))"
    by (simp add: decode_tuple2_def encode_tuple2_def x)
qed

lemma encode_tuple3_nested: "encode_tuple3 EA EB EC = encode_tuple2 EA (encode_tuple2 EB EC)"
  by (auto simp: encode_tuple3_def encode_tuple2_def)

lemma encode_tuple4_nested: "encode_tuple4 EA EB EC ED = encode_tuple2 EA (encode_tuple3 EB EC ED)"
  by (auto simp: encode_tuple4_def encode_tuple3_def encode_tuple2_def)

lemma tuple3_codec:
  assumes "codec EA DA okA" "codec EB DB okB" "codec EC DC okC"
  shows "codec (encode_tuple3 EA EB EC) (decode_tuple3 DA DB DC) (\<lambda>(a, b, c). okA a \<and> okB b \<and> okC c)"
  using tuple2_codec [OF assms(1) tuple2_codec [OF assms(2,3)]]
  by (simp add: encode_tuple3_nested decode_tuple3_def case_prod_beta)

lemma tuple4_codec:
  assumes "codec EA DA okA" "codec EB DB okB" "codec EC DC okC" "codec ED DD okD"
  shows "codec (encode_tuple4 EA EB EC ED) (decode_tuple4 DA DB DC DD)
           (\<lambda>(a, b, c, d). okA a \<and> okB b \<and> okC c \<and> okD d)"
  using tuple2_codec [OF assms(1) tuple3_codec [OF assms(2-)]]
  by (simp add: encode_tuple4_nested decode_tuple4_def case_prod_beta)

section \<open>Cursors\<close>

text \<open>A decoder that returns has moved the cursor forward, not past the end.\<close>

definition in_bounds :: "'a decode \<Rightarrow> bool" where
  "in_bounds D \<longleftrightarrow> (\<forall>buf pos x p. pos \<le> length buf \<longrightarrow> D buf pos = Some (x, p) \<longrightarrow> pos \<le> p \<and> p \<le> length buf)"

lemma in_boundsD: "in_bounds D \<Longrightarrow> pos \<le> length buf \<Longrightarrow> D buf pos = Some (x, p) \<Longrightarrow> pos \<le> p \<and> p \<le> length buf"
  unfolding in_bounds_def by blast

lemma take_bytes_bounds:
  assumes "take_bytes buf pos n = Some (b, p)"
  shows "pos \<le> p" "p \<le> length buf"
  using assms unfolding take_bytes_def by (auto split: if_split_asm)

lemma read_u64_bounds:
  assumes "read_u64 buf pos = Some (n, p)"
  shows "pos \<le> p" "p \<le> length buf"
proof -
  from assms obtain b where "take_bytes buf pos 8 = Some (b, p)"
    unfolding read_u64_def by (cases "take_bytes buf pos 8") auto
  from take_bytes_bounds [OF this] show "pos \<le> p" "p \<le> length buf" .
qed

lemma read_len_bounds:
  assumes "read_len buf pos = Some (n, p)"
  shows "pos \<le> p" "p \<le> length buf"
proof -
  from assms have "read_u64 buf pos = Some (n, p)"
    unfolding read_len_def by (cases "read_u64 buf pos") (auto split: if_split_asm)
  from read_u64_bounds [OF this] show "pos \<le> p" "p \<le> length buf" .
qed

lemma read_count_bounds:
  assumes "read_count buf pos = Some (n, p)"
  shows "n \<le> max_decode_items" "pos \<le> p" "p \<le> length buf"
proof -
  from assms obtain m q where "read_len buf pos = Some (m, q)"
    unfolding read_count_def by (cases "read_len buf pos") auto
  with assms have r: "read_len buf pos = Some (n, p)" "n \<le> max_decode_items"
    unfolding read_count_def by (simp_all split: if_split_asm)
  from r(2) read_len_bounds [OF r(1)] show "n \<le> max_decode_items" "pos \<le> p" "p \<le> length buf" .
qed

lemma scalar_bounds:
  "in_bounds decode_unit" "in_bounds decode_bool" "in_bounds (decode_int :: 'w::len word decode)" "in_bounds (decode_array n)"
  unfolding in_bounds_def decode_unit_def decode_bool_def decode_int_def decode_array_def
  by (auto dest: take_bytes_bounds)

lemma string_bounds: "in_bounds decode_string"
  unfolding in_bounds_def
proof (intro allI impI)
  fix buf x and pos p :: nat
  assume "decode_string buf pos = Some (x, p)"
  then obtain len q where q: "read_len buf pos = Some (len, q)" "take_bytes buf q len = Some (x, p)"
    by (auto simp: decode_string_def split: option.split_asm if_split_asm)
  from read_len_bounds(1) [OF q(1)] take_bytes_bounds [OF q(2)] show "pos \<le> p \<and> p \<le> length buf" by simp
qed

lemma decode_items_bounds:
  assumes D: "in_bounds D"
  shows "decode_items D n buf pos = Some (xs, p) \<Longrightarrow> pos \<le> length buf \<Longrightarrow>
    length xs = n \<and> pos \<le> p \<and> p \<le> length buf"
proof (induction n arbitrary: pos xs)
  case (Suc n)
  then obtain v q ys where v: "D buf pos = Some (v, q)" and ys: "decode_items D n buf q = Some (ys, p)" "xs = v # ys"
    by (auto split: option.split_asm)
  from in_boundsD [OF D Suc.prems(2) v] Suc.IH [OF ys(1)] ys(2) show ?case by auto
qed simp

lemma decode_set_items_bounds:
  assumes D: "in_bounds D"
  shows "decode_set_items D n s buf pos = Some (xs, p) \<Longrightarrow> pos \<le> length buf \<Longrightarrow> bs_wf s \<Longrightarrow>
    bs_wf xs \<and> length xs = length s + n \<and> pos \<le> p \<and> p \<le> length buf"
proof (induction n arbitrary: pos s)
  case (Suc n)
  then obtain v q where v: "D buf pos = Some (v, q)" "v \<notin> set s"
    and rest: "decode_set_items D n (bs_insert v s) buf q = Some (xs, p)"
    by (auto split: option.split_asm if_split_asm)
  have "length (bs_insert v s) = Suc (length s)" using v(2) by (simp add: bs_insert_def)
  with in_boundsD [OF D Suc.prems(2) v(1)] Suc.IH [OF rest] Suc.prems(3) show ?case by auto
qed simp

lemma decode_vec_bounds:
  assumes "in_bounds D" "decode_vec D buf pos = Some (xs, p)"
  shows "length xs \<le> max_decode_items" "pos \<le> p" "p \<le> length buf"
proof -
  from assms(2) obtain n q where n: "read_count buf pos = Some (n, q)" "decode_items D n buf q = Some (xs, p)"
    by (auto simp: decode_vec_def split: option.split_asm)
  from read_count_bounds [OF n(1)] decode_items_bounds [OF assms(1) n(2)]
  show "length xs \<le> max_decode_items" "pos \<le> p" "p \<le> length buf" by auto
qed

lemma decode_set_bounds:
  assumes "in_bounds D" "decode_set D buf pos = Some (xs, p)"
  shows "bs_wf xs" "length xs \<le> max_decode_items" "pos \<le> p" "p \<le> length buf"
proof -
  from assms(2) obtain n q where n: "read_count buf pos = Some (n, q)" "decode_set_items D n [] buf q = Some (xs, p)"
    by (auto simp: decode_set_def split: option.split_asm)
  from read_count_bounds [OF n(1)] decode_set_items_bounds [OF assms(1) n(2)]
  show "bs_wf xs" "length xs \<le> max_decode_items" "pos \<le> p" "p \<le> length buf" by auto
qed

lemma vec_bounds: "in_bounds D \<Longrightarrow> in_bounds (decode_vec D)"
  unfolding in_bounds_def [of "decode_vec D"] by (simp add: decode_vec_bounds)

lemma set_bounds: "in_bounds D \<Longrightarrow> in_bounds (decode_set D)"
  unfolding in_bounds_def [of "decode_set D"] by (simp add: decode_set_bounds)

lemma option_bounds:
  assumes D: "in_bounds D"
  shows "in_bounds (decode_option D)"
  unfolding in_bounds_def
proof (intro allI impI)
  fix buf x and pos p :: nat
  assume "decode_option D buf pos = Some (x, p)"
  then obtain b q where b: "take_bytes buf pos 1 = Some (b, q)" "p = q \<or> (\<exists>v. D buf q = Some (v, p))"
    by (auto simp: decode_option_def split: option.split_asm if_split_asm)
  from take_bytes_bounds [OF b(1)] b(2) in_boundsD [OF D, of q buf _ p]
  show "pos \<le> p \<and> p \<le> length buf" by auto
qed

lemma tuple2_bounds:
  assumes A: "in_bounds DA" and B: "in_bounds DB"
  shows "in_bounds (decode_tuple2 DA DB)"
  unfolding in_bounds_def
proof (intro allI impI)
  fix buf x and pos p :: nat
  assume pos: "pos \<le> length buf" and "decode_tuple2 DA DB buf pos = Some (x, p)"
  then obtain a q b where q: "DA buf pos = Some (a, q)" "DB buf q = Some (b, p)"
    by (auto simp: decode_tuple2_def split: option.split_asm)
  from in_boundsD [OF A pos q(1)] in_boundsD [OF B _ q(2)] show "pos \<le> p \<and> p \<le> length buf" by simp
qed

lemmas decoder_bounds = scalar_bounds string_bounds vec_bounds set_bounds option_bounds tuple2_bounds

end
