(* ===== verification/Merkle_Node.thy ===== *)
theory Merkle_Node
  imports Merkle_Encode
begin

text \<open>
  Content identifiers, DAG nodes and stores of \<open>support/merkle-crdt\<close>: \<open>hasher.rs\<close>,
  \<open>cid.rs\<close>, \<open>node.rs\<close>, \<open>store.rs\<close>. The hash function is code outside the
  repository: it is a field of the hasher record, of which nothing is assumed. A content
  identifier is a value of the hasher's output type, ordered as its bytes are. The children of a
  node, a \<open>BTreeSet\<close>, are its ascending list. The trait \<open>Store\<close> is a record of
  operations; \<open>dag_store\<close> is its contract against the finite map a store holds, and the
  in-memory store and the failing store of the crate's tests are its interpretations.
\<close>

section \<open>Hashers\<close>

record 'c hasher =
  hash_fn :: "byte list \<Rightarrow> 'c"
  out_bytes :: "'c encode"
  out_decode :: "'c decode"
  out_size :: nat

text \<open>A digest type: \<open>AsRef<[u8]>\<close> has a fixed length and \<open>Decode\<close> reads it back.\<close>

locale digest =
  fixes H :: "'c::linorder hasher"
  assumes out_length: "length (out_bytes H c) = out_size H" and out_positive: "0 < out_size H"
    and out_codec: "codec (out_bytes H) (out_decode H) (\<lambda>_. True)"

text \<open>The digest \<open>[u8; 32]\<close>: 256 bits, the first byte the most significant, so that the order
  of the numbers is the lexicographic order of the arrays.\<close>

definition digest32_bytes :: "256 word encode" where
  "digest32_bytes w = rev (to_le_bytes 32 (unat w))"

definition digest32_decode :: "256 word decode" where
  "digest32_decode buf pos = map_option (\<lambda>(b, p). (of_nat (from_le_bytes (rev b)), p)) (decode_array 32 buf pos)"

definition digest32 :: "(byte list \<Rightarrow> 256 word) \<Rightarrow> 256 word hasher" where
  "digest32 h = \<lparr>hash_fn = h, out_bytes = digest32_bytes, out_decode = digest32_decode, out_size = 32\<rparr>"

lemma from_digest32: "from_le_bytes (rev (digest32_bytes w)) = unat w"
proof -
  have "unat w < 256 ^ 32" using unsigned_less [of w] by simp
  then show ?thesis by (simp add: digest32_bytes_def from_to_le_bytes del: to_le_bytes.simps)
qed

lemma length_digest32 [simp]: "length (digest32_bytes w) = 32"
  by (simp add: digest32_bytes_def del: to_le_bytes.simps)

lemma digest32_codec: "codec digest32_bytes digest32_decode (\<lambda>_. True)"
proof
  fix x :: "256 word" and pre rest :: "byte list"
  assume "length pre + length (digest32_bytes x) \<le> usize_max"
  then have "take_bytes (pre @ digest32_bytes x @ rest) (length pre) 32 =
      Some (digest32_bytes x, length pre + length (digest32_bytes x))"
    by (intro take_bytes_at) simp_all
  then show "digest32_decode (pre @ digest32_bytes x @ rest) (length pre) =
      Some (x, length pre + length (digest32_bytes x))"
    by (simp add: digest32_decode_def decode_array_def from_digest32)
qed

interpretation d32: digest "digest32 h" for h
  by (rule digest.intro) (simp_all add: digest32_def digest32_codec)

section \<open>Nodes\<close>

record ('c, 'p) dag_node =
  payload :: 'p
  children :: "'c list"

definition node_leaf :: "'p \<Rightarrow> ('c, 'p) dag_node" where
  "node_leaf p = \<lparr>payload = p, children = []\<rparr>"

definition node_to_bytes :: "'c hasher \<Rightarrow> 'p encode \<Rightarrow> ('c, 'p) dag_node \<Rightarrow> byte list" where
  "node_to_bytes H E n =
     (let payload_bytes = E (payload n)
      in to_le_bytes 8 (length payload_bytes) @ payload_bytes @
         to_le_bytes 8 (length (children n)) @ concat (map (out_bytes H) (children n)))"

definition node_cid :: "'c hasher \<Rightarrow> 'p encode \<Rightarrow> ('c, 'p) dag_node \<Rightarrow> 'c" where
  "node_cid H E n = hash_fn H (node_to_bytes H E n)"

fun decode_children :: "'c::linorder hasher \<Rightarrow> nat \<Rightarrow> byte list \<Rightarrow> nat \<Rightarrow> 'c list \<Rightarrow> ('c list \<times> nat) option" where
  "decode_children H 0 bytes pos cs = Some (cs, pos)"
| "decode_children H (Suc n) bytes pos cs =
     (if pos + out_size H > length bytes then None
      else case out_decode H bytes pos of None \<Rightarrow> None
      | Some (c, p) \<Rightarrow> decode_children H n bytes p (bs_insert c cs))"

definition node_from_bytes :: "'c::linorder hasher \<Rightarrow> 'p decode \<Rightarrow> byte list \<Rightarrow> ('c, 'p) dag_node option" where
  "node_from_bytes H D bytes =
     (if length bytes < 8 then None
      else
        let payload_len = from_le_bytes (take 8 bytes);
            payload_end = 8 + payload_len
        in if payload_end > usize_max \<or> payload_end > length bytes then None
           else
             let payload_bytes = take payload_len (drop 8 bytes)
             in case D payload_bytes 0 of None \<Rightarrow> None
                | Some (p, payload_pos) \<Rightarrow>
                    if payload_pos \<noteq> length payload_bytes then None
                    else if payload_end + 8 > length bytes then None
                    else
                      let count = from_le_bytes (take 8 (drop payload_end bytes))
                      in case decode_children H count bytes (payload_end + 8) [] of None \<Rightarrow> None
                         | Some (cs, pos) \<Rightarrow>
                             if pos \<noteq> length bytes \<or> length cs \<noteq> count then None
                             else Some \<lparr>payload = p, children = cs\<rparr>)"

text \<open>What a Rust value of the node type always satisfies.\<close>

definition node_ok :: "('p \<Rightarrow> bool) \<Rightarrow> ('c::linorder, 'p) dag_node \<Rightarrow> bool" where
  "node_ok ok n \<longleftrightarrow> ok (payload n) \<and> bs_wf (children n)"

context digest
begin

lemma decode_children_encode:
  assumes "distinct cs" "set cs \<inter> set s = {}"
    and "length pre + length (concat (map (out_bytes H) cs)) \<le> usize_max"
  shows "decode_children H (length cs) (pre @ concat (map (out_bytes H) cs) @ rest) (length pre) s =
           Some (bs_extend cs s, length pre + length (concat (map (out_bytes H) cs)))"
  using assms
proof (induction cs arbitrary: pre s)
  case (Cons c cs)
  let ?bytes = "pre @ out_bytes H c @ concat (map (out_bytes H) cs) @ rest"
  have "out_decode H ?bytes (length pre) = Some (c, length pre + length (out_bytes H c))"
    using Cons.prems by (intro codec.decode_encode [OF out_codec]) simp_all
  moreover have "decode_children H (length cs) ((pre @ out_bytes H c) @ concat (map (out_bytes H) cs) @ rest)
      (length (pre @ out_bytes H c)) (bs_insert c s) =
      Some (bs_extend cs (bs_insert c s), length (pre @ out_bytes H c) + length (concat (map (out_bytes H) cs)))"
    using Cons.prems by (intro Cons.IH) auto
  ultimately show ?case by (simp add: out_length)
qed simp

lemma length_out_bytes: "length (concat (map (out_bytes H) cs)) = out_size H * length cs"
  by (induction cs) (simp_all add: out_length)

lemma node_from_to_bytes:
  assumes cd: "codec E D ok" and n: "node_ok ok n" and len: "length (node_to_bytes H E n) \<le> usize_max"
  shows "node_from_bytes H D (node_to_bytes H E n) = Some n"
proof -
  define pb where "pb = E (payload n)"
  define cb where "cb = concat (map (out_bytes H) (children n))"
  define pre where "pre = to_le_bytes 8 (length pb) @ pb @ to_le_bytes 8 (length (children n))"
  define bytes where "bytes = node_to_bytes H E n"
  have bytes: "bytes = to_le_bytes 8 (length pb) @ pb @ to_le_bytes 8 (length (children n)) @ cb"
    by (simp add: bytes_def node_to_bytes_def pb_def cb_def Let_def)
  then have split: "bytes = pre @ cb @ []" by (simp add: pre_def)
  have small: "16 + length pb + length cb \<le> usize_max" using len bytes by (simp add: bytes_def)
  have "length cb = out_size H * length (children n)" unfolding cb_def by (rule length_out_bytes)
  then have "length (children n) \<le> length cb" using out_positive by simp
  then have cnt: "from_le_bytes (to_le_bytes 8 (length (children n))) = length (children n)"
    using small by (intro from_to_le_bytes) simp
  have plen: "from_le_bytes (to_le_bytes 8 (length pb)) = length pb"
    using small by (intro from_to_le_bytes) simp
  have wf: "bs_wf (children n)" and ok: "ok (payload n)" using n by (auto simp: node_ok_def)
  have D: "D pb 0 = Some (payload n, length pb)"
    using codec.decode_encode [OF cd ok, of "[]" "[]"] small by (simp add: pb_def)
  have "decode_children H (length (children n)) (pre @ cb @ []) (length pre) [] =
      Some (bs_extend (children n) [], length pre + length cb)"
    unfolding cb_def using small by (intro decode_children_encode) (simp_all add: wf bs_wf_distinct pre_def cb_def)
  then have kids: "decode_children H (length (children n)) bytes (16 + length pb) [] =
      Some (children n, length bytes)"
    unfolding split [symmetric] by (simp add: wf bs_extend_sorted bytes pre_def add.commute)
  show ?thesis
    unfolding bytes_def [symmetric] node_from_bytes_def
    using small D plen cnt kids by (simp add: bytes Let_def add.commute del: to_le_bytes.simps)
qed

end

lemma decode_children_wf:
  "decode_children H n bytes pos cs = Some (cs', p) \<Longrightarrow> bs_wf cs \<Longrightarrow> bs_wf cs'"
  by (induction n arbitrary: pos cs) (auto split: if_split_asm option.split_asm)

lemma node_from_bytes_shape:
  assumes "node_from_bytes H D b = Some n"
  shows "bs_wf (children n) \<and> 16 + from_le_bytes (take 8 b) \<le> length b \<and>
    decode_all D (take (from_le_bytes (take 8 b)) (drop 8 b)) = Some (payload n) \<and>
    length (children n) = from_le_bytes (take 8 (drop (8 + from_le_bytes (take 8 b)) b))"
  using assms unfolding node_from_bytes_def decode_all_def Let_def
  by (auto split: if_split_asm option.split_asm) (rule decode_children_wf [OF _ bs_wf_Nil])

section \<open>Stores\<close>

record ('c, 'p, 's, 'e) store_ops =
  sto_get :: "'s \<Rightarrow> 'c \<Rightarrow> 'e + ('c, 'p) dag_node option"
  sto_put :: "'s \<Rightarrow> 'c \<Rightarrow> ('c, 'p) dag_node \<Rightarrow> ('e + unit) \<times> 's"
  sto_put_batch :: "'s \<Rightarrow> ('c \<times> ('c, 'p) dag_node) list \<Rightarrow> ('e + unit) \<times> 's"
  sto_contains :: "'s \<Rightarrow> 'c \<Rightarrow> 'e + bool"

text \<open>The trait's default \<open>put_batch\<close>: one \<open>put\<close> after the other, stopping at the first
  that fails.\<close>

fun put_batch_default ::
  "('s \<Rightarrow> 'c \<Rightarrow> ('c, 'p) dag_node \<Rightarrow> ('e + unit) \<times> 's) \<Rightarrow> 's \<Rightarrow> ('c \<times> ('c, 'p) dag_node) list \<Rightarrow> ('e + unit) \<times> 's" where
  "put_batch_default put s [] = (Inr (), s)"
| "put_batch_default put s ((c, n) # ns) =
     (case put s c n of (Inl e, s') \<Rightarrow> (Inl e, s') | (Inr _, s') \<Rightarrow> put_batch_default put s' ns)"

type_synonym ('c, 'p) mem_store = "('c, ('c, 'p) dag_node) btree"

definition mem_store_put ::
  "('c::linorder, 'p) mem_store \<Rightarrow> 'c \<Rightarrow> ('c, 'p) dag_node \<Rightarrow> ('e + unit) \<times> ('c, 'p) mem_store" where
  "mem_store_put s c n = (Inr (), bt_insert c n s)"

definition mem_store_ops :: "('c::linorder, 'p, ('c, 'p) mem_store, 'e) store_ops" where
  "mem_store_ops = \<lparr>sto_get = (\<lambda>s c. Inr (bt_get s c)), sto_put = mem_store_put,
     sto_put_batch = put_batch_default mem_store_put,
     sto_contains = (\<lambda>s c. Inr (bt_get s c \<noteq> None))\<rparr>"

text \<open>The failing store of the crate's tests: a budget of writes, then an error.\<close>

record ('c, 'p) fail_store =
  fl_inner :: "('c, 'p) mem_store"
  writes_before_failure :: "nat option"

datatype injected_error = InjectedWrite

definition fail_store_put ::
  "('c::linorder, 'p) fail_store \<Rightarrow> 'c \<Rightarrow> ('c, 'p) dag_node \<Rightarrow> (injected_error + unit) \<times> ('c, 'p) fail_store" where
  "fail_store_put s c n =
     (case writes_before_failure s of
        None \<Rightarrow> (Inr (), s\<lparr>fl_inner := bt_insert c n (fl_inner s)\<rparr>)
      | Some 0 \<Rightarrow> (Inl InjectedWrite, s)
      | Some (Suc k) \<Rightarrow> (Inr (), s\<lparr>fl_inner := bt_insert c n (fl_inner s), writes_before_failure := Some k\<rparr>))"

definition fail_store_ops :: "('c::linorder, 'p, ('c, 'p) fail_store, injected_error) store_ops" where
  "fail_store_ops = \<lparr>sto_get = (\<lambda>s c. Inr (bt_get (fl_inner s) c)), sto_put = fail_store_put,
     sto_put_batch = put_batch_default fail_store_put,
     sto_contains = (\<lambda>s c. Inr (bt_get (fl_inner s) c \<noteq> None))\<rparr>"

text \<open>The contract: a successful read tells what the finite map holds, a write that fails may or may
  not have taken effect, a batch that fails has stored a prefix.\<close>

locale dag_store =
  fixes S :: "('c::linorder, 'p, 's, 'e) store_ops" and view :: "'s \<Rightarrow> 'c \<Rightarrow> ('c, 'p) dag_node option"
  assumes finite_view: "finite (dom (view s))"
    and get: "sto_get S s c = Inr found \<Longrightarrow> found = view s c"
    and contains: "sto_contains S s c = Inr b \<Longrightarrow> b \<longleftrightarrow> view s c \<noteq> None"
    and put_ok: "sto_put S s c n = (Inr (), s') \<Longrightarrow> view s' = (view s)(c \<mapsto> n)"
    and put_err: "sto_put S s c n = (Inl e, s') \<Longrightarrow> view s' = view s \<or> view s' = (view s)(c \<mapsto> n)"
    and batch: "sto_put_batch S s ns = (r, s') \<Longrightarrow>
      \<exists>k \<le> length ns. view s' = view s ++ map_of (rev (take k ns)) \<and> (r = Inr () \<longrightarrow> k = length ns)"

text \<open>The errors a store can report at all.\<close>

definition store_raises :: "('c, 'p, 's, 'e) store_ops \<Rightarrow> 'e \<Rightarrow> bool" where
  "store_raises S e \<longleftrightarrow> (\<exists>s c. sto_get S s c = Inl e) \<or> (\<exists>s c. sto_contains S s c = Inl e) \<or>
     (\<exists>s c n. fst (sto_put S s c n) = Inl e) \<or> (\<exists>s ns. fst (sto_put_batch S s ns) = Inl e)"

lemma store_raisesI:
  "sto_get S s c = Inl e \<Longrightarrow> store_raises S e" "sto_contains S s c = Inl e \<Longrightarrow> store_raises S e"
  "sto_put S s c n = (Inl e, s') \<Longrightarrow> store_raises S e" "sto_put_batch S s ns = (Inl e, s') \<Longrightarrow> store_raises S e"
  unfolding store_raises_def by (blast, blast, metis fst_conv, metis fst_conv)

lemma put_batch_default_prefix:
  assumes put_ok: "\<And>s c n s'. put s c n = (Inr (), s') \<Longrightarrow> view s' = (view s)(c \<mapsto> n)"
    and put_err: "\<And>s c n e s'. put s c n = (Inl e, s') \<Longrightarrow> view s' = view s \<or> view s' = (view s)(c \<mapsto> n)"
    and "put_batch_default put s ns = (r, s')"
  shows "\<exists>k \<le> length ns. view s' = view s ++ map_of (rev (take k ns)) \<and> (r = Inr () \<longrightarrow> k = length ns)"
  using assms(3)
proof (induction ns arbitrary: s)
  case (Cons cn ns)
  obtain c n where cn: "cn = (c, n)" by (cases cn)
  show ?case
  proof (cases "put s c n")
    case (Pair r1 s1)
    show ?thesis
    proof (cases r1)
      case (Inl e)
      with Pair Cons.prems cn have put: "put s c n = (Inl e, s')" and "r \<noteq> Inr ()" by auto
      with put_err [OF put] show ?thesis
      proof (elim disjE)
        assume "view s' = view s" and "r \<noteq> Inr ()"
        then show ?thesis by (intro exI [of _ 0]) simp
      next
        assume "view s' = (view s)(c \<mapsto> n)" and "r \<noteq> Inr ()"
        then show ?thesis by (intro exI [of _ 1]) (auto simp: cn map_add_def)
      qed
    next
      case (Inr u)
      with Pair Cons.prems cn Cons.IH obtain k where k: "k \<le> length ns"
        "view s' = view s1 ++ map_of (rev (take k ns))" "r = Inr () \<longrightarrow> k = length ns" by auto
      moreover have "view s1 = (view s)(c \<mapsto> n)" using Pair Inr by (intro put_ok) simp
      ultimately show ?thesis
        by (intro exI [of _ "Suc k"]) (auto simp: cn map_add_def fun_eq_iff split: option.splits)
    qed
  qed
qed simp

lemma finite_dom_bt_get [simp]: "finite (dom (bt_get m))"
  by (simp add: bt_get_def [abs_def] finite_dom_map_of)

lemma bt_get_insert_map [simp]: "bt_get (bt_insert k v m) = (bt_get m)(k \<mapsto> v)"
  by (simp add: fun_eq_iff)

lemma mem_store_batch:
  "put_batch_default mem_store_put s ns = (r, s') \<Longrightarrow>
     \<exists>k \<le> length ns. bt_get s' = bt_get s ++ map_of (rev (take k ns)) \<and> (r = Inr () \<longrightarrow> k = length ns)"
  by (rule put_batch_default_prefix [where put = mem_store_put]) (auto simp: mem_store_put_def)

lemma fail_store_batch:
  "put_batch_default fail_store_put s ns = (r, s') \<Longrightarrow>
     \<exists>k \<le> length ns. bt_get (fl_inner s') = bt_get (fl_inner s) ++ map_of (rev (take k ns)) \<and>
       (r = Inr () \<longrightarrow> k = length ns)"
  by (rule put_batch_default_prefix [where put = fail_store_put and view = "\<lambda>s. bt_get (fl_inner s)"])
     (auto simp: fail_store_put_def split: option.splits nat.splits)

lemma mem_put_batch_ok: "fst (put_batch_default mem_store_put s ns) = Inr ()"
  by (induction ns arbitrary: s) (auto simp: mem_store_put_def)

lemma mem_store_never_fails: "\<not> store_raises mem_store_ops e"
  by (simp add: store_raises_def mem_store_ops_def mem_put_batch_ok) (simp add: mem_store_put_def)

interpretation mem_dag: dag_store mem_store_ops bt_get
  by unfold_locales (auto simp: mem_store_ops_def mem_store_put_def dest: mem_store_batch)

interpretation fail_dag: dag_store fail_store_ops "\<lambda>s. bt_get (fl_inner s)"
  by unfold_locales (auto simp: fail_store_ops_def fail_store_put_def split: option.splits nat.splits
      dest: fail_store_batch)

end
