(* ===== verification/Merkle_Graph.thy ===== *)
theory Merkle_Graph
  imports Merkle_Node
begin

text \<open>
  Ancestry in a DAG of nodes, and what every traversal of the crate shares. A traversal keeps a
  set of visited identifiers and a worklist, a stack or a queue; it skips what is visited and
  otherwise visits the node and adds its children. \<open>search_inv\<close> is the invariant of such a
  traversal, with one rule per kind of step, and \<open>search_measure\<close> shows that it ends. The
  loops of \<open>compact_roots\<close>, \<open>walk\<close>, \<open>materialize\<close>, \<open>ancestry_is_valid\<close>
  and \<open>fetch_missing\<close> are instances.
\<close>

section \<open>Ancestry\<close>

type_synonym ('c, 'p) dag = "'c \<Rightarrow> ('c, 'p) dag_node option"

definition kids :: "('c, 'p) dag \<Rightarrow> 'c \<Rightarrow> 'c set" where
  "kids V c = (case V c of None \<Rightarrow> {} | Some n \<Rightarrow> set (children n))"

definition edges :: "('c, 'p) dag \<Rightarrow> ('c \<times> 'c) set" where
  "edges V = {(c, d). d \<in> kids V c}"

definition ancestry :: "('c, 'p) dag \<Rightarrow> 'c set \<Rightarrow> 'c set" where
  "ancestry V R = (edges V)\<^sup>* `` R"

text \<open>Every node is found under its own identifier, with its children present, and no node is
  its own ancestor.\<close>

definition dag_ok :: "'c::linorder hasher \<Rightarrow> 'p encode \<Rightarrow> ('c, 'p) dag \<Rightarrow> bool" where
  "dag_ok H E V \<longleftrightarrow> finite (dom V) \<and> acyclic (edges V) \<and>
     (\<forall>c n. V c = Some n \<longrightarrow> node_cid H E n = c \<and> set (children n) \<subseteq> dom V \<and> bs_wf (children n))"

lemma ancestry_refl: "R \<subseteq> ancestry V R"
  by (auto simp: ancestry_def)

lemma ancestry_step: "c \<in> ancestry V R \<Longrightarrow> d \<in> kids V c \<Longrightarrow> d \<in> ancestry V R"
  by (auto simp: ancestry_def edges_def intro: rtrancl.rtrancl_into_rtrancl)

lemma ancestry_least:
  assumes "R \<subseteq> X" and "\<And>c d. c \<in> X \<Longrightarrow> d \<in> kids V c \<Longrightarrow> d \<in> X"
  shows "ancestry V R \<subseteq> X"
proof
  fix c assume "c \<in> ancestry V R"
  then obtain r where r: "r \<in> R" "(r, c) \<in> (edges V)\<^sup>*" by (auto simp: ancestry_def)
  from r(2,1) assms(1) show "c \<in> X"
    by induction (use assms(2) in \<open>auto simp: edges_def\<close>)
qed

lemma ancestry_mono: "R \<subseteq> R' \<Longrightarrow> ancestry V R \<subseteq> ancestry V R'"
  by (auto simp: ancestry_def)

lemma ancestry_Un: "ancestry V (R \<union> R') = ancestry V R \<union> ancestry V R'"
  by (auto simp: ancestry_def)

lemma ancestry_idem: "R' \<subseteq> ancestry V R \<Longrightarrow> ancestry V R' \<subseteq> ancestry V R"
  by (rule ancestry_least) (auto intro: ancestry_step)

lemma ancestry_empty [simp]: "ancestry V {} = {}"
  by (simp add: ancestry_def)

lemma dag_ok_kids: "dag_ok H E V \<Longrightarrow> kids V c \<subseteq> dom V"
  by (auto simp: dag_ok_def kids_def split: option.splits)

lemma dag_ok_finite: "dag_ok H E V \<Longrightarrow> finite (dom V)"
  by (simp add: dag_ok_def)

lemma dag_ok_acyclic: "dag_ok H E V \<Longrightarrow> acyclic (edges V)"
  by (simp add: dag_ok_def)

lemma dag_ok_node:
  assumes "dag_ok H E V" and "V c = Some n"
  shows "node_cid H E n = c" "set (children n) \<subseteq> dom V" "bs_wf (children n)"
  using assms by (auto simp: dag_ok_def)

lemma ancestry_dom: "dag_ok H E V \<Longrightarrow> R \<subseteq> dom V \<Longrightarrow> ancestry V R \<subseteq> dom V"
  by (rule ancestry_least) (auto dest: dag_ok_kids)

lemma finite_kids [simp]: "finite (kids V c)"
  by (simp add: kids_def split: option.split)

lemma finite_ancestry:
  assumes "finite (dom V)" and "finite R"
  shows "finite (ancestry V R)"
proof (rule finite_subset)
  show "ancestry V R \<subseteq> R \<union> (\<Union>c \<in> dom V. kids V c)"
    by (rule ancestry_least) (auto simp: kids_def split: option.splits)
qed (use assms in simp)

text \<open>Two stores with the same nodes in common see the same ancestry from roots both hold.\<close>

lemma ancestry_submap:
  assumes "V \<subseteq>\<^sub>m W" and "dag_ok H E V" and "R \<subseteq> dom V"
  shows "ancestry W R = ancestry V R"
proof -
  have same: "kids W c = kids V c" if "c \<in> dom V" for c
    using that assms(1) by (auto simp: kids_def map_le_def split: option.splits)
  have dom: "ancestry V R \<subseteq> dom V" by (rule ancestry_dom [OF assms(2,3)])
  have "ancestry W R \<subseteq> ancestry V R"
    by (rule ancestry_least [OF ancestry_refl]) (use dom same in \<open>auto intro: ancestry_step\<close>)
  moreover have "ancestry V R \<subseteq> ancestry W R \<inter> dom V"
  proof (rule ancestry_least)
    show "R \<subseteq> ancestry W R \<inter> dom V" using assms(3) ancestry_refl [of R W] by blast
    fix c d assume c: "c \<in> ancestry W R \<inter> dom V" and d: "d \<in> kids V c"
    then have "d \<in> kids W c" using same by blast
    then have "d \<in> ancestry W R" using c by (auto dest: ancestry_step [of c])
    moreover have "d \<in> dom V" using d dag_ok_kids [OF assms(2), of c] by (rule rev_subsetD)
    ultimately show "d \<in> ancestry W R \<inter> dom V" by simp
  qed
  ultimately show ?thesis by auto
qed

text \<open>Adding a verified node whose children are present.\<close>

lemma edges_insert:
  assumes "V c = None"
  shows "edges (V(c \<mapsto> n)) = edges V \<union> {c} \<times> set (children n)"
  using assms by (auto simp: edges_def kids_def split: if_splits)

lemma edges_in_dom: "dag_ok H E V \<Longrightarrow> (a, b) \<in> edges V \<Longrightarrow> a \<in> dom V \<and> b \<in> dom V"
  using dag_ok_kids [of H E V a] by (auto simp: edges_def kids_def split: option.splits)

lemma dag_ok_insert:
  assumes ok: "dag_ok H E V" and "V c = None" "node_cid H E n = c" "bs_wf (children n)" "set (children n) \<subseteq> dom V"
  shows "dag_ok H E (V(c \<mapsto> n))"
proof -
  have fresh: "(a, c) \<notin> edges (V(c \<mapsto> n))" for a
    using assms edges_in_dom [OF ok, of a c] by (auto simp: edges_insert)
  have "acyclic (edges (V(c \<mapsto> n)))"
    unfolding acyclic_def
  proof (intro allI notI)
    fix x assume x: "(x, x) \<in> (edges (V(c \<mapsto> n)))\<^sup>+"
    have "y \<noteq> c \<longrightarrow> (x, y) \<in> (edges V)\<^sup>+" if "(x, y) \<in> (edges (V(c \<mapsto> n)))\<^sup>+" "x \<noteq> c" for y
      using that
    proof (induction rule: trancl_induct)
      case (base y)
      then show ?case using assms(2) by (auto simp: edges_insert)
    next
      case (step y z)
      have "y \<noteq> c" using step.hyps(1) fresh by (metis tranclD2)
      then have "(y, z) \<in> edges V" using step.hyps(2) assms(2) by (auto simp: edges_insert)
      with step \<open>y \<noteq> c\<close> show ?case by auto
    qed
    moreover have "x \<noteq> c" using x fresh by (metis tranclD2)
    ultimately have "(x, x) \<in> (edges V)\<^sup>+" using x by blast
    with dag_ok_acyclic [OF ok] show False by (auto simp: acyclic_def)
  qed
  with assms show ?thesis by (fastforce simp: dag_ok_def)
qed

section \<open>Traversals\<close>

definition search_inv :: "('c, 'p) dag \<Rightarrow> 'c set \<Rightarrow> 'c set \<Rightarrow> 'c set \<Rightarrow> bool" where
  "search_inv V R visited todo \<longleftrightarrow>
     visited \<union> todo \<subseteq> ancestry V R \<and> R \<subseteq> visited \<union> todo \<and> (\<forall>v \<in> visited. kids V v \<subseteq> visited \<union> todo)"

lemma search_start: "search_inv V R {} R"
  by (simp add: search_inv_def ancestry_refl)

lemma search_skip:
  assumes "search_inv V R visited todo" and "c \<in> visited" and "todo \<subseteq> insert c todo'" and "todo' \<subseteq> todo"
  shows "search_inv V R visited todo'"
  using assms unfolding search_inv_def by blast

lemma search_visit:
  assumes "search_inv V R visited todo" and "c \<in> todo" and "todo \<subseteq> insert c rest" and "rest \<subseteq> todo"
    and "kids V c \<subseteq> insert c visited \<union> todo'" and "rest \<subseteq> todo'" and "todo' \<subseteq> rest \<union> kids V c"
  shows "search_inv V R (insert c visited) todo'"
proof -
  have c: "c \<in> ancestry V R" using assms(1,2) by (auto simp: search_inv_def)
  then have "kids V c \<subseteq> ancestry V R" by (auto intro: ancestry_step)
  with assms c show ?thesis unfolding search_inv_def by blast
qed

lemma search_done: "search_inv V R visited {} \<Longrightarrow> visited = ancestry V R"
  using ancestry_least [of R visited V] by (auto simp: search_inv_def)

text \<open>A skipped entry shortens the worklist; a visited one shrinks what is left to visit.\<close>

definition search_measure :: "'c set \<Rightarrow> ('c list \<times> 'c list) \<Rightarrow> nat \<times> nat" where
  "search_measure A vt = (card (A - set (fst vt)), length (snd vt))"

definition search_rel :: "'c set \<Rightarrow> (('c list \<times> 'c list) \<times> ('c list \<times> 'c list)) set" where
  "search_rel A = inv_image (less_than <*lex*> less_than) (search_measure A)"

lemma wf_search_rel: "wf (search_rel A)"
  by (auto simp: search_rel_def)

lemma search_rel_skip: "length todo' < length todo \<Longrightarrow> ((visited, todo'), (visited, todo)) \<in> search_rel A"
  by (simp add: search_rel_def search_measure_def)

lemma search_rel_visit:
  assumes "finite A" "c \<in> A" "c \<notin> set visited" "set visited' = insert c (set visited)"
  shows "((visited', todo'), (visited, todo)) \<in> search_rel A"
proof -
  have "A - set visited' \<subset> A - set visited" using assms by auto
  then show ?thesis
    using assms(1) by (simp add: search_rel_def search_measure_def psubset_card_mono)
qed

text \<open>Induction over a traversal: \<open>I\<close> is the loop's own invariant on the nodes visited and its
  accumulator, \<open>Q\<close> what is shown of the loop.\<close>

lemma search_induct [consumes 3, case_names finish skip visit]:
  assumes fin: "finite (ancestry V R)" and start: "search_inv V R (set visited) (set stack)" and I: "I visited acc"
    and finish: "\<And>visited acc. set visited = ancestry V R \<Longrightarrow> I visited acc \<Longrightarrow> Q [] visited acc"
    and skip: "\<And>c rest visited acc. c \<in> set visited \<Longrightarrow> Q rest visited acc \<Longrightarrow> Q (c # rest) visited acc"
    and visit: "\<And>c rest visited acc. c \<in> ancestry V R \<Longrightarrow> c \<notin> set visited \<Longrightarrow> I visited acc \<Longrightarrow>
      (\<And>stack' acc'. set rest \<union> (kids V c - insert c (set visited)) \<subseteq> set stack' \<Longrightarrow> set stack' \<subseteq> set rest \<union> kids V c \<Longrightarrow>
         I (bs_insert c visited) acc' \<Longrightarrow> Q stack' (bs_insert c visited) acc') \<Longrightarrow> Q (c # rest) visited acc"
  shows "Q stack visited acc"
  using start I
proof (induction "(visited, stack)" arbitrary: visited stack acc rule: wf_induct_rule [OF wf_search_rel [of "ancestry V R"]])
  case (1 visited stack acc)
  show ?case
  proof (cases stack)
    case Nil
    with "1.prems"(1) have "set visited = ancestry V R" by (intro search_done) simp
    with Nil "1.prems"(2) show ?thesis by (simp add: finish)
  next
    case (Cons c rest)
    show ?thesis
    proof (cases "c \<in> set visited")
      case True
      have inv: "search_inv V R (set visited) (set rest)"
        by (rule search_skip [OF "1.prems"(1) True]) (use Cons in auto)
      have "Q rest visited acc"
        by (rule "1.hyps" [OF search_rel_skip inv "1.prems"(2)]) (use Cons in simp)
      with True Cons show ?thesis by (simp add: skip)
    next
      case False
      have c: "c \<in> ancestry V R" using "1.prems"(1) Cons by (simp add: search_inv_def)
      show ?thesis
        unfolding Cons
      proof (rule visit [OF c False "1.prems"(2)])
        fix stack' acc'
        assume a: "set rest \<union> (kids V c - insert c (set visited)) \<subseteq> set stack'" "set stack' \<subseteq> set rest \<union> kids V c"
          and I: "I (bs_insert c visited) acc'"
        have "search_inv V R (insert c (set visited)) (set stack')"
          by (rule search_visit [OF "1.prems"(1), where rest = "set rest"]) (use Cons a in auto)
        then have inv: "search_inv V R (set (bs_insert c visited)) (set stack')" by simp
        show "Q stack' (bs_insert c visited) acc'"
          by (rule "1.hyps" [OF search_rel_visit [OF fin c False] inv I]) simp
      qed
    qed
  qed
qed

end
