(* ===== verification/Merkle_Clock.thy ===== *)
theory Merkle_Clock
  imports Merkle_Graph
begin

text \<open>
  The Merkle clock of \<open>support/merkle-crdt/src/clock.rs\<close>. A clock is its set of root
  identifiers, an ascending list. The loops over the DAG are partial functions into options:
  \<open>None\<close> is a loop that does not return. Stacks are lists with their top first.
\<close>

section \<open>Operations\<close>

datatype 'e merkle_error = StoreError 'e | MissingNode | InvalidCid | InvalidAuthor

type_synonym 'c merkle_clock = "'c list"

definition clock_new :: "'c merkle_clock" where
  "clock_new = []"

text \<open>Fetching a node and recomputing its identifier, as every traversal does.\<close>

definition load_verified ::
  "'c hasher \<Rightarrow> 'p encode \<Rightarrow> ('c, 'p, 's, 'e) store_ops \<Rightarrow> 's \<Rightarrow> 'c \<Rightarrow> 'e merkle_error + ('c, 'p) dag_node" where
  "load_verified H E S s cid =
     (case sto_get S s cid of Inl e \<Rightarrow> Inl (StoreError e)
      | Inr None \<Rightarrow> Inl MissingNode
      | Inr (Some node) \<Rightarrow> if node_cid H E node \<noteq> cid then Inl InvalidCid else Inr node)"

definition record_event ::
  "'c::linorder hasher \<Rightarrow> 'p encode \<Rightarrow> ('c, 'p, 's, 'e) store_ops \<Rightarrow> 'c merkle_clock \<Rightarrow> 'p \<Rightarrow> 's
     \<Rightarrow> ('e merkle_error + 'c) \<times> 'c merkle_clock \<times> 's" where
  "record_event H E S roots p s =
     (let node = \<lparr>payload = p, children = roots\<rparr>;
          cid = node_cid H E node
      in case sto_put S s cid node of
           (Inl e, s') \<Rightarrow> (Inl (StoreError e), roots, s')
         | (Inr _, s') \<Rightarrow> (Inr cid, [cid], s'))"

definition add_roots :: "'c::linorder list \<Rightarrow> 'c merkle_clock \<Rightarrow> 'c merkle_clock" where
  "add_roots new roots = bs_extend new roots"

fun compact_children ::
  "'c::linorder list \<Rightarrow> nat \<Rightarrow> 'c list \<Rightarrow> 'c list \<Rightarrow> 'c list \<Rightarrow> 'c list \<Rightarrow> 'c list + ('c list \<times> 'c list)" where
  "compact_children candidates target visited [] stack subsumed = Inr (stack, subsumed)"
| "compact_children candidates target visited (child # cs) stack subsumed =
     (let found = (child \<in> set candidates \<and> child \<notin> set subsumed);
          subsumed' = (if found then bs_insert child subsumed else subsumed)
      in if found \<and> length subsumed' \<ge> target - 1 then Inl subsumed'
         else compact_children candidates target visited cs
                (if child \<in> set visited then stack else child # stack) subsumed')"

partial_function (option) compact_loop ::
  "'c::linorder hasher \<Rightarrow> 'p encode \<Rightarrow> ('c, 'p, 's, 'e) store_ops \<Rightarrow> 's \<Rightarrow> 'c list \<Rightarrow> 'c list \<Rightarrow> 'c list \<Rightarrow> 'c list
     \<Rightarrow> ('e merkle_error + 'c merkle_clock) option" where
  [code]: "compact_loop H E S s candidates stack visited subsumed =
     (case stack of
        [] \<Rightarrow> Some (Inr (filter (\<lambda>c. c \<notin> set subsumed) candidates))
      | cid # rest \<Rightarrow>
          if cid \<in> set visited then compact_loop H E S s candidates rest visited subsumed
          else case load_verified H E S s cid of
                 Inl e \<Rightarrow> Some (Inl e)
               | Inr node \<Rightarrow>
                   (case compact_children candidates (length candidates) (bs_insert cid visited)
                           (children node) rest subsumed of
                      Inl subsumed' \<Rightarrow> Some (Inr (filter (\<lambda>c. c \<notin> set subsumed') candidates))
                    | Inr (stack', subsumed') \<Rightarrow>
                        compact_loop H E S s candidates stack' (bs_insert cid visited) subsumed'))"

definition compact_roots ::
  "'c::linorder hasher \<Rightarrow> 'p encode \<Rightarrow> ('c, 'p, 's, 'e) store_ops \<Rightarrow> 's \<Rightarrow> 'c merkle_clock
     \<Rightarrow> ('e merkle_error + 'c merkle_clock) option" where
  "compact_roots H E S s roots =
     (if length roots \<le> 1 then Some (Inr roots)
      else compact_loop H E S s roots (rev roots) [] [])"

definition clock_merge ::
  "'c::linorder hasher \<Rightarrow> 'p encode \<Rightarrow> ('c, 'p, 's, 'e) store_ops \<Rightarrow> 's \<Rightarrow> 'c merkle_clock \<Rightarrow> 'c list
     \<Rightarrow> ('e merkle_error + 'c merkle_clock) option" where
  "clock_merge H E S s roots remote_roots = compact_roots H E S s (bs_extend remote_roots roots)"

text \<open>\<open>walk\<close> with the calls of its visitor as a list; the calls made before an error stand.\<close>

partial_function (option) walk_loop ::
  "'c::linorder hasher \<Rightarrow> 'p encode \<Rightarrow> ('c, 'p, 's, 'e) store_ops \<Rightarrow> 's \<Rightarrow> ('c \<times> ('c, 'p) dag_node option) list
     \<Rightarrow> 'c list \<Rightarrow> ('c \<times> ('c, 'p) dag_node) list
     \<Rightarrow> (('e merkle_error + unit) \<times> ('c \<times> ('c, 'p) dag_node) list) option" where
  [code]: "walk_loop H E S s stack visited calls =
     (case stack of
        [] \<Rightarrow> Some (Inr (), calls)
      | (cid, cached) # rest \<Rightarrow>
          (case cached of
             Some node \<Rightarrow> walk_loop H E S s rest visited (calls @ [(cid, node)])
           | None \<Rightarrow>
               if cid \<in> set visited then walk_loop H E S s rest visited calls
               else case load_verified H E S s cid of
                      Inl e \<Rightarrow> Some (Inl e, calls)
                    | Inr node \<Rightarrow>
                        walk_loop H E S s
                          (map (\<lambda>c. (c, None)) (filter (\<lambda>c. c \<notin> set (bs_insert cid visited)) (children node))
                             @ (cid, Some node) # rest)
                          (bs_insert cid visited) calls))"

definition walk ::
  "'c::linorder hasher \<Rightarrow> 'p encode \<Rightarrow> ('c, 'p, 's, 'e) store_ops \<Rightarrow> 's \<Rightarrow> 'c
     \<Rightarrow> (('e merkle_error + unit) \<times> ('c \<times> ('c, 'p) dag_node) list) option" where
  "walk H E S s root = walk_loop H E S s [(root, None)] [] []"

section \<open>Heads\<close>

text \<open>The roots no other root leads to.\<close>

definition heads :: "('c, 'p) dag \<Rightarrow> 'c set \<Rightarrow> 'c set" where
  "heads V R = {r \<in> R. \<forall>r' \<in> R. (r', r) \<notin> (edges V)\<^sup>+}"

lemma heads_subset: "heads V R \<subseteq> R"
  by (auto simp: heads_def)

lemma reaches_head:
  assumes "finite R" "acyclic (edges V)" "r \<in> R"
  shows "\<exists>h \<in> heads V R. (h, r) \<in> (edges V)\<^sup>*"
proof -
  let ?above = "{(y, x). x \<in> R \<and> y \<in> R \<and> (y, x) \<in> (edges V)\<^sup>+}"
  have "finite ?above" by (rule finite_subset [of _ "R \<times> R"]) (use assms(1) in auto)
  moreover have "acyclic ?above"
  proof -
    have "?above \<subseteq> (edges V)\<^sup>+" by auto
    then have "x \<in> (edges V)\<^sup>+" if "x \<in> ?above\<^sup>+" for x
      using trancl_mono [OF that, of "(edges V)\<^sup>+"] by (simp only: trancl_id [OF trans_trancl])
    with assms(2) show ?thesis unfolding acyclic_def by blast
  qed
  ultimately have "wf ?above" by (rule finite_acyclic_wf)
  then show ?thesis using assms(3)
  proof (induction r rule: wf_induct_rule)
    case (less r)
    show ?case
    proof (cases "r \<in> heads V R")
      case False
      with less.prems obtain r' where r': "r' \<in> R" "(r', r) \<in> (edges V)\<^sup>+" by (auto simp: heads_def)
      have "\<exists>h \<in> heads V R. (h, r') \<in> (edges V)\<^sup>*" by (rule less.IH) (use r' less.prems in simp_all)
      then obtain h where "h \<in> heads V R" "(h, r') \<in> (edges V)\<^sup>*" by blast
      moreover from this(2) r'(2) have "(h, r) \<in> (edges V)\<^sup>*"
        by (rule trancl_into_rtrancl [OF rtrancl_trancl_trancl])
      ultimately show ?thesis by blast
    qed auto
  qed
qed

lemma ancestry_heads:
  assumes "finite R" "acyclic (edges V)"
  shows "ancestry V (heads V R) = ancestry V R"
proof (rule antisym)
  show "ancestry V (heads V R) \<subseteq> ancestry V R" by (rule ancestry_mono [OF heads_subset])
  have "R \<subseteq> ancestry V (heads V R)" using reaches_head [OF assms] by (auto simp: ancestry_def)
  then show "ancestry V R \<subseteq> ancestry V (heads V R)" by (rule ancestry_idem)
qed

lemma heads_ancestry: "heads V (ancestry V R) = heads V R"
proof
  show "heads V (ancestry V R) \<subseteq> heads V R"
  proof
    fix r assume r: "r \<in> heads V (ancestry V R)"
    then obtain r0 where r0: "r0 \<in> R" "(r0, r) \<in> (edges V)\<^sup>*" by (auto simp: heads_def ancestry_def)
    have "r0 \<in> ancestry V R" using r0(1) ancestry_refl by (rule rev_subsetD)
    with r have "(r0, r) \<notin> (edges V)\<^sup>+" by (simp add: heads_def)
    with r0(2) have "r = r0" by (simp add: rtrancl_eq_or_trancl)
    with r r0(1) show "r \<in> heads V R" using ancestry_refl [of R V] by (auto simp: heads_def)
  qed
  show "heads V R \<subseteq> heads V (ancestry V R)"
  proof
    fix r assume r: "r \<in> heads V R"
    have "(a, r) \<notin> (edges V)\<^sup>+" if "a \<in> ancestry V R" for a
    proof
      assume "(a, r) \<in> (edges V)\<^sup>+"
      moreover obtain r' where "r' \<in> R" "(r', a) \<in> (edges V)\<^sup>*" using \<open>a \<in> ancestry V R\<close> by (auto simp: ancestry_def)
      ultimately have "r' \<in> R" "(r', r) \<in> (edges V)\<^sup>+" by auto
      with r show False by (auto simp: heads_def)
    qed
    with r show "r \<in> heads V (ancestry V R)" using ancestry_refl [of R V] by (auto simp: heads_def)
  qed
qed

lemma nonheads_iff:
  assumes "r \<in> R"
  shows "r \<notin> heads V R \<longleftrightarrow> (\<exists>v \<in> ancestry V R. r \<in> kids V v)"
proof
  assume "r \<notin> heads V R"
  with assms obtain r' where r': "r' \<in> R" "(r', r) \<in> (edges V)\<^sup>+" by (auto simp: heads_def)
  from tranclD2 [OF r'(2)] obtain v where "(r', v) \<in> (edges V)\<^sup>*" "(v, r) \<in> edges V" by blast
  with r' show "\<exists>v \<in> ancestry V R. r \<in> kids V v" by (auto simp: ancestry_def edges_def)
next
  assume "\<exists>v \<in> ancestry V R. r \<in> kids V v"
  then obtain r' v where "r' \<in> R" "(r', v) \<in> (edges V)\<^sup>*" "(v, r) \<in> edges V"
    by (auto simp: ancestry_def edges_def)
  then have "r' \<in> R" "(r', r) \<in> (edges V)\<^sup>+" by auto
  then show "r \<notin> heads V R" by (auto simp: heads_def)
qed

section \<open>Root compaction\<close>

lemma compact_children_result:
  assumes "bs_wf subsumed"
  shows "case compact_children candidates target visited cs stack subsumed of
      Inr (stack', subsumed') \<Rightarrow>
        set subsumed' = set subsumed \<union> (set candidates \<inter> set cs) \<and> bs_wf subsumed' \<and>
        stack' = rev (filter (\<lambda>c. c \<notin> set visited) cs) @ stack
    | Inl subsumed' \<Rightarrow>
        set subsumed' \<subseteq> set subsumed \<union> (set candidates \<inter> set cs) \<and> bs_wf subsumed' \<and>
        target - 1 \<le> length subsumed'"
  using assms
proof (induction cs arbitrary: stack subsumed)
  case (Cons child cs)
  let ?found = "child \<in> set candidates \<and> child \<notin> set subsumed"
  let ?sub = "if ?found then bs_insert child subsumed else subsumed"
  have "bs_wf ?sub" using Cons.prems by auto
  from Cons.IH [OF this, of "if child \<in> set visited then stack else child # stack"] Cons.prems show ?case
    by (auto simp: Let_def split: sum.splits if_splits)
qed simp

text \<open>What is shown of a traversal: \<open>Q\<close> of its result, and in a sound store that holds the roots
  only the store itself can fail, with an error of \<open>F\<close>.\<close>

definition search_result ::
  "('e \<Rightarrow> bool) \<Rightarrow> 'c::linorder hasher \<Rightarrow> 'p encode \<Rightarrow> ('c, 'p) dag \<Rightarrow> 'c set \<Rightarrow> 'e merkle_error + 'a \<Rightarrow> ('a \<Rightarrow> bool) \<Rightarrow> bool" where
  "search_result F H E V R r Q \<longleftrightarrow>
     (case r of Inr v \<Rightarrow> Q v | Inl x \<Rightarrow> dag_ok H E V \<and> R \<subseteq> dom V \<longrightarrow> (\<exists>e. x = StoreError e \<and> F e))"

lemma search_result_simps [simp]:
  "search_result F H E V R (Inr v) Q \<longleftrightarrow> Q v"
  "search_result F H E V R (Inl x) Q \<longleftrightarrow> (dag_ok H E V \<and> R \<subseteq> dom V \<longrightarrow> (\<exists>e. x = StoreError e \<and> F e))"
  by (simp_all add: search_result_def)

text \<open>The early exit: once all candidates but one are known to be below another, the rest is the
  head.\<close>

lemma subsumed_all:
  assumes "finite R" "R \<noteq> {}" "acyclic (edges V)" and X: "X \<subseteq> R \<inter> (\<Union>v \<in> W. kids V v)"
    and W: "W \<subseteq> ancestry V R" and card: "card R - 1 \<le> card X"
  shows "X = R - heads V R"
proof -
  have X': "X \<subseteq> R - heads V R"
  proof
    fix x assume "x \<in> X"
    with X W have "x \<in> R" "\<exists>v \<in> ancestry V R. x \<in> kids V v" by blast+
    then show "x \<in> R - heads V R" by (simp add: nonheads_iff)
  qed
  obtain h where h: "h \<in> heads V R" using reaches_head [OF assms(1,3)] assms(2) by blast
  then have "h \<in> R" using heads_subset by (rule rev_subsetD)
  then have "card (R - heads V R) \<le> card (R - {h})" using h assms(1) by (intro card_mono) auto
  also have "\<dots> = card R - 1" using \<open>h \<in> R\<close> by simp
  finally have "card (R - heads V R) \<le> card X" using card by simp
  with assms(1) X' show ?thesis by (intro card_seteq) auto
qed

context dag_store
begin

lemma load_verified_Inr:
  "load_verified H E S s c = Inr n \<Longrightarrow> view s c = Some n \<and> node_cid H E n = c"
  by (auto simp: load_verified_def split: sum.splits option.splits if_splits dest: get)

lemma load_verified_Inl:
  assumes "load_verified H E S s c = Inl x" and "c \<in> ancestry (view s) R"
    and "dag_ok H E (view s)" "R \<subseteq> dom (view s)"
  shows "\<exists>e. x = StoreError e \<and> store_raises S e"
proof -
  have "c \<in> dom (view s)" using ancestry_dom [OF assms(3,4)] assms(2) by (rule subsetD)
  with dag_ok_node(1) [OF assms(3)] show ?thesis
    using assms(1) by (auto simp: load_verified_def split: sum.splits option.splits if_splits dest: get store_raisesI)
qed

lemma compact_loop_correct:
  fixes candidates :: "'c list"
  assumes acyc: "acyclic (edges (view s))" and wf: "bs_wf candidates" and ne: "candidates \<noteq> []"
  shows "\<exists>r. compact_loop H E S s candidates (rev candidates) [] [] = Some r \<and>
     search_result (store_raises S) H E (view s) (set candidates) r (\<lambda>rs. rs = filter (\<lambda>c. c \<in> heads (view s) (set candidates)) candidates)"
  (is "\<exists>r. _ \<and> ?out r")
proof -
  let ?V = "view s" and ?R = "set candidates"
  let ?A = "ancestry ?V ?R" and ?goal = "filter (\<lambda>c. c \<in> heads ?V ?R) candidates"
  have final: "filter (\<lambda>c. c \<notin> set sub) candidates = ?goal" if "set sub = ?R - heads ?V ?R" for sub
    using that by (intro filter_cong) auto
  define I where "I visited sub \<longleftrightarrow>
      set visited \<subseteq> ?A \<and> bs_wf sub \<and> set sub = ?R \<inter> (\<Union>v \<in> set visited. kids ?V v)" for visited sub
  have fin: "finite ?A" by (intro finite_ancestry finite_view) simp
  have start: "search_inv ?V ?R (set []) (set (rev candidates))" by (simp add: search_start)
  have I0: "I [] []" by (simp add: I_def)
  from fin start I0 show ?thesis
  proof (induction rule: search_induct [where I = I and
      Q = "\<lambda>stack visited sub. \<exists>r. compact_loop H E S s candidates stack visited sub = Some r \<and> ?out r"])
    case (finish visited sub)
    then have "set sub = ?R - heads ?V ?R" using nonheads_iff [of _ ?R ?V] by (auto simp: I_def)
    with final show ?case by (simp add: compact_loop.simps)
  next
    case (skip c rest visited sub)
    have "compact_loop H E S s candidates (c # rest) visited sub = compact_loop H E S s candidates rest visited sub"
      using skip(1) by (subst compact_loop.simps) simp
    with skip(2) show ?case by simp
  next
    case (visit c rest visited sub)
    show ?case
    proof (cases "load_verified H E S s c")
      case (Inl x)
      with visit(2) load_verified_Inl [OF Inl visit(1)] show ?thesis by (simp add: compact_loop.simps)
    next
      case (Inr n)
      then have n: "kids ?V c = set (children n)" by (simp add: kids_def load_verified_Inr)
      let ?visited = "bs_insert c visited"
      note cc = compact_children_result [where subsumed = sub and candidates = candidates and
          target = "length candidates" and visited = ?visited and cs = "children n" and stack = rest]
      have sub: "set sub \<union> (?R \<inter> set (children n)) = ?R \<inter> (\<Union>v \<in> set ?visited. kids ?V v)" "bs_wf sub"
        "set ?visited \<subseteq> ?A"
        using visit(1,3) n by (auto simp: I_def)
      show ?thesis
      proof (cases "compact_children candidates (length candidates) ?visited (children n) rest sub")
        case early: (Inl sub')
        have "set sub' = ?R - heads ?V ?R"
          by (rule subsumed_all [where W = "set ?visited", OF _ _ acyc])
             (use cc sub early ne wf in \<open>simp_all add: distinct_card bs_wf_distinct\<close>)
        with early Inr visit(2) final show ?thesis by (simp add: compact_loop.simps)
      next
        case on: (Inr p)
        obtain stack' sub' where p: "p = (stack', sub')" by (cases p)
        have step: "compact_loop H E S s candidates (c # rest) visited sub =
            compact_loop H E S s candidates stack' ?visited sub'"
          using on p Inr visit(2) by (subst compact_loop.simps) simp
        show ?thesis
          unfolding step by (rule visit(4)) (use cc on p sub n in \<open>auto simp: I_def\<close>)
      qed
    qed
  qed
qed

lemma compact_roots_correct:
  fixes roots :: "'c list"
  assumes acyc: "acyclic (edges (view s))" and wf: "bs_wf roots"
  shows "\<exists>r. compact_roots H E S s roots = Some r \<and>
     search_result (store_raises S) H E (view s) (set roots) r (\<lambda>rs. bs_wf rs \<and> set rs = heads (view s) (set roots))"
proof (cases "length roots \<le> 1")
  case True
  then consider "roots = []" | r where "roots = [r]" by (cases roots) auto
  then have "heads (view s) (set roots) = set roots"
    using acyc by cases (auto simp: heads_def acyclic_def)
  with True wf show ?thesis by (simp add: compact_roots_def)
next
  case False
  then have "roots \<noteq> []" by auto
  from compact_loop_correct [OF acyc wf this]
  obtain r where "compact_loop H E S s roots (rev roots) [] [] = Some r"
    and r: "search_result (store_raises S) H E (view s) (set roots) r (\<lambda>rs. rs = filter (\<lambda>c. c \<in> heads (view s) (set roots)) roots)"
    by blast
  moreover have "search_result (store_raises S) H E (view s) (set roots) r (\<lambda>rs. bs_wf rs \<and> set rs = heads (view s) (set roots))"
    using r wf heads_subset [of "view s" "set roots"] by (cases r) (auto simp: set_filter)
  ultimately show ?thesis using False by (simp add: compact_roots_def)
qed

end

end
