(* ===== verification/Merkle_Sync.thy ===== *)
theory Merkle_Sync
  imports Merkle_Clock
begin

text \<open>
  Anti-entropy of \<open>support/merkle-crdt/src/sync.rs\<close>: \<open>fetch_missing\<close> walks the remote DAG
  breadth-first and \<open>topological_sort\<close> orders what it collected, oldest first. An option
  \<open>None\<close> is a run that does not return: a loop that goes on forever, or a panic
  (\<open>nodes.remove(..).unwrap()\<close> on an absent node, an out-degree that would drop below zero).
  \<open>kahn_order\<close> is the reference: the order as a function of the graph alone, which the
  routine with its counters and reverse edges computes.
\<close>

section \<open>Topological sort\<close>

definition topo_out_degree :: "('c, 'p) mem_store \<Rightarrow> ('c, nat) btree" where
  "topo_out_degree nodes =
     map (\<lambda>(c, n). (c, length (filter (\<lambda>d. d \<in> set (map fst nodes)) (children n)))) nodes"

definition push_parent :: "'c::linorder \<Rightarrow> 'c \<Rightarrow> ('c, 'c list) btree \<Rightarrow> ('c, 'c list) btree" where
  "push_parent child cid m =
     bt_insert child ((case bt_get m child of None \<Rightarrow> [] | Some ps \<Rightarrow> ps) @ [cid]) m"

fun topo_parents :: "'c::linorder list \<Rightarrow> ('c, 'p) mem_store \<Rightarrow> ('c, 'c list) btree \<Rightarrow> ('c, 'c list) btree" where
  "topo_parents keys [] m = m"
| "topo_parents keys ((cid, n) # nodes) m =
     topo_parents keys nodes (fold (\<lambda>child. push_parent child cid) (filter (\<lambda>d. d \<in> set keys) (children n)) m)"

fun topo_release ::
  "'c::linorder list \<Rightarrow> ('c, nat) btree \<Rightarrow> 'c list \<Rightarrow> (('c, nat) btree \<times> 'c list) option" where
  "topo_release [] out_degree queue = Some (out_degree, queue)"
| "topo_release (parent # ps) out_degree queue =
     (case bt_get out_degree parent of
        None \<Rightarrow> topo_release ps out_degree queue
      | Some 0 \<Rightarrow> None
      | Some (Suc deg) \<Rightarrow>
          topo_release ps (bt_insert parent deg out_degree) (if deg = 0 then queue @ [parent] else queue))"

partial_function (option) topo_loop ::
  "('c::linorder, 'c list) btree \<Rightarrow> 'c list \<Rightarrow> ('c, nat) btree \<Rightarrow> ('c, 'p) mem_store
     \<Rightarrow> ('c \<times> ('c, 'p) dag_node) list \<Rightarrow> ('c \<times> ('c, 'p) dag_node) list option" where
  [code]: "topo_loop parents_of queue out_degree nodes result =
     (case queue of
        [] \<Rightarrow> Some result
      | cid # rest \<Rightarrow>
          (case topo_release (case bt_get parents_of cid of None \<Rightarrow> [] | Some ps \<Rightarrow> ps) out_degree rest of
             None \<Rightarrow> None
           | Some (out_degree', queue') \<Rightarrow>
               (case bt_get nodes cid of
                  None \<Rightarrow> None
                | Some node \<Rightarrow>
                    topo_loop parents_of queue' out_degree' (bt_remove cid nodes) (result @ [(cid, node)]))))"

definition topological_sort ::
  "('c::linorder, 'p) mem_store \<Rightarrow> ('c \<times> ('c, 'p) dag_node) list option" where
  "topological_sort nodes =
     (let out_degree = topo_out_degree nodes
      in topo_loop (topo_parents (map fst nodes) nodes [])
           (map fst (filter (\<lambda>(_, deg). deg = 0) out_degree)) out_degree nodes [])"

section \<open>Fetching\<close>

datatype ('l, 'r) sync_error = SyncLocal 'l | SyncRemote 'r | SyncMissingNode | SyncInvalidCid | SyncInvalidAuthor

partial_function (option) fetch_loop ::
  "'c::linorder hasher \<Rightarrow> 'p encode \<Rightarrow> ('c, 'p, 's, 'l) store_ops \<Rightarrow> 's \<Rightarrow> ('c, 'p, 't, 'r) store_ops \<Rightarrow> 't
     \<Rightarrow> 'c list \<Rightarrow> 'c list \<Rightarrow> ('c, 'p) mem_store \<Rightarrow> (('l, 'r) sync_error + ('c, 'p) mem_store) option" where
  [code]: "fetch_loop H E L ls R rs queue visited missing =
     (case queue of
        [] \<Rightarrow> Some (Inr missing)
      | cid # rest \<Rightarrow>
          if cid \<in> set visited then fetch_loop H E L ls R rs rest visited missing
          else case sto_contains L ls cid of
                 Inl e \<Rightarrow> Some (Inl (SyncLocal e))
               | Inr present \<Rightarrow>
                   if present then fetch_loop H E L ls R rs rest (bs_insert cid visited) missing
                   else case sto_get R rs cid of
                          Inl e \<Rightarrow> Some (Inl (SyncRemote e))
                        | Inr None \<Rightarrow> Some (Inl SyncMissingNode)
                        | Inr (Some node) \<Rightarrow>
                            if node_cid H E node \<noteq> cid then Some (Inl SyncInvalidCid)
                            else fetch_loop H E L ls R rs (rest @ children node) (bs_insert cid visited)
                                   (bt_insert cid node missing))"

definition fetch_missing ::
  "'c::linorder hasher \<Rightarrow> 'p encode \<Rightarrow> ('c, 'p, 's, 'l) store_ops \<Rightarrow> 's \<Rightarrow> ('c, 'p, 't, 'r) store_ops \<Rightarrow> 't
     \<Rightarrow> 'c \<Rightarrow> (('l, 'r) sync_error + ('c \<times> ('c, 'p) dag_node) list) option" where
  "fetch_missing H E L ls R rs root =
     (case fetch_loop H E L ls R rs [root] [] [] of
        None \<Rightarrow> None
      | Some (Inl e) \<Rightarrow> Some (Inl e)
      | Some (Inr missing) \<Rightarrow>
          if missing = [] then Some (Inr []) else map_option Inr (topological_sort missing))"

section \<open>The reference order\<close>

definition inner_kids :: "('c, 'p) dag \<Rightarrow> 'c \<Rightarrow> 'c set" where
  "inner_kids N c = kids N c \<inter> dom N"

definition released :: "('c, 'p) dag \<Rightarrow> 'c list \<Rightarrow> 'c list \<Rightarrow> 'c \<Rightarrow> 'c list" where
  "released N ks done c = filter (\<lambda>p. c \<in> inner_kids N p \<and> inner_kids N p \<subseteq> insert c (set done)) ks"

fun kahn :: "('c, 'p) dag \<Rightarrow> 'c list \<Rightarrow> nat \<Rightarrow> 'c list \<Rightarrow> 'c list \<Rightarrow> 'c list" where
  "kahn N ks 0 queue done = done"
| "kahn N ks (Suc fuel) queue done =
     (case queue of [] \<Rightarrow> done | c # rest \<Rightarrow> kahn N ks fuel (rest @ released N ks done c) (done @ [c]))"

definition kahn_order :: "('c, 'p) dag \<Rightarrow> 'c list \<Rightarrow> 'c list" where
  "kahn_order N ks = kahn N ks (length ks) (filter (\<lambda>p. inner_kids N p = {}) ks) []"

text \<open>Done and queued nodes are distinct; the queue holds the nodes whose children are done; every
  done node comes after its children.\<close>

definition kahn_inv :: "('c, 'p) dag \<Rightarrow> 'c list \<Rightarrow> 'c list \<Rightarrow> 'c list \<Rightarrow> bool" where
  "kahn_inv N ks queue done \<longleftrightarrow>
     distinct (done @ queue) \<and> set done \<subseteq> set ks \<and>
     set queue = {p \<in> set ks. inner_kids N p \<subseteq> set done} - set done \<and>
     (\<forall>i < length done. inner_kids N (done ! i) \<subseteq> set (take i done))"

lemma kahn_inv_start:
  assumes "distinct ks"
  shows "kahn_inv N ks (filter (\<lambda>p. inner_kids N p = {}) ks) []"
  using assms by (auto simp: kahn_inv_def)

lemma kahn_inv_closed:
  assumes "kahn_inv N ks queue done" "p \<in> set done"
  shows "inner_kids N p \<subseteq> set done"
proof -
  obtain i where "i < length done" "done ! i = p" using assms(2) by (auto simp: in_set_conv_nth)
  with assms(1) have "inner_kids N p \<subseteq> set (take i done)" by (auto simp: kahn_inv_def)
  also have "\<dots> \<subseteq> set done" by (rule set_take_subset)
  finally show ?thesis .
qed

lemma kahn_inv_step:
  assumes inv: "kahn_inv N ks (c # rest) done" and ks: "distinct ks"
  shows "kahn_inv N ks (rest @ released N ks done c) (done @ [c])"
proof -
  have c: "c \<in> set ks" "inner_kids N c \<subseteq> set done" "c \<notin> set done"
    and rest: "set rest = {p \<in> set ks. inner_kids N p \<subseteq> set done} - set done - {c}"
    and dist: "distinct (done @ c # rest)"
    using inv by (auto simp: kahn_inv_def)
  have new: "p \<notin> set done \<and> p \<noteq> c \<and> p \<notin> set rest" if "p \<in> set (released N ks done c)" for p
    using that c rest kahn_inv_closed [OF inv, of p] by (auto simp: released_def)
  have "distinct ((done @ [c]) @ rest @ released N ks done c)"
    using dist ks new by (auto simp: released_def)
  moreover have "set (rest @ released N ks done c) =
      {p \<in> set ks. inner_kids N p \<subseteq> set (done @ [c])} - set (done @ [c])"
    using rest new by (auto simp: released_def)
  moreover have "inner_kids N ((done @ [c]) ! i) \<subseteq> set (take i (done @ [c]))" if "i < length (done @ [c])" for i
    using that inv c(2) by (cases "i < length done") (auto simp: kahn_inv_def nth_append less_Suc_eq)
  ultimately show ?thesis using inv c(1) by (simp add: kahn_inv_def)
qed

lemma kahn_inv_full:
  assumes inv: "kahn_inv N ks queue done" and "distinct ks" "length ks \<le> length done"
  shows "queue = []"
proof -
  from inv have "distinct done" "set done \<subseteq> set ks" and queue: "set queue \<subseteq> set ks - set done"
    unfolding kahn_inv_def by auto
  have "card (set ks) \<le> card (set done)"
    unfolding distinct_card [OF assms(2)] distinct_card [OF \<open>distinct done\<close>] by (rule assms(3))
  with \<open>set done \<subseteq> set ks\<close> have "set done = set ks" by (intro card_seteq) simp_all
  with queue show ?thesis by simp
qed

lemma kahn_final:
  assumes "kahn_inv N ks queue done" "distinct ks" "length ks \<le> length done + fuel"
  shows "kahn_inv N ks [] (kahn N ks fuel queue done)"
  using assms
proof (induction fuel arbitrary: queue "done")
  case 0
  then show ?case using kahn_inv_full [of N ks queue "done"] by simp
next
  case (Suc fuel)
  then show ?case by (cases queue) (auto intro: Suc.IH [OF kahn_inv_step])
qed

definition causal_order :: "('c, 'p) dag \<Rightarrow> 'c list \<Rightarrow> bool" where
  "causal_order N cs \<longleftrightarrow>
     distinct cs \<and> set cs = dom N \<and> (\<forall>i < length cs. inner_kids N (cs ! i) \<subseteq> set (take i cs))"

lemma kahn_order_inv:
  assumes "distinct ks"
  shows "kahn_inv N ks [] (kahn_order N ks)"
  unfolding kahn_order_def by (rule kahn_final [OF kahn_inv_start]) (use assms in simp_all)

lemma kahn_inv_all:
  assumes inv: "kahn_inv N ks [] done" and ks: "set ks = dom N" and acyc: "acyclic (edges N)"
  shows "set done = dom N"
proof -
  let ?r = "{(d, c). c \<in> dom N \<and> d \<in> inner_kids N c}"
  have "?r\<inverse> \<subseteq> edges N" by (auto simp: edges_def inner_kids_def)
  then have "acyclic (?r\<inverse>)" using acyc by (rule acyclic_subset [rotated])
  moreover have "finite ?r"
    by (rule finite_subset [of _ "dom N \<times> dom N"])
       (use finite_set [of ks, unfolded ks] in \<open>auto simp: inner_kids_def\<close>)
  ultimately have "wf ?r" by (simp add: finite_acyclic_wf)
  have "c \<in> set done" if "c \<in> dom N" for c
    using \<open>wf ?r\<close> that
  proof (induction c rule: wf_induct_rule)
    case (less c)
    then have "inner_kids N c \<subseteq> set done" by (auto simp: inner_kids_def)
    with less.prems inv show ?case by (auto simp: kahn_inv_def ks)
  qed
  moreover have "set done \<subseteq> set ks" using inv by (simp add: kahn_inv_def)
  ultimately show ?thesis using ks by auto
qed

lemma kahn_order_causal:
  assumes ks: "distinct ks" "set ks = dom N" and acyc: "acyclic (edges N)"
  shows "causal_order N (kahn_order N ks)"
proof -
  note inv = kahn_order_inv [OF ks(1), of N]
  with kahn_inv_all [OF inv ks(2) acyc] show ?thesis by (simp add: causal_order_def kahn_inv_def)
qed

section \<open>The routine computes the reference order\<close>

lemma fold_push_parent:
  assumes "distinct ds"
  shows "bt_get (fold (\<lambda>child. push_parent child cid) ds m) d =
     (if d \<in> set ds then Some ((case bt_get m d of None \<Rightarrow> [] | Some ps \<Rightarrow> ps) @ [cid]) else bt_get m d)"
  using assms by (induction ds arbitrary: m) (auto simp: push_parent_def)

lemma topo_parents_get:
  assumes "\<And>c n. (c, n) \<in> set nodes \<Longrightarrow> distinct (children n)" and "d \<in> set keys"
  shows "(case bt_get (topo_parents keys nodes m) d of None \<Rightarrow> [] | Some ps \<Rightarrow> ps) =
     (case bt_get m d of None \<Rightarrow> [] | Some ps \<Rightarrow> ps) @ map fst (filter (\<lambda>(c, n). d \<in> set (children n)) nodes)"
  using assms
proof (induction keys nodes m rule: topo_parents.induct)
  case (2 keys cid n nodes m)
  have "distinct (filter (\<lambda>d. d \<in> set keys) (children n))" using "2.prems"(1) [of cid n] by simp
  moreover have "\<And>c n. (c, n) \<in> set nodes \<Longrightarrow> distinct (children n)" using "2.prems"(1) by auto
  note "2.IH" [OF this "2.prems"(2)]
  ultimately show ?case using "2.prems"(2) by (simp add: fold_push_parent)
qed simp

lemma topo_release_spec:
  assumes "distinct ps" and "\<And>p. p \<in> set ps \<Longrightarrow> \<exists>k. bt_get deg p = Some (Suc k)"
  shows "\<exists>deg'. topo_release ps deg queue =
       Some (deg', queue @ filter (\<lambda>p. bt_get deg p = Some 1) ps) \<and>
     (\<forall>p. bt_get deg' p = (if p \<in> set ps then map_option (\<lambda>k. k - 1) (bt_get deg p) else bt_get deg p))"
  using assms
proof (induction ps arbitrary: deg queue)
  case (Cons p ps)
  from Cons.prems(2) obtain k where k: "bt_get deg p = Some (Suc k)" by auto
  let ?deg = "bt_insert p k deg" and ?q = "if k = 0 then queue @ [p] else queue"
  have "\<exists>j. bt_get ?deg q = Some (Suc j)" if "q \<in> set ps" for q
    using that Cons.prems by (cases "q = p") auto
  from Cons.IH [OF _ this, of ?q] Cons.prems(1) obtain deg' where
    r: "topo_release ps ?deg ?q = Some (deg', ?q @ filter (\<lambda>q. bt_get ?deg q = Some 1) ps)"
    and d: "\<And>q. bt_get deg' q = (if q \<in> set ps then map_option (\<lambda>k. k - 1) (bt_get ?deg q) else bt_get ?deg q)"
    by auto
  have "filter (\<lambda>q. bt_get ?deg q = Some 1) ps = filter (\<lambda>q. bt_get deg q = Some 1) ps"
    using Cons.prems(1) by (intro filter_cong) auto
  with r k d Cons.prems(1) show ?case by auto
qed simp

text \<open>The counters hold what is left to do of each node's children.\<close>

definition degrees_ok :: "('c, 'p) dag \<Rightarrow> 'c list \<Rightarrow> ('c, nat) btree \<Rightarrow> bool" where
  "degrees_ok N done deg \<longleftrightarrow>
     (\<forall>p. bt_get deg p = (if p \<in> dom N then Some (card (inner_kids N p - set done)) else None))"

definition parents_ok :: "('c, 'p) dag \<Rightarrow> 'c list \<Rightarrow> ('c, 'c list) btree \<Rightarrow> bool" where
  "parents_ok N ks parents \<longleftrightarrow>
     (\<forall>c \<in> dom N. (case bt_get parents c of None \<Rightarrow> [] | Some ps \<Rightarrow> ps) = filter (\<lambda>p. c \<in> inner_kids N p) ks)"

lemma card_one_left:
  assumes "c \<in> X" "c \<notin> D"
  shows "card (X - D) = 1 \<longleftrightarrow> X \<subseteq> insert c D"
proof -
  have "card (X - D) = 1 \<longleftrightarrow> X - D = {c}"
  proof
    assume "card (X - D) = 1"
    then obtain x where x: "X - D = {x}" by (rule card_1_singletonE)
    have "c \<in> X - D" using assms by simp
    then have "c = x" unfolding x by simp
    with x show "X - D = {c}" by simp
  qed simp
  also have "\<dots> \<longleftrightarrow> X \<subseteq> insert c D" using assms by blast
  finally show ?thesis .
qed

lemma degrees_release:
  assumes "degrees_ok N done deg"
    and "\<And>p. bt_get deg' p = (if p \<in> dom N \<and> c \<in> inner_kids N p then map_option (\<lambda>k. k - 1) (bt_get deg p)
                               else bt_get deg p)"
    and "c \<notin> set done" and fin: "\<And>p. finite (inner_kids N p)"
  shows "degrees_ok N (done @ [c]) deg'"
proof -
  have "card (inner_kids N p - set (done @ [c])) =
      (if c \<in> inner_kids N p then card (inner_kids N p - set done) - 1 else card (inner_kids N p - set done))" for p
  proof -
    have "inner_kids N p - set (done @ [c]) = inner_kids N p - set done - {c}" by auto
    with assms(3) fin [of p] show ?thesis by (simp add: card_Diff_singleton_if)
  qed
  with assms(1,2) show ?thesis by (simp add: degrees_ok_def)
qed

lemma topo_loop_kahn:
  assumes ks: "distinct ks" "set ks = dom N" and par: "parents_ok N ks parents"
    and "kahn_inv N ks queue done" "degrees_ok N done deg"
    and "\<And>c. bt_get nodes c = (if c \<in> set done then None else N c)" and "length ks = length done + fuel"
    and fin: "\<And>p. finite (inner_kids N p)"
  shows "topo_loop parents queue deg nodes (map (\<lambda>c. (c, the (N c))) done) =
           Some (map (\<lambda>c. (c, the (N c))) (kahn N ks fuel queue done))"
  using assms(4-7)
proof (induction fuel arbitrary: queue deg nodes "done")
  case 0
  then have "queue = []" using kahn_inv_full [of N ks queue "done"] ks(1) by simp
  then show ?case by (simp add: topo_loop.simps)
next
  case (Suc fuel)
  show ?case
  proof (cases queue)
    case Nil
    then show ?thesis by (simp add: topo_loop.simps)
  next
    case (Cons c rest)
    from Suc.prems(1) Cons have c: "c \<in> dom N" "c \<notin> set done" by (auto simp: kahn_inv_def ks(2))
    let ?ps = "filter (\<lambda>p. c \<in> inner_kids N p) ks"
    have deg: "bt_get deg p = Some (card (inner_kids N p - set done))" if "p \<in> set ?ps" for p
      using that Suc.prems(2) by (simp add: degrees_ok_def ks(2))
    have pos: "\<exists>k. bt_get deg p = Some (Suc k)" if "p \<in> set ?ps" for p
    proof -
      have "c \<in> inner_kids N p - set done" using that c(2) by simp
      then have "card (inner_kids N p - set done) \<noteq> 0" using fin by (auto simp: card_eq_0_iff)
      with deg [OF that] show ?thesis by (cases "card (inner_kids N p - set done)") auto
    qed
    have one: "card (inner_kids N p - set done) = 1 \<longleftrightarrow> inner_kids N p \<subseteq> insert c (set done)" if "p \<in> set ?ps" for p
      using that c(2) by (intro card_one_left) simp_all
    have rel: "filter (\<lambda>p. bt_get deg p = Some 1) ?ps = released N ks done c"
      unfolding released_def filter_filter using deg one by (intro filter_cong) auto
    obtain deg' where deg': "topo_release ?ps deg rest = Some (deg', rest @ released N ks done c)"
      "\<And>p. bt_get deg' p = (if p \<in> set ?ps then map_option (\<lambda>k. k - 1) (bt_get deg p) else bt_get deg p)"
      using topo_release_spec [of ?ps deg rest, OF distinct_filter [OF ks(1)] pos, unfolded rel] by blast
    have ps: "(case bt_get parents c of None \<Rightarrow> [] | Some ps \<Rightarrow> ps) = ?ps"
      using par c(1) by (simp add: parents_ok_def)
    have "bt_get nodes c = Some (the (N c))" using Suc.prems(3) c by auto
    then have loop: "topo_loop parents queue deg nodes (map (\<lambda>c. (c, the (N c))) done) =
        topo_loop parents (rest @ released N ks done c) deg' (bt_remove c nodes) (map (\<lambda>c. (c, the (N c))) (done @ [c]))"
      unfolding Cons by (subst topo_loop.simps) (simp add: ps deg'(1))
    have "degrees_ok N (done @ [c]) deg'"
      by (rule degrees_release [OF Suc.prems(2) _ c(2) fin]) (simp add: deg'(2) ks(2))
    note IH = Suc.IH [OF kahn_inv_step [OF Suc.prems(1) [unfolded Cons] ks(1)] this, of "bt_remove c nodes"]
    have "topo_loop parents (rest @ released N ks done c) deg' (bt_remove c nodes) (map (\<lambda>c. (c, the (N c))) (done @ [c])) =
        Some (map (\<lambda>c. (c, the (N c))) (kahn N ks fuel (rest @ released N ks done c) (done @ [c])))"
      by (rule IH) (use Suc.prems(3,4) in auto)
    then show ?thesis unfolding loop by (simp add: Cons)
  qed
qed

text \<open>The well-formed inputs: an ordered map of nodes with duplicate-free children.\<close>

definition nodes_ok :: "('c::linorder, 'p) mem_store \<Rightarrow> bool" where
  "nodes_ok nodes \<longleftrightarrow> bt_wf nodes \<and> list_all (\<lambda>(c, n). distinct (children n)) nodes"

lemma nodes_ok_get:
  assumes "nodes_ok nodes" and "(c, n) \<in> set nodes"
  shows "bt_get nodes c = Some n" "distinct (children n)"
  using assms bt_wf_distinct [of nodes] by (auto simp: nodes_ok_def bt_get_def list_all_iff)

lemma dom_bt_get: "dom (bt_get m) = set (map fst m)"
  by (simp add: bt_get_def [abs_def] dom_map_of_conv_image_fst)

lemma inner_kids_get:
  assumes "nodes_ok nodes" and "(c, n) \<in> set nodes"
  shows "inner_kids (bt_get nodes) c = set (filter (\<lambda>d. d \<in> set (map fst nodes)) (children n))"
  using nodes_ok_get [OF assms] by (auto simp: inner_kids_def kids_def dom_bt_get simp del: set_map)

lemma topo_parents_ok:
  assumes "nodes_ok nodes"
  shows "parents_ok (bt_get nodes) (map fst nodes) (topo_parents (map fst nodes) nodes [])"
  unfolding parents_ok_def
proof
  fix d assume d: "d \<in> dom (bt_get nodes)"
  then have keys: "d \<in> set (map fst nodes)" by (simp add: dom_bt_get)
  have "(case bt_get (topo_parents (map fst nodes) nodes []) d of None \<Rightarrow> [] | Some ps \<Rightarrow> ps) =
      map fst (filter (\<lambda>(c, n). d \<in> set (children n)) nodes)"
    using topo_parents_get [of nodes d "map fst nodes" "[]"] keys nodes_ok_get(2) [OF assms] by simp
  also have "\<dots> = map fst (filter (\<lambda>x. d \<in> inner_kids (bt_get nodes) (fst x)) nodes)"
    by (intro arg_cong [where f = "map fst"] filter_cong)
       (use keys in \<open>auto simp: inner_kids_get [OF assms] simp del: set_map\<close>)
  also have "\<dots> = filter (\<lambda>p. d \<in> inner_kids (bt_get nodes) p) (map fst nodes)"
    by (simp add: filter_map o_def)
  finally show "(case bt_get (topo_parents (map fst nodes) nodes []) d of None \<Rightarrow> [] | Some ps \<Rightarrow> ps) =
      filter (\<lambda>p. d \<in> inner_kids (bt_get nodes) p) (map fst nodes)" .
qed

lemma topo_out_degree_get:
  assumes "nodes_ok nodes" and "(c, n) \<in> set nodes"
  shows "length (filter (\<lambda>d. d \<in> set (map fst nodes)) (children n)) = card (inner_kids (bt_get nodes) c)"
  unfolding inner_kids_get [OF assms]
  by (rule distinct_card [symmetric]) (use nodes_ok_get [OF assms] in simp)

lemma topo_out_degree_eq:
  assumes "nodes_ok nodes"
  shows "topo_out_degree nodes = map (\<lambda>(c, n). (c, card (inner_kids (bt_get nodes) c))) nodes"
  unfolding topo_out_degree_def by (rule map_cong) (auto simp: topo_out_degree_get [OF assms] simp del: set_map)

lemma map_of_map_key: "map_of (map (\<lambda>(c, n). (c, f c)) m) c = (if c \<in> fst ` set m then Some (f c) else None)"
  by (induction m) auto

lemma topological_sort_kahn:
  assumes ok: "nodes_ok nodes"
  shows "topological_sort nodes =
    Some (map (\<lambda>c. (c, the (bt_get nodes c))) (kahn_order (bt_get nodes) (map fst nodes)))"
proof -
  let ?N = "bt_get nodes" and ?ks = "map fst nodes"
  have ks: "distinct ?ks" "set ?ks = dom ?N" using ok by (simp_all add: nodes_ok_def bt_wf_distinct dom_bt_get)
  have fin: "finite (inner_kids ?N p)" for p
    by (rule finite_subset [of _ "dom ?N"]) (auto simp: inner_kids_def)
  note deg = topo_out_degree_eq [OF ok]
  have "map fst (filter (\<lambda>(_, d). d = 0) (topo_out_degree nodes)) = filter (\<lambda>p. inner_kids ?N p = {}) ?ks"
    unfolding deg filter_map map_map
    by (rule map_cong) (auto simp: o_def fin case_prod_beta)
  moreover have "degrees_ok ?N [] (topo_out_degree nodes)"
    by (simp add: degrees_ok_def deg bt_get_def [of "map _ _"] map_of_map_key dom_bt_get)
  ultimately show ?thesis
    using topo_loop_kahn [OF ks topo_parents_ok [OF ok] kahn_inv_start [OF ks(1)], where fuel = "length ?ks"] fin
    by (simp add: topological_sort_def kahn_order_def Let_def)
qed

section \<open>What is fetched\<close>

text \<open>The part of the remote DAG the local store does not hold.\<close>

definition absent :: "('c, 'p) dag \<Rightarrow> ('c, 'p) dag \<Rightarrow> ('c, 'p) dag" where
  "absent LV RV c = (if c \<in> dom LV then None else RV c)"

definition fetched :: "('c, 'p) dag \<Rightarrow> ('c, 'p) dag \<Rightarrow> 'c \<Rightarrow> ('c, 'p) dag" where
  "fetched LV RV root c = (if c \<in> ancestry (absent LV RV) {root} then absent LV RV c else None)"

lemma absent_simps [simp]:
  "c \<in> dom LV \<Longrightarrow> absent LV RV c = None" "LV c = None \<Longrightarrow> absent LV RV c = RV c"
  by (auto simp: absent_def)

lemma finite_absent: "finite (dom RV) \<Longrightarrow> finite (dom (absent LV RV))"
  by (rule finite_subset [of _ "dom RV"]) (auto simp: absent_def split: if_splits)

text \<open>A transfer that is under way: the collected nodes are the visited part, all verified, and
  every visited identifier is held by one side.\<close>

definition fetch_inv ::
  "'c::linorder hasher \<Rightarrow> 'p encode \<Rightarrow> ('c, 'p) dag \<Rightarrow> ('c, 'p) dag \<Rightarrow> 'c list \<Rightarrow> ('c, 'p) mem_store \<Rightarrow> bool" where
  "fetch_inv H E LV RV visited missing \<longleftrightarrow> bt_wf missing \<and>
     (\<forall>c. bt_get missing c = (if c \<in> set visited then absent LV RV c else None)) \<and>
     (\<forall>c n. bt_get missing c = Some n \<longrightarrow> node_cid H E n = c) \<and>
     (\<forall>c \<in> set visited. c \<in> dom LV \<or> c \<in> dom RV)"

definition fetch_outcome ::
  "('l \<Rightarrow> bool) \<Rightarrow> ('r \<Rightarrow> bool) \<Rightarrow> 'c::linorder hasher \<Rightarrow> 'p encode \<Rightarrow> ('c, 'p) dag \<Rightarrow> ('c, 'p) dag \<Rightarrow> 'c \<Rightarrow> ('l, 'r) sync_error + ('c, 'p) mem_store \<Rightarrow> bool" where
  "fetch_outcome F G H E LV RV root r \<longleftrightarrow>
     (case r of
        Inr m \<Rightarrow> bt_wf m \<and> bt_get m = fetched LV RV root \<and> (\<forall>c n. bt_get m c = Some n \<longrightarrow> node_cid H E n = c) \<and>
                 ancestry (absent LV RV) {root} \<subseteq> dom LV \<union> dom RV
      | Inl x \<Rightarrow> dag_ok H E RV \<and> root \<in> dom RV \<longrightarrow>
                   (\<exists>e. x = SyncLocal e \<and> F e) \<or> (\<exists>e. x = SyncRemote e \<and> G e))"

lemma fetch_inv_local:
  assumes "fetch_inv H E LV RV visited missing" and "c \<in> dom LV"
  shows "fetch_inv H E LV RV (bs_insert c visited) missing"
  using assms by (auto simp: fetch_inv_def)

lemma fetch_inv_remote:
  assumes "fetch_inv H E LV RV visited missing" and "LV c = None" "RV c = Some n" "node_cid H E n = c"
  shows "fetch_inv H E LV RV (bs_insert c visited) (bt_insert c n missing)"
  using assms by (auto simp: fetch_inv_def)

lemma absent_ancestry_honest:
  assumes "dag_ok H E RV" and "root \<in> dom RV"
  shows "ancestry (absent LV RV) {root} \<subseteq> dom RV"
proof (rule ancestry_least)
  fix c d assume "d \<in> kids (absent LV RV) c"
  then have "d \<in> kids RV c" by (auto simp: kids_def absent_def split: option.splits if_splits)
  then show "d \<in> dom RV" using dag_ok_kids [OF assms(1)] by blast
qed (use assms in simp)

text \<open>Visiting one identifier either ends the loop or extends the transfer.\<close>

lemma fetch_loop_visit:
  assumes L: "dag_store L lv" and R: "dag_store R rv" and new: "c \<notin> set visited"
    and A: "c \<in> ancestry (absent (lv ls) (rv rs)) {root}"
    and inv: "fetch_inv H E (lv ls) (rv rs) visited missing"
  obtains (stop) r where "fetch_loop H E L ls R rs (c # rest) visited missing = Some r"
      and "fetch_outcome (store_raises L) (store_raises R) H E (lv ls) (rv rs) root r"
    | (go) queue' missing' where "fetch_loop H E L ls R rs (c # rest) visited missing =
          fetch_loop H E L ls R rs queue' (bs_insert c visited) missing'"
      and "set queue' = set rest \<union> kids (absent (lv ls) (rv rs)) c"
      and "fetch_inv H E (lv ls) (rv rs) (bs_insert c visited) missing'"
proof (cases "sto_contains L ls c")
  case (Inl e)
  with new show ?thesis by (intro stop [of "Inl (SyncLocal e)"]) (simp_all add: fetch_loop.simps fetch_outcome_def store_raisesI)
next
  case (Inr present)
  then have present: "present \<longleftrightarrow> lv ls c \<noteq> None" by (rule dag_store.contains [OF L])
  show ?thesis
  proof (cases present)
    case True
    then have "c \<in> dom (lv ls)" using present by auto
    with Inr True new show ?thesis
      by (intro go [OF _ _ fetch_inv_local [OF inv], of rest])
         (simp_all add: fetch_loop.simps [of H E L ls R rs "c # rest"] kids_def)
  next
    case False
    then have none: "lv ls c = None" using present by simp
    show ?thesis
    proof (cases "sto_get R rs c")
      case (Inl e)
      with Inr False new show ?thesis
        by (intro stop [of "Inl (SyncRemote e)"]) (simp_all add: fetch_loop.simps fetch_outcome_def store_raisesI)
    next
      case got: (Inr found)
      then have found: "rv rs c = found" using dag_store.get [OF R] by metis
      show ?thesis
      proof (cases "\<exists>n. found = Some n \<and> node_cid H E n = c")
        case True
        then obtain n where n: "found = Some n" "node_cid H E n = c" by blast
        have "fetch_loop H E L ls R rs (c # rest) visited missing =
            fetch_loop H E L ls R rs (rest @ children n) (bs_insert c visited) (bt_insert c n missing)"
          using Inr False new got n by (subst fetch_loop.simps) simp
        then show ?thesis
          by (rule go) (use n none found in \<open>auto simp: kids_def intro: fetch_inv_remote [OF inv]\<close>)
      next
        case bad: False
        have "\<not> (dag_ok H E (rv rs) \<and> root \<in> dom (rv rs))"
          using absent_ancestry_honest [of H E "rv rs" root "lv ls"] A bad found dag_ok_node(1) by blast
        with Inr False new got bad show ?thesis
          by (intro stop [of "Inl (case found of None \<Rightarrow> SyncMissingNode | Some _ \<Rightarrow> SyncInvalidCid)"])
             (auto simp: fetch_loop.simps fetch_outcome_def split: option.splits)
      qed
    qed
  qed
qed

lemma fetch_loop_correct:
  assumes L: "dag_store L lv" and R: "dag_store R rv"
    and "search_inv (absent (lv ls) (rv rs)) {root} (set visited) (set queue)"
    and "fetch_inv H E (lv ls) (rv rs) visited missing"
  shows "\<exists>r. fetch_loop H E L ls R rs queue visited missing = Some r \<and> fetch_outcome (store_raises L) (store_raises R) H E (lv ls) (rv rs) root r"
  using assms(3-)
proof (induction "(visited, queue)" arbitrary: visited queue missing
    rule: wf_induct_rule [OF wf_search_rel [of "ancestry (absent (lv ls) (rv rs)) {root}"]])
  case (1 visited queue missing)
  let ?W = "absent (lv ls) (rv rs)"
  let ?A = "ancestry ?W {root}" and ?loop = "fetch_loop H E L ls R rs queue visited missing"
  have fin: "finite ?A" using finite_absent dag_store.finite_view [OF R] by (intro finite_ancestry) auto
  show ?case
  proof (cases queue)
    case Nil
    with "1.prems"(1) have "set visited = ?A" by (intro search_done) simp
    with Nil "1.prems"(2) show ?thesis
      by (auto simp: fetch_loop.simps fetch_outcome_def fetch_inv_def fetched_def fun_eq_iff)
  next
    case (Cons c rest)
    show ?thesis
    proof (cases "c \<in> set visited")
      case True
      have inv: "search_inv ?W {root} (set visited) (set rest)"
        by (rule search_skip [OF "1.prems"(1) True]) (use Cons in auto)
      have "?loop = fetch_loop H E L ls R rs rest visited missing"
        using Cons True by (subst fetch_loop.simps) simp
      with "1.hyps" [OF _ inv "1.prems"(2)] Cons show ?thesis by (simp add: search_rel_skip)
    next
      case False
      have c: "c \<in> ?A" using "1.prems"(1) Cons by (simp add: search_inv_def)
      show ?thesis
      proof (cases rule: fetch_loop_visit [OF L R False c "1.prems"(2), of rest, case_names stop go])
        case (stop r)
        with Cons show ?thesis by blast
      next
        case (go queue' missing')
        have "search_inv ?W {root} (insert c (set visited)) (set rest \<union> kids ?W c)"
          by (rule search_visit [OF "1.prems"(1), where rest = "set rest"]) (use Cons in auto)
        then have inv: "search_inv ?W {root} (set (bs_insert c visited)) (set queue')"
          by (simp only: go(2) set_bs_insert)
        have "((bs_insert c visited, queue'), (visited, queue)) \<in> search_rel ?A"
          by (rule search_rel_visit [OF fin c False]) simp
        from "1.hyps" [OF this inv go(3)] go(1) Cons show ?thesis by simp
      qed
    qed
  qed
qed

definition dag_typed :: "('c::linorder, 'p) dag \<Rightarrow> bool" where
  "dag_typed V \<longleftrightarrow> (\<forall>c n. V c = Some n \<longrightarrow> bs_wf (children n))"

lemma dag_ok_typed: "dag_ok H E V \<Longrightarrow> dag_typed V"
  by (auto simp: dag_ok_def dag_typed_def)

lemma edges_fetched: "edges (fetched LV RV root) \<subseteq> edges RV"
  by (auto simp: edges_def kids_def fetched_def absent_def split: option.splits if_splits)

text \<open>A transfer, in the order in which it is applied: fetched nodes that match their identifiers,
  each after those of its children that are fetched with it. Nodes on a cycle, and those above one,
  never become ready and are left out; without cycles the transfer is complete.\<close>

definition fetch_result ::
  "'c::linorder hasher \<Rightarrow> 'p encode \<Rightarrow> ('c, 'p) dag \<Rightarrow> ('c, 'p) dag \<Rightarrow> 'c \<Rightarrow> ('c \<times> ('c, 'p) dag_node) list \<Rightarrow> bool" where
  "fetch_result H E LV RV root ns \<longleftrightarrow>
     distinct (map fst ns) \<and> map_of ns \<subseteq>\<^sub>m fetched LV RV root \<and>
     (\<forall>i < length ns. inner_kids (fetched LV RV root) (fst (ns ! i)) \<subseteq> set (map fst (take i ns))) \<and>
     list_all (\<lambda>(c, n). node_cid H E n = c) ns \<and> ancestry (absent LV RV) {root} \<subseteq> dom LV \<union> dom RV \<and>
     (acyclic (edges RV) \<longrightarrow> map_of ns = fetched LV RV root)"

lemma fetch_result_causal:
  assumes res: "fetch_result H E LV RV root ns" and acyc: "acyclic (edges RV)"
  shows "map_of ns = fetched LV RV root" "causal_order (fetched LV RV root) (map fst ns)"
proof -
  show of: "map_of ns = fetched LV RV root" using assms by (simp add: fetch_result_def)
  then have "set (map fst ns) = dom (fetched LV RV root)"
    unfolding of [symmetric] by (simp add: dom_map_of_conv_image_fst)
  with res show "causal_order (fetched LV RV root) (map fst ns)"
    by (simp add: fetch_result_def causal_order_def take_map)
qed

lemma fetch_missing_correct:
  assumes L: "dag_store L lv" and R: "dag_store R rv" and typed: "dag_typed (rv rs)"
  shows "\<exists>r. fetch_missing H E L ls R rs root = Some r \<and>
    (case r of Inr ns \<Rightarrow> fetch_result H E (lv ls) (rv rs) root ns
     | Inl x \<Rightarrow> dag_ok H E (rv rs) \<and> root \<in> dom (rv rs) \<longrightarrow>
         (\<exists>e. x = SyncLocal e \<and> store_raises L e) \<or> (\<exists>e. x = SyncRemote e \<and> store_raises R e))"
proof -
  let ?F = "fetched (lv ls) (rv rs) root"
  have "fetch_inv H E (lv ls) (rv rs) [] []" by (simp add: fetch_inv_def)
  with fetch_loop_correct [OF L R, of ls rs root "[]" "[root]" H E "[]"]
    search_start [of "absent (lv ls) (rv rs)" "{root}"]
  obtain r where loop: "fetch_loop H E L ls R rs [root] [] [] = Some r"
    and r: "fetch_outcome (store_raises L) (store_raises R) H E (lv ls) (rv rs) root r" by auto
  show ?thesis
  proof (cases r)
    case (Inl x)
    with loop r show ?thesis by (simp add: fetch_missing_def fetch_outcome_def)
  next
    case (Inr m)
    with r have m: "bt_wf m" "bt_get m = ?F" "\<And>c n. bt_get m c = Some n \<Longrightarrow> node_cid H E n = c"
      "ancestry (absent (lv ls) (rv rs)) {root} \<subseteq> dom (lv ls) \<union> dom (rv rs)"
      by (auto simp: fetch_outcome_def)
    let ?cs = "kahn_order ?F (map fst m)"
    define ns where "ns = map (\<lambda>c. (c, the (?F c))) ?cs"
    have get: "bt_get m c = Some n" if "(c, n) \<in> set m" for c n
      using that bt_wf_distinct [OF m(1)] by (simp add: bt_get_def)
    have "list_all (\<lambda>(c, n). distinct (children n)) m"
      using get m(2) typed
      by (fastforce simp: list_all_iff fetched_def absent_def dag_typed_def bs_wf_distinct split: if_splits)
    then have "nodes_ok m" using m(1) by (simp add: nodes_ok_def)
    then have sort: "topological_sort m = Some ns" unfolding ns_def m(2) [symmetric] by (rule topological_sort_kahn)
    have ks: "distinct (map fst m)" "set (map fst m) = dom ?F"
      using m(1) by (simp_all add: bt_wf_distinct m(2) [symmetric] dom_bt_get)
    note inv = kahn_order_inv [OF ks(1), of ?F]
    have keys: "map fst ns = ?cs" by (simp add: ns_def o_def)
    have sub: "set ?cs \<subseteq> dom ?F" "distinct ?cs" "\<And>i. i < length ?cs \<Longrightarrow> inner_kids ?F (?cs ! i) \<subseteq> set (take i ?cs)"
      using inv ks(2) by (auto simp: kahn_inv_def)
    have "fetch_result H E (lv ls) (rv rs) root ns"
      unfolding fetch_result_def
    proof (intro conjI allI impI)
      have of: "map_of ns c = (if c \<in> set ?cs then ?F c else None)" for c
        unfolding ns_def using sub(1) by (auto simp: map_of_map_restrict restrict_map_def domIff)
      then show "map_of ns \<subseteq>\<^sub>m ?F" by (auto simp: map_le_def split: if_splits)
      show "distinct (map fst ns)" unfolding keys by (rule sub(2))
      show "inner_kids ?F (fst (ns ! i)) \<subseteq> set (map fst (take i ns))" if "i < length ns" for i
        using sub(3) [of i] that keys by (metis length_map nth_map take_map)
      show "list_all (\<lambda>(c, n). node_cid H E n = c) ns"
        using m(2,3) sub(1) by (auto simp: ns_def list_all_iff)
      show "ancestry (absent (lv ls) (rv rs)) {root} \<subseteq> dom (lv ls) \<union> dom (rv rs)" by (rule m(4))
      show "map_of ns = ?F" if "acyclic (edges (rv rs))"
      proof -
        have "set ?cs = dom ?F"
          by (rule kahn_inv_all [OF inv ks(2) acyclic_subset [OF that edges_fetched]])
        then show ?thesis by (intro ext) (auto simp: of)
      qed
    qed
    moreover have "m = [] \<Longrightarrow> ns = []"
      unfolding ns_def by (simp add: kahn_order_def)
    then have "fetch_missing H E L ls R rs root = Some (Inr ns)"
      using loop Inr sort by (simp add: fetch_missing_def)
    ultimately show ?thesis by simp
  qed
qed

end
