(* ===== verification/Merkle_State.thy ===== *)
theory Merkle_State
  imports Merkle_Sync
begin

text \<open>
  The state a DAG stands for: its payloads applied in the reference order of
  \<open>Merkle_Sync\<close>. It depends on the nodes alone, so replicas that hold the same ancestry
  have the same state whatever the payloads do; a node above all others is applied last, so
  recording an operation is one more application; and the heads of a set of nodes are
  determined by the ancestry.
\<close>

section \<open>State\<close>

text \<open>The trait \<open>Payload\<close>: encoding, initial state, application.\<close>

record ('p, 'st) payload_ops =
  pl_encode :: "'p encode"
  pl_default :: 'st
  pl_apply :: "'st \<Rightarrow> 'p \<Rightarrow> 'st"

definition apply_nodes :: "('p, 'st) payload_ops \<Rightarrow> ('c \<times> ('c, 'p) dag_node) list \<Rightarrow> 'st" where
  "apply_nodes P ns = foldl (\<lambda>st (_, n). pl_apply P st (payload n)) (pl_default P) ns"

definition dag_state :: "('p, 'st) payload_ops \<Rightarrow> ('c::linorder, 'p) dag \<Rightarrow> 'st" where
  "dag_state P N =
     apply_nodes P (map (\<lambda>c. (c, the (N c))) (kahn_order N (sorted_list_of_set (dom N))))"

section \<open>A node above all others comes last\<close>

definition tops :: "('c, 'p) dag \<Rightarrow> 'c \<Rightarrow> ('c, 'p) dag_node \<Rightarrow> bool" where
  "tops N r n \<longleftrightarrow> r \<notin> dom N \<and> (\<forall>c. r \<notin> kids N c) \<and> r \<notin> set (children n) \<and>
     dom N \<subseteq> ancestry N (set (children n) \<inter> dom N)"

lemma inner_kids_tops:
  assumes "tops N r n"
  shows "p \<noteq> r \<Longrightarrow> inner_kids (N(r \<mapsto> n)) p = inner_kids N p"
    and "inner_kids (N(r \<mapsto> n)) r = set (children n) \<inter> dom N"
    and "r \<notin> inner_kids (N(r \<mapsto> n)) p"
  using assms by (auto simp: tops_def inner_kids_def kids_def split: if_splits option.splits)

lemma kahn_Nil [simp]: "kahn N ks fuel [] done = done"
  by (cases fuel) simp_all

lemma tops_released:
  assumes "tops N r n" "r \<notin> set ks" "sorted ks"
  shows "released (N(r \<mapsto> n)) (insort r ks) done c =
    (if c \<in> set (children n) \<inter> dom N \<and> set (children n) \<inter> dom N \<subseteq> insert c (set done)
     then insort r (released N ks done c) else released N ks done c)"
proof -
  let ?P = "\<lambda>p. c \<in> inner_kids (N(r \<mapsto> n)) p \<and> inner_kids (N(r \<mapsto> n)) p \<subseteq> insert c (set done)"
  have "filter ?P ks = released N ks done c"
    unfolding released_def
    by (intro filter_cong) (use assms(2) inner_kids_tops(1) [OF assms(1)] in metis)+
  then show ?thesis
    using assms(3) unfolding released_def [of "N(r \<mapsto> n)"]
    by (simp add: inner_kids_tops(2) [OF assms(1)] filter_insort filter_insort_triv)
qed

lemma kahn_inv_tops:
  assumes inv: "kahn_inv N ks queue done" and ks: "set ks = dom N" and top: "tops N r n"
    and all: "set (children n) \<inter> dom N \<subseteq> set done"
  shows "queue = []"
proof -
  have "ancestry N (set (children n) \<inter> dom N) \<subseteq> set done \<union> - dom N"
  proof (rule ancestry_least)
    show "set (children n) \<inter> dom N \<subseteq> set done \<union> - dom N" using all by auto
    fix c d assume c: "c \<in> set done \<union> - dom N" and d: "d \<in> kids N c"
    have "c \<in> set done" using c d by (auto simp: kids_def split: option.splits)
    with kahn_inv_closed [OF inv] d show "d \<in> set done \<union> - dom N" by (auto simp: inner_kids_def)
  qed
  moreover have "dom N \<subseteq> ancestry N (set (children n) \<inter> dom N)" using top by (simp add: tops_def)
  ultimately have "dom N \<subseteq> set done" by blast
  then have "dom N - set done = {}" by (simp only: Diff_eq_empty_iff)
  moreover have "set queue \<subseteq> dom N - set done" using inv unfolding kahn_inv_def ks by auto
  ultimately have "set queue \<subseteq> {}" by (simp only:)
  then show ?thesis by simp
qed

lemma kahn_tops:
  fixes N :: "('c::linorder, 'p) dag"
  assumes top: "tops N r n" and acyc: "acyclic (edges N)" and ks: "set ks = dom N" "distinct ks" "sorted ks"
    and "kahn_inv N ks queue done" "\<not> set (children n) \<inter> dom N \<subseteq> set done" "length ks \<le> length done + fuel"
  shows "kahn (N(r \<mapsto> n)) (insort r ks) (Suc fuel) queue done = kahn N ks fuel queue done @ [r]"
  using assms(6-)
proof (induction fuel arbitrary: queue "done")
  case 0
  then have "queue = []" using kahn_inv_full [OF "0.prems"(1) ks(2)] by simp
  with "0.prems" kahn_inv_all [OF _ ks(1) acyc] show ?case by auto
next
  case (Suc fuel)
  have r: "r \<notin> set ks" using top ks(1) by (simp add: tops_def)
  define N' where "N' = N(r \<mapsto> n)"
  show ?case
  proof (cases queue)
    case Nil
    with Suc.prems kahn_inv_all [OF _ ks(1) acyc] show ?thesis by auto
  next
    case (Cons c rest)
    have inv: "kahn_inv N ks (rest @ released N ks done c) (done @ [c])"
      using Suc.prems(1) Cons ks(2) by (simp add: kahn_inv_step)
    note rel = tops_released [OF top r ks(3), of "done" c, folded N'_def]
    show ?thesis
    proof (cases "set (children n) \<inter> dom N \<subseteq> set (done @ [c])")
      case True
      then have c: "c \<in> set (children n) \<inter> dom N" using Suc.prems(2) by auto
      have "rest @ released N ks done c = []" by (rule kahn_inv_tops [OF inv ks(1) top True])
      moreover have "released N' (insort r ks) (done @ [c]) r = []"
        by (simp add: released_def N'_def inner_kids_tops(3) [OF top] del: fun_upd_apply)
      ultimately show ?thesis using Cons c True rel by (simp add: N'_def [symmetric] del: fun_upd_apply)
    next
      case False
      then have "\<not> set (children n) \<inter> dom N \<subseteq> insert c (set done)" by simp
      with rel have "released N' (insort r ks) done c = released N ks done c" by auto
      with Suc.IH [OF inv False, folded N'_def] Suc.prems(3) Cons show ?thesis
        by (simp add: N'_def [symmetric] del: fun_upd_apply)
    qed
  qed
qed

lemma kahn_order_tops:
  fixes N :: "('c::linorder, 'p) dag"
  assumes top: "tops N r n" and acyc: "acyclic (edges N)" and fin: "finite (dom N)"
  shows "kahn_order (N(r \<mapsto> n)) (sorted_list_of_set (insert r (dom N))) =
    kahn_order N (sorted_list_of_set (dom N)) @ [r]"
proof -
  let ?ks = "sorted_list_of_set (dom N)"
  have ks: "set ?ks = dom N" "distinct ?ks" "sorted ?ks" "r \<notin> set ?ks" using fin top by (simp_all add: tops_def)
  have ins: "sorted_list_of_set (insert r (dom N)) = insort r ?ks"
    using fin ks(4) by (simp add: sorted_list_of_set_insert)
  have same: "filter (\<lambda>p. inner_kids (N(r \<mapsto> n)) p = {}) ?ks = filter (\<lambda>p. inner_kids N p = {}) ?ks"
    by (intro filter_cong) (use ks(4) inner_kids_tops(1) [OF top] in metis)+
  show ?thesis
  proof (cases "dom N = {}")
    case True
    have "inner_kids (N(r \<mapsto> n)) r = {}" unfolding inner_kids_tops(2) [OF top] True by simp
    then show ?thesis unfolding True
      by (simp add: kahn_order_def released_def inner_kids_tops(3) [OF top] del: fun_upd_apply)
  next
    case False
    have some: "set (children n) \<inter> dom N \<noteq> {}"
    proof
      assume none: "set (children n) \<inter> dom N = {}"
      have "ancestry N {} = {}" by simp
      with top False none show False unfolding tops_def by (simp only:) auto
    qed
    then have "\<not> inner_kids (N(r \<mapsto> n)) r = {}" by (simp add: inner_kids_tops(2) [OF top])
    then have start: "filter (\<lambda>p. inner_kids (N(r \<mapsto> n)) p = {}) (insort r ?ks) = filter (\<lambda>p. inner_kids N p = {}) ?ks"
      using same by (simp add: filter_insort_triv)
    have "\<not> set (children n) \<inter> dom N \<subseteq> set []" using some by auto
    from kahn_tops [OF top acyc ks(1-3) kahn_inv_start [OF ks(2)] this, of "length ?ks"] ks(4)
    show ?thesis unfolding kahn_order_def ins start by simp
  qed
qed

lemma dag_state_tops:
  assumes "tops N r n" "acyclic (edges N)" "finite (dom N)"
  shows "dag_state P (N(r \<mapsto> n)) = pl_apply P (dag_state P N) (payload n)"
proof -
  let ?cs = "kahn_order N (sorted_list_of_set (dom N))"
  have "set ?cs = dom N"
    using kahn_order_causal [of "sorted_list_of_set (dom N)" N] assms by (simp add: causal_order_def)
  then have "map (\<lambda>c. (c, the ((N(r \<mapsto> n)) c))) ?cs = map (\<lambda>c. (c, the (N c))) ?cs"
    using assms(1) by (intro map_cong) (auto simp: tops_def)
  then show ?thesis
    unfolding dag_state_def by (simp add: kahn_order_tops [OF assms] apply_nodes_def cong: map_cong)
qed

section \<open>What the ancestry determines\<close>

text \<open>Stores without two different nodes under one identifier.\<close>

definition agree :: "('c, 'p) dag \<Rightarrow> ('c, 'p) dag \<Rightarrow> bool" where
  "agree V W \<longleftrightarrow> (\<forall>c \<in> dom V \<inter> dom W. V c = W c)"

lemma agree_sym: "agree V W \<Longrightarrow> agree W V"
  by (auto simp: agree_def)

lemma agree_refl [simp]: "agree V V"
  by (simp add: agree_def)

lemma agree_kids: "agree V W \<Longrightarrow> c \<in> dom V \<Longrightarrow> c \<in> dom W \<Longrightarrow> kids V c = kids W c"
  by (simp add: agree_def kids_def)

lemma ancestry_agree_le:
  assumes "agree V W" "dag_ok H E V" "dag_ok H E W" "R \<subseteq> dom V \<inter> dom W"
  shows "ancestry V R \<subseteq> ancestry W R"
proof -
  have dom: "ancestry W R \<subseteq> dom W" by (rule ancestry_dom [OF assms(3)]) (use assms(4) in auto)
  have "ancestry V R \<subseteq> ancestry W R \<inter> dom V"
  proof (rule ancestry_least)
    show "R \<subseteq> ancestry W R \<inter> dom V" using assms(4) ancestry_refl [of R W] by blast
    fix c d assume c: "c \<in> ancestry W R \<inter> dom V" and d: "d \<in> kids V c"
    then have "kids W c = kids V c" using dom agree_kids [OF assms(1), of c] by auto
    then have "d \<in> ancestry W R" using c d by (auto dest: ancestry_step [of c])
    moreover have "d \<in> dom V" using d dag_ok_kids [OF assms(2), of c] by (rule rev_subsetD)
    ultimately show "d \<in> ancestry W R \<inter> dom V" by simp
  qed
  then show ?thesis by simp
qed

lemma ancestry_agree:
  assumes "agree V W" "dag_ok H E V" "dag_ok H E W" "R \<subseteq> dom V \<inter> dom W"
  shows "ancestry V R = ancestry W R"
  using ancestry_agree_le [OF assms] ancestry_agree_le [OF agree_sym [OF assms(1)] assms(3,2)] assms(4) by auto

lemma heads_idem: "heads V (heads V R) = heads V R"
  by (auto simp: heads_def)

lemma restrict_agree:
  assumes "agree V W" "A \<subseteq> dom V" "A \<subseteq> dom W"
  shows "V |` A = W |` A"
  using assms by (auto simp: restrict_map_def agree_def fun_eq_iff subset_iff)

lemma heads_agree:
  assumes "agree V W" "ancestry V R = A" "ancestry W Q = A" "A \<subseteq> dom V" "A \<subseteq> dom W"
  shows "heads V R = heads W Q"
proof -
  have anc: "ancestry V A = A" "ancestry W A = A"
    using assms(2,3) ancestry_idem [of A V R] ancestry_refl [of A V] ancestry_idem [of A W Q] ancestry_refl [of A W]
    by auto
  have kids: "kids V c = kids W c" if "c \<in> A" for c
    by (rule agree_kids [OF assms(1)]) (use that assms(4,5) in auto)
  have "r \<in> heads V A \<longleftrightarrow> r \<in> heads W A" if "r \<in> A" for r
    using nonheads_iff [OF that, of V] nonheads_iff [OF that, of W] unfolding anc using kids by auto
  then have "heads V A = heads W A" using heads_subset [of V A] heads_subset [of W A] by blast
  then show ?thesis using heads_ancestry [of V R] heads_ancestry [of W Q] unfolding assms(2,3) by simp
qed

end
