(* ===== verification/Merkle_Crdt.thy ===== *)
theory Merkle_Crdt
  imports Merkle_State
begin

text \<open>
  Replicas, \<open>support/merkle-crdt/src/crdt.rs\<close>: \<open>MerkleCrdt\<close> with \<open>apply\<close>,
  \<open>sync\<close>, \<open>sync_validated\<close>, \<open>rebuild_state\<close>, \<open>from_roots\<close> and
  \<open>from_roots_validated\<close>. The trait \<open>Payload\<close> is the parameter \<open>P\<close>, a validator a
  predicate on identifiers and nodes. An outer \<open>None\<close> is a call that does not return.
\<close>

section \<open>Operations\<close>

record ('c, 's, 'st) replica =
  rp_clock :: "'c merkle_clock"
  rp_store :: 's
  rp_state :: 'st

definition replica_new :: "('p, 'st) payload_ops \<Rightarrow> 's \<Rightarrow> ('c, 's, 'st) replica" where
  "replica_new P s = \<lparr>rp_clock = clock_new, rp_store = s, rp_state = pl_default P\<rparr>"

definition replica_apply ::
  "'c::linorder hasher \<Rightarrow> ('p, 'st) payload_ops \<Rightarrow> ('c, 'p, 's, 'e) store_ops \<Rightarrow> 'p \<Rightarrow> ('c, 's, 'st) replica
     \<Rightarrow> ('e merkle_error + 'c) \<times> ('c, 's, 'st) replica" where
  "replica_apply H P S op rp =
     (let staged = pl_apply P (rp_state rp) op
      in case record_event H (pl_encode P) S (rp_clock rp) op (rp_store rp) of
           (Inl e, clock, s) \<Rightarrow> (Inl e, rp\<lparr>rp_clock := clock, rp_store := s\<rparr>)
         | (Inr cid, clock, s) \<Rightarrow> (Inr cid, rp\<lparr>rp_clock := clock, rp_store := s, rp_state := staged\<rparr>))"

partial_function (option) materialize_loop ::
  "'c::linorder hasher \<Rightarrow> 'p encode \<Rightarrow> ('c, 'p, 's, 'e) store_ops \<Rightarrow> 's \<Rightarrow> 'c list \<Rightarrow> 'c list \<Rightarrow> ('c, 'p) mem_store
     \<Rightarrow> ('e merkle_error + ('c, 'p) mem_store) option" where
  [code]: "materialize_loop H E S s stack visited nodes =
     (case stack of
        [] \<Rightarrow> Some (Inr nodes)
      | cid # rest \<Rightarrow>
          if cid \<in> set visited then materialize_loop H E S s rest visited nodes
          else case load_verified H E S s cid of
                 Inl e \<Rightarrow> Some (Inl e)
               | Inr node \<Rightarrow>
                   materialize_loop H E S s
                     (rev (filter (\<lambda>c. c \<notin> set (bs_insert cid visited)) (children node)) @ rest)
                     (bs_insert cid visited) (bt_insert cid node nodes))"

definition materialize ::
  "'c::linorder hasher \<Rightarrow> ('p, 'st) payload_ops \<Rightarrow> ('c, 'p, 's, 'e) store_ops \<Rightarrow> 's \<Rightarrow> 'c merkle_clock
     \<Rightarrow> ('e merkle_error + 'st) option" where
  "materialize H P S s clock =
     (case materialize_loop H (pl_encode P) S s (rev clock) [] [] of
        None \<Rightarrow> None
      | Some (Inl e) \<Rightarrow> Some (Inl e)
      | Some (Inr nodes) \<Rightarrow> map_option (\<lambda>ns. Inr (apply_nodes P ns)) (topological_sort nodes))"

type_synonym ('c, 'p) validator = "'c \<Rightarrow> ('c, 'p) dag_node \<Rightarrow> bool"

definition accept_all :: "('c, 'p) validator" where
  "accept_all c n = True"

partial_function (option) ancestry_loop ::
  "'c::linorder hasher \<Rightarrow> 'p encode \<Rightarrow> ('c, 'p, 's, 'e) store_ops \<Rightarrow> 's \<Rightarrow> ('c, 'p) validator \<Rightarrow> 'c list \<Rightarrow> 'c list
     \<Rightarrow> ('e merkle_error + bool) option" where
  [code]: "ancestry_loop H E S s valid stack visited =
     (case stack of
        [] \<Rightarrow> Some (Inr True)
      | cid # rest \<Rightarrow>
          if cid \<in> set visited then ancestry_loop H E S s valid rest visited
          else case load_verified H E S s cid of
                 Inl e \<Rightarrow> Some (Inl e)
               | Inr node \<Rightarrow>
                   if \<not> valid cid node then Some (Inr False)
                   else ancestry_loop H E S s valid (rev (children node) @ rest) (bs_insert cid visited))"

definition ancestry_is_valid ::
  "'c::linorder hasher \<Rightarrow> 'p encode \<Rightarrow> ('c, 'p, 's, 'e) store_ops \<Rightarrow> 's \<Rightarrow> ('c, 'p) validator \<Rightarrow> 'c merkle_clock
     \<Rightarrow> ('e merkle_error + bool) option" where
  "ancestry_is_valid H E S s valid clock = ancestry_loop H E S s valid (rev clock) []"

fun map_local_error :: "'l merkle_error \<Rightarrow> ('l, 'r) sync_error" where
  "map_local_error (StoreError e) = SyncLocal e"
| "map_local_error MissingNode = SyncMissingNode"
| "map_local_error InvalidCid = SyncInvalidCid"
| "map_local_error InvalidAuthor = SyncInvalidAuthor"

text \<open>From the stored nodes to the staged clock and state: compaction, the second validation and
  materialization, in the order of the source.\<close>

definition stage_roots ::
  "'c::linorder hasher \<Rightarrow> ('p, 'st) payload_ops \<Rightarrow> ('c, 'p, 's, 'e) store_ops \<Rightarrow> 's \<Rightarrow> ('c, 'p) validator \<Rightarrow> 'c merkle_clock
     \<Rightarrow> ('e merkle_error + 'c merkle_clock \<times> 'st) option" where
  "stage_roots H P S s valid roots =
     (case compact_roots H (pl_encode P) S s roots of
        None \<Rightarrow> None
      | Some (Inl e) \<Rightarrow> Some (Inl e)
      | Some (Inr clock) \<Rightarrow>
          (case ancestry_is_valid H (pl_encode P) S s valid clock of
             None \<Rightarrow> None
           | Some (Inl e) \<Rightarrow> Some (Inl e)
           | Some (Inr False) \<Rightarrow> Some (Inl InvalidAuthor)
           | Some (Inr True) \<Rightarrow>
               map_option (\<lambda>r. case r of Inl e \<Rightarrow> Inl e | Inr st \<Rightarrow> Inr (clock, st)) (materialize H P S s clock)))"

definition sync_validated ::
  "'c::linorder hasher \<Rightarrow> ('p, 'st) payload_ops \<Rightarrow> ('c, 'p, 's, 'l) store_ops \<Rightarrow> ('c, 'p, 't, 'r) store_ops
     \<Rightarrow> ('c, 'p) validator \<Rightarrow> 'c \<Rightarrow> 't \<Rightarrow> ('c, 's, 'st) replica
     \<Rightarrow> ((('l, 'r) sync_error + unit) \<times> ('c, 's, 'st) replica) option" where
  "sync_validated H P S R valid root remote rp =
     (case fetch_missing H (pl_encode P) S (rp_store rp) R remote root of
        None \<Rightarrow> None
      | Some (Inl e) \<Rightarrow> Some (Inl e, rp)
      | Some (Inr missing) \<Rightarrow>
          if list_ex (\<lambda>(c, n). \<not> valid c n) missing then Some (Inl SyncInvalidAuthor, rp)
          else case sto_put_batch S (rp_store rp) missing of
                 (Inl e, s) \<Rightarrow> Some (Inl (SyncLocal e), rp\<lparr>rp_store := s\<rparr>)
               | (Inr _, s) \<Rightarrow>
                   map_option (\<lambda>r. case r of
                       Inl e \<Rightarrow> (Inl (map_local_error e), rp\<lparr>rp_store := s\<rparr>)
                     | Inr (clock, st) \<Rightarrow> (Inr (), rp\<lparr>rp_clock := clock, rp_store := s, rp_state := st\<rparr>))
                     (stage_roots H P S s valid (add_roots [root] (rp_clock rp))))"

definition replica_sync where
  "replica_sync H P S R = sync_validated H P S R accept_all"

definition rebuild_state ::
  "'c::linorder hasher \<Rightarrow> ('p, 'st) payload_ops \<Rightarrow> ('c, 'p, 's, 'e) store_ops \<Rightarrow> ('c, 's, 'st) replica
     \<Rightarrow> (('e merkle_error + unit) \<times> ('c, 's, 'st) replica) option" where
  "rebuild_state H P S rp =
     map_option (\<lambda>r. case r of Inl e \<Rightarrow> (Inl e, rp) | Inr st \<Rightarrow> (Inr (), rp\<lparr>rp_state := st\<rparr>))
       (materialize H P S (rp_store rp) (rp_clock rp))"

definition from_roots_validated ::
  "'c::linorder hasher \<Rightarrow> ('p, 'st) payload_ops \<Rightarrow> ('c, 'p, 's, 'e) store_ops \<Rightarrow> ('c, 'p) validator \<Rightarrow> 's \<Rightarrow> 'c list
     \<Rightarrow> ('e merkle_error + ('c, 's, 'st) replica) option" where
  "from_roots_validated H P S valid s roots =
     map_option (\<lambda>r. case r of
         Inl e \<Rightarrow> Inl e
       | Inr (clock, st) \<Rightarrow> Inr \<lparr>rp_clock = clock, rp_store = s, rp_state = st\<rparr>)
       (stage_roots H P S s valid (add_roots roots clock_new))"

definition from_roots where
  "from_roots H P S = from_roots_validated H P S accept_all"

section \<open>Materialization and validation\<close>

text \<open>Nodes that are all present and found under their own identifiers.\<close>

definition intact :: "'c hasher \<Rightarrow> 'p encode \<Rightarrow> ('c, 'p) dag \<Rightarrow> 'c set \<Rightarrow> bool" where
  "intact H E V A \<longleftrightarrow> (\<forall>c \<in> A. \<exists>n. V c = Some n \<and> node_cid H E n = c)"

lemma intact_insert [simp]:
  "intact H E V (insert c A) \<longleftrightarrow> (\<exists>n. V c = Some n \<and> node_cid H E n = c) \<and> intact H E V A"
  by (auto simp: intact_def)

lemma intact_empty [simp]: "intact H E V {}"
  by (simp add: intact_def)

lemma intact_dom: "intact H E V A \<Longrightarrow> A \<subseteq> dom V"
  by (auto simp: intact_def)

lemma dag_ok_intact: "dag_ok H E V \<Longrightarrow> A \<subseteq> dom V \<Longrightarrow> intact H E V A"
  by (fastforce simp: intact_def dest: dag_ok_node)

text \<open>A staged clock consists of the heads, its whole ancestry is present, verified and accepted by
  the validator, and the staged state is that of the ancestry.\<close>

definition staged_ok ::
  "'c::linorder hasher \<Rightarrow> ('p, 'st) payload_ops \<Rightarrow> ('c, 'p) dag \<Rightarrow> ('c, 'p) validator \<Rightarrow> 'c list
     \<Rightarrow> 'c merkle_clock \<times> 'st \<Rightarrow> bool" where
  "staged_ok H P V valid roots = (\<lambda>(clock, st).
     bs_wf clock \<and> set clock = heads V (set roots) \<and> intact H (pl_encode P) V (ancestry V (set roots)) \<and>
     (\<forall>c \<in> ancestry V (set roots). valid c (the (V c))) \<and> st = dag_state P (V |` ancestry V (set roots)))"

context dag_store
begin

lemma materialize_loop_correct:
  "\<exists>r. materialize_loop H E S s (rev roots) [] [] = Some r \<and>
     search_result (store_raises S) H E (view s) (set roots) r (\<lambda>m. bt_wf m \<and>
       bt_get m = view s |` ancestry (view s) (set roots) \<and> intact H E (view s) (ancestry (view s) (set roots)))"
  (is "\<exists>r. _ \<and> ?out r")
proof -
  let ?V = "view s" and ?R = "set roots"
  define I where "I visited m \<longleftrightarrow> bt_wf m \<and> bt_get m = ?V |` set visited \<and> intact H E ?V (set visited)" for visited m
  have fin: "finite (ancestry ?V ?R)" by (intro finite_ancestry finite_view) simp
  have start: "search_inv ?V ?R (set []) (set (rev roots))" by (simp add: search_start)
  have I0: "I [] []" by (simp add: I_def bt_get_def fun_eq_iff)
  from fin start I0 show ?thesis
  proof (induction rule: search_induct [where I = I and
      Q = "\<lambda>stack visited m. \<exists>r. materialize_loop H E S s stack visited m = Some r \<and> ?out r"])
    case (finish visited m)
    then show ?case by (simp add: materialize_loop.simps I_def)
  next
    case (skip c rest visited m)
    have "materialize_loop H E S s (c # rest) visited m = materialize_loop H E S s rest visited m"
      using skip(1) by (subst materialize_loop.simps) simp
    with skip(2) show ?case by simp
  next
    case (visit c rest visited m)
    show ?case
    proof (cases "load_verified H E S s c")
      case (Inl x)
      with visit(1,2) load_verified_Inl [OF Inl visit(1)] show ?thesis by (simp add: materialize_loop.simps)
    next
      case (Inr n)
      from load_verified_Inr [OF this] have n: "?V c = Some n" "node_cid H E n = c" by auto
      let ?stack = "rev (filter (\<lambda>d. d \<notin> set (bs_insert c visited)) (children n)) @ rest"
      have step: "materialize_loop H E S s (c # rest) visited m =
          materialize_loop H E S s ?stack (bs_insert c visited) (bt_insert c n m)"
        using Inr visit(2) by (subst materialize_loop.simps) simp
      have "I (bs_insert c visited) (bt_insert c n m)"
        using visit(3) n by (auto simp: I_def restrict_map_def fun_eq_iff)
      then show ?thesis
        unfolding step by (intro visit(4)) (use n(1) in \<open>auto simp: kids_def\<close>)
    qed
  qed
qed

lemma ancestry_is_valid_correct:
  "\<exists>r. ancestry_is_valid H E S s valid roots = Some r \<and>
     search_result (store_raises S) H E (view s) (set roots) r (\<lambda>b.
       if b then intact H E (view s) (ancestry (view s) (set roots)) \<and>
                 (\<forall>c \<in> ancestry (view s) (set roots). valid c (the (view s c)))
       else (\<exists>c \<in> ancestry (view s) (set roots). \<exists>n. view s c = Some n \<and> \<not> valid c n))"
  (is "\<exists>r. _ \<and> ?out r")
proof -
  let ?V = "view s" and ?R = "set roots"
  define I where "I visited (u :: unit) \<longleftrightarrow> intact H E ?V (set visited) \<and> (\<forall>c \<in> set visited. valid c (the (?V c)))" for visited u
  have fin: "finite (ancestry ?V ?R)" by (intro finite_ancestry finite_view) simp
  have start: "search_inv ?V ?R (set []) (set (rev roots))" by (simp add: search_start)
  have I0: "I [] ()" by (simp add: I_def)
  from fin start I0 show ?thesis
    unfolding ancestry_is_valid_def
  proof (induction rule: search_induct [where I = I and
      Q = "\<lambda>stack visited _. \<exists>r. ancestry_loop H E S s valid stack visited = Some r \<and> ?out r"])
    case (finish visited m)
    then show ?case by (simp add: ancestry_loop.simps I_def)
  next
    case (skip c rest visited m)
    have "ancestry_loop H E S s valid (c # rest) visited = ancestry_loop H E S s valid rest visited"
      using skip(1) by (subst ancestry_loop.simps) simp
    with skip(2) show ?case by simp
  next
    case (visit c rest visited m)
    show ?case
    proof (cases "load_verified H E S s c")
      case (Inl x)
      with visit(1,2) load_verified_Inl [OF Inl visit(1)] show ?thesis by (simp add: ancestry_loop.simps)
    next
      case (Inr n)
      from load_verified_Inr [OF this] have n: "?V c = Some n" "node_cid H E n = c" by auto
      show ?thesis
      proof (cases "valid c n")
        case True
        have step: "ancestry_loop H E S s valid (c # rest) visited =
            ancestry_loop H E S s valid (rev (children n) @ rest) (bs_insert c visited)"
          using Inr visit(2) True by (subst ancestry_loop.simps) simp
        have "I (bs_insert c visited) ()" using visit(3) n True by (simp add: I_def)
        then show ?thesis
          unfolding step by (intro visit(4)) (use n(1) in \<open>auto simp: kids_def\<close>)
      next
        case False
        then show ?thesis using Inr visit(1,2) n(1) by (auto simp: ancestry_loop.simps)
      qed
    qed
  qed
qed

lemma materialize_correct:
  assumes typed: "dag_typed (view s)"
  shows "\<exists>r. materialize H P S s roots = Some r \<and>
     search_result (store_raises S) H (pl_encode P) (view s) (set roots) r (\<lambda>st.
       st = dag_state P (view s |` ancestry (view s) (set roots)) \<and>
       intact H (pl_encode P) (view s) (ancestry (view s) (set roots)))"
proof -
  let ?V = "view s" and ?A = "ancestry (view s) (set roots)"
  from materialize_loop_correct [of H "pl_encode P" s roots] obtain r
    where r: "materialize_loop H (pl_encode P) S s (rev roots) [] [] = Some r"
      "search_result (store_raises S) H (pl_encode P) ?V (set roots) r
         (\<lambda>m. bt_wf m \<and> bt_get m = ?V |` ?A \<and> intact H (pl_encode P) ?V ?A)" by blast
  show ?thesis
  proof (cases r)
    case (Inl x)
    with r show ?thesis by (simp add: materialize_def)
  next
    case (Inr m)
    with r have m: "bt_wf m" "bt_get m = ?V |` ?A" "intact H (pl_encode P) ?V ?A" by simp_all
    have get: "bt_get m c = Some n" if "(c, n) \<in> set m" for c n
      using that bt_wf_distinct [OF m(1)] by (simp add: bt_get_def)
    then have "list_all (\<lambda>(c, n). distinct (children n)) m"
      using typed m(2) by (fastforce simp: list_all_iff dag_typed_def restrict_map_def bs_wf_distinct split: if_splits)
    then have "nodes_ok m" using m(1) by (simp add: nodes_ok_def)
    from topological_sort_kahn [OF this]
    have sort: "topological_sort m = Some (map (\<lambda>c. (c, the (bt_get m c))) (kahn_order (bt_get m) (map fst m)))" .
    have "sorted_list_of_set (dom (bt_get m)) = map fst m"
      unfolding dom_bt_get using m(1)
      by (intro sorted_list_of_set.idem_if_sorted_distinct) (auto simp: bt_wf_def strict_sorted_iff)
    with sort m(2) have "map_option (apply_nodes P) (topological_sort m) = Some (dag_state P (?V |` ?A))"
      by (simp add: dag_state_def)
    then show ?thesis using r(1) Inr m(3) by (auto simp: materialize_def)
  qed
qed

lemma stage_roots_correct:
  assumes acyc: "acyclic (edges (view s))" and typed: "dag_typed (view s)" and wf: "bs_wf roots"
  shows "\<exists>r. stage_roots H P S s valid roots = Some r \<and>
     (case r of Inr cs \<Rightarrow> staged_ok H P (view s) valid roots cs
      | Inl x \<Rightarrow> dag_ok H (pl_encode P) (view s) \<and> set roots \<subseteq> dom (view s) \<longrightarrow>
          (\<exists>e. x = StoreError e \<and> store_raises S e) \<or>
          x = InvalidAuthor \<and> (\<exists>c \<in> ancestry (view s) (set roots). \<exists>n. view s c = Some n \<and> \<not> valid c n))"
proof -
  let ?V = "view s" and ?E = "pl_encode P" and ?R = "set roots"
  from compact_roots_correct [OF acyc wf, of H ?E] obtain r
    where r: "compact_roots H ?E S s roots = Some r"
      "search_result (store_raises S) H ?E ?V ?R r (\<lambda>rs. bs_wf rs \<and> set rs = heads ?V ?R)" by blast
  show ?thesis
  proof (cases r)
    case (Inl x)
    with r show ?thesis by (auto simp: stage_roots_def)
  next
    case (Inr clock)
    with r have clock: "bs_wf clock" "set clock = heads ?V ?R" by simp_all
    then have anc: "ancestry ?V (set clock) = ancestry ?V ?R" using acyc by (simp add: ancestry_heads)
    have sub: "?R \<subseteq> dom ?V \<longrightarrow> set clock \<subseteq> dom ?V" using clock(2) heads_subset [of ?V ?R] by blast
    from ancestry_is_valid_correct [of H ?E s valid clock] obtain b
      where b: "ancestry_is_valid H ?E S s valid clock = Some b"
        "search_result (store_raises S) H ?E ?V (set clock) b (\<lambda>b.
           if b then intact H ?E ?V (ancestry ?V ?R) \<and> (\<forall>c \<in> ancestry ?V ?R. valid c (the (?V c)))
           else (\<exists>c \<in> ancestry ?V ?R. \<exists>n. ?V c = Some n \<and> \<not> valid c n))" unfolding anc by blast
    from materialize_correct [OF typed, of H P clock] obtain m
      where m: "materialize H P S s clock = Some m"
        "search_result (store_raises S) H ?E ?V (set clock) m (\<lambda>st. st = dag_state P (?V |` ancestry ?V ?R) \<and>
           intact H ?E ?V (ancestry ?V ?R))" unfolding anc by blast
    show ?thesis
    proof (cases b)
      case err: (Inl x)
      with r Inr b sub show ?thesis by (auto simp: stage_roots_def)
    next
      case checked: (Inr ok)
      show ?thesis
      proof (cases ok)
        case True
        with checked b r Inr m sub clock show ?thesis
          by (cases m) (auto simp: stage_roots_def staged_ok_def)
      next
        case False
        with checked b r Inr show ?thesis by (auto simp: stage_roots_def)
      qed
    qed
  qed
qed

end

section \<open>Replicas\<close>

text \<open>A replica in order: a sound store that holds the clock's roots, none of which leads to another,
  and the state of their ancestry.\<close>

definition replica_ok ::
  "'c::linorder hasher \<Rightarrow> ('p, 'st) payload_ops \<Rightarrow> ('s \<Rightarrow> ('c, 'p) dag) \<Rightarrow> ('c, 's, 'st) replica \<Rightarrow> bool" where
  "replica_ok H P view rp \<longleftrightarrow>
     (let V = view (rp_store rp); roots = set (rp_clock rp)
      in dag_ok H (pl_encode P) V \<and> bs_wf (rp_clock rp) \<and> roots \<subseteq> dom V \<and> heads V roots = roots \<and>
         rp_state rp = dag_state P (V |` ancestry V roots))"

lemma replica_okD:
  assumes "replica_ok H P view rp"
  shows "dag_ok H (pl_encode P) (view (rp_store rp))" "bs_wf (rp_clock rp)"
    "set (rp_clock rp) \<subseteq> dom (view (rp_store rp))"
    "heads (view (rp_store rp)) (set (rp_clock rp)) = set (rp_clock rp)"
    "rp_state rp = dag_state P (view (rp_store rp) |` ancestry (view (rp_store rp)) (set (rp_clock rp)))"
  using assms by (simp_all add: replica_ok_def Let_def)

lemma dag_state_empty: "dag_state P Map.empty = pl_default P"
  by (simp add: dag_state_def kahn_order_def apply_nodes_def)

lemma replica_new_ok:
  "dag_ok H (pl_encode P) (view s) \<Longrightarrow> replica_ok H P view (replica_new P s)"
  by (simp add: replica_ok_def replica_new_def clock_new_def heads_def dag_state_empty restrict_map_def)

text \<open>A store that grew keeps the replica in order.\<close>

lemma replica_ok_grow:
  assumes ok: "replica_ok H P view rp" and le: "view (rp_store rp) \<subseteq>\<^sub>m view s" and "dag_ok H (pl_encode P) (view s)"
  shows "replica_ok H P view (rp\<lparr>rp_store := s\<rparr>)"
proof -
  let ?V = "view (rp_store rp)" and ?W = "view s" and ?R = "set (rp_clock rp)"
  note rp = replica_okD [OF ok]
  have anc: "ancestry ?W ?R = ancestry ?V ?R" by (rule ancestry_submap [OF le rp(1,3)])
  have dom: "ancestry ?V ?R \<subseteq> dom ?V" by (rule ancestry_dom [OF rp(1,3)])
  have sub: "dom ?V \<subseteq> dom ?W" using le by (rule map_le_implies_dom_le)
  have agree: "agree ?W ?V" using le by (auto simp: agree_def map_le_def)
  have "heads ?W ?R = heads ?V ?R"
    by (rule heads_agree [OF agree anc refl]) (use dom sub in auto)
  moreover have "?W |` ancestry ?V ?R = ?V |` ancestry ?V ?R"
    by (rule restrict_agree [OF agree]) (use dom sub in auto)
  ultimately show ?thesis using rp assms(3) anc sub by (auto simp: replica_ok_def Let_def)
qed

lemma staged_replica_ok:
  assumes "staged_ok H P (view s) valid roots (clock, st)" and "dag_ok H (pl_encode P) (view s)" "set roots \<subseteq> dom (view s)"
  shows "replica_ok H P view \<lparr>rp_clock = clock, rp_store = s, rp_state = st\<rparr>"
proof -
  have clock: "set clock = heads (view s) (set roots)" using assms(1) by (simp add: staged_ok_def)
  then have "ancestry (view s) (set clock) = ancestry (view s) (set roots)"
    using dag_ok_acyclic [OF assms(2)] by (simp add: ancestry_heads)
  moreover have "set clock \<subseteq> dom (view s)" using clock assms(3) heads_subset [of "view s" "set roots"] by blast
  ultimately show ?thesis
    using assms clock by (simp add: replica_ok_def staged_ok_def heads_idem)
qed

section \<open>Storing what was fetched\<close>

lemma map_of_take_Suc:
  assumes "k < length ns"
  shows "V ++ map_of (rev (take (Suc k) ns)) =
    (V ++ map_of (rev (take k ns)))(fst (ns ! k) \<mapsto> snd (ns ! k))"
  using assms by (simp add: take_Suc_conv_app_nth)

lemma fetch_result_node:
  assumes res: "fetch_result H E LV RV root ns" and k: "k < length ns"
  shows "RV (fst (ns ! k)) = Some (snd (ns ! k))" "LV (fst (ns ! k)) = None"
    "node_cid H E (snd (ns ! k)) = fst (ns ! k)"
    "set (children (snd (ns ! k))) \<subseteq> dom LV \<union> set (map fst (take k ns))"
proof -
  let ?F = "fetched LV RV root" and ?c = "fst (ns ! k)" and ?n = "snd (ns ! k)"
  have dist: "distinct (map fst ns)" and causal: "inner_kids ?F ?c \<subseteq> set (map fst (take k ns))"
    and of: "map_of ns \<subseteq>\<^sub>m ?F" and dom: "ancestry (absent LV RV) {root} \<subseteq> dom LV \<union> dom RV"
    using res k by (simp_all add: fetch_result_def)
  have "(?c, ?n) \<in> set ns" using k by simp
  with dist have "map_of ns ?c = Some ?n" by simp
  with of have "?F ?c = Some ?n" by (metis domI map_le_def)
  then have n: "?c \<in> ancestry (absent LV RV) {root}" "absent LV RV ?c = Some ?n"
    by (auto simp: fetched_def split: if_splits)
  then show "RV ?c = Some ?n" "LV ?c = None" by (auto simp: absent_def split: if_splits)
  show "node_cid H E ?n = ?c" using res k by (auto simp: fetch_result_def list_all_iff case_prod_beta)
  show "set (children ?n) \<subseteq> dom LV \<union> set (map fst (take k ns))"
  proof
    fix d assume d: "d \<in> set (children ?n)"
    have "d \<in> ancestry (absent LV RV) {root}"
      by (rule ancestry_step [OF n(1)]) (use n(2) d in \<open>simp add: kids_def\<close>)
    with dom have "d \<in> dom LV \<or> d \<in> dom ?F" by (cases "d \<in> dom LV") (auto simp: fetched_def absent_def)
    moreover have "d \<in> inner_kids ?F ?c" if "d \<in> dom ?F"
      using that d \<open>?F ?c = Some ?n\<close> by (simp add: inner_kids_def kids_def)
    ultimately show "d \<in> dom LV \<union> set (map fst (take k ns))" using causal by auto
  qed
qed

lemma prefix_dag_ok:
  assumes ok: "dag_ok H E LV" and res: "fetch_result H E LV RV root ns" and typed: "dag_typed RV" and "k \<le> length ns"
  shows "dag_ok H E (LV ++ map_of (rev (take k ns)))"
  using assms(4)
proof (induction k)
  case (Suc k)
  then have k: "k < length ns" by simp
  let ?W = "LV ++ map_of (rev (take k ns))"
  have dom: "dom ?W = dom LV \<union> set (map fst (take k ns))" by (simp add: dom_map_of_conv_image_fst Un_commute)
  note node = fetch_result_node [OF res k]
  have "distinct (map fst ns)" using res by (simp add: fetch_result_def)
  then have "distinct (take (Suc k) (map fst ns))" by (rule distinct_take)
  then have "fst (ns ! k) \<notin> set (map fst (take k ns))" using k by (simp add: take_Suc_conv_app_nth take_map)
  then have "fst (ns ! k) \<notin> dom ?W" using node(2) unfolding dom by auto
  then have fresh: "?W (fst (ns ! k)) = None" by (simp only: domIff not_not)
  show ?case
    unfolding map_of_take_Suc [OF k]
  proof (rule dag_ok_insert)
    show "dag_ok H E ?W" using Suc by simp
    show "bs_wf (children (snd (ns ! k)))" using node(1) typed by (auto simp: dag_typed_def)
    show "set (children (snd (ns ! k))) \<subseteq> dom ?W" unfolding dom by (rule node(4))
  qed (rule fresh, rule node(3))
qed (use ok in simp)

lemma prefix_map_le:
  assumes res: "fetch_result H E LV RV root ns"
  shows "LV \<subseteq>\<^sub>m LV ++ map_of (rev (take k ns))"
proof -
  have "LV c = None" if "c \<in> set (map fst (take k ns))" for c
  proof -
    have "c \<in> set (map fst ns)" using that set_take_subset [of k ns] by auto
    then obtain i where "i < length ns" "c = fst (ns ! i)" by (auto simp: in_set_conv_nth [of _ "map fst ns"] simp del: set_map)
    then show ?thesis using fetch_result_node(2) [OF res] by simp
  qed
  then show ?thesis
    by (fastforce simp: map_le_def map_add_def dest!: map_of_SomeD split: option.splits)
qed

lemma prefix_source:
  assumes res: "fetch_result H E LV RV root ns" and "(LV ++ map_of (rev (take k ns))) c = Some n"
  shows "LV c = Some n \<or> RV c = Some n"
proof -
  from assms(2) consider "LV c = Some n" | "map_of (rev (take k ns)) c = Some n" by (auto simp: map_add_Some_iff)
  then show ?thesis
  proof cases
    case 2
    then have "(c, n) \<in> set ns" using set_take_subset [of k ns] by (auto dest!: map_of_SomeD)
    then obtain i where "i < length ns" "ns ! i = (c, n)" by (auto simp: in_set_conv_nth)
    with fetch_result_node(1) [OF res, of i] show ?thesis by simp
  qed simp
qed

end
