(* ===== verification/Merkle_Replica.thy ===== *)
theory Merkle_Replica
  imports Merkle_Crdt
begin

text \<open>
  What the replica operations of \<open>Merkle_Crdt\<close> do: every call returns, keeps a replica in
  order, and on an error leaves clock and state as they were; a synchronization joins the
  ancestries; replicas with the same ancestry have the same clock and the same state.
\<close>

section \<open>Recording an operation\<close>

lemma ancestry_single: "ancestry V {c} = insert c (ancestry V (kids V c))"
proof
  show "ancestry V {c} \<subseteq> insert c (ancestry V (kids V c))"
    by (rule ancestry_least) (use ancestry_refl [of "kids V c" V] in \<open>auto intro: ancestry_step\<close>)
  have "c \<in> ancestry V {c}" using ancestry_refl [of "{c}" V] by simp
  moreover from this have "kids V c \<subseteq> ancestry V {c}" by (auto dest: ancestry_step)
  ultimately show "insert c (ancestry V (kids V c)) \<subseteq> ancestry V {c}" using ancestry_idem by blast
qed

lemma ancestry_restrict:
  assumes "A = ancestry V R"
  shows "ancestry (V |` A) R = A"
proof -
  have kids: "kids (V |` A) c = kids V c" if "c \<in> A" for c using that by (simp add: kids_def)
  have sub: "ancestry (V |` A) R \<subseteq> A"
    unfolding assms by (rule ancestry_least [OF ancestry_refl])
      (auto simp: kids_def restrict_map_def intro: ancestry_step split: if_splits option.splits)
  have "ancestry V R \<subseteq> ancestry (V |` A) R"
  proof (rule ancestry_least [OF ancestry_refl])
    fix c d assume c: "c \<in> ancestry (V |` A) R" and d: "d \<in> kids V c"
    with sub kids have "d \<in> kids (V |` A) c" by auto
    with c show "d \<in> ancestry (V |` A) R" by (rule ancestry_step)
  qed
  with sub assms show ?thesis by auto
qed

lemma cycle_ancestry:
  assumes "acyclic (edges V)" and "c \<in> ancestry V (kids V c)"
  shows False
proof -
  from assms(2) obtain d where "d \<in> kids V c" "(d, c) \<in> (edges V)\<^sup>*" by (auto simp: ancestry_def)
  then have "(c, c) \<in> (edges V)\<^sup>+" by (intro rtrancl_into_trancl2 [of c d]) (simp_all add: edges_def)
  with assms(1) show False by (simp add: acyclic_def)
qed

lemma recorded_dag_ok:
  assumes ok: "dag_ok H E V" and n: "node_cid H E n = c" "bs_wf (children n)" "set (children n) \<subseteq> dom V"
    and same: "\<And>m. V c = Some m \<Longrightarrow> m = n"
  shows "dag_ok H E (V(c \<mapsto> n))" "V \<subseteq>\<^sub>m V(c \<mapsto> n)"
proof -
  show "dag_ok H E (V(c \<mapsto> n))"
  proof (cases "V c")
    case None
    then show ?thesis by (rule dag_ok_insert [OF ok _ n])
  next
    case (Some m)
    then have "V(c \<mapsto> n) = V" using same by (simp add: fun_upd_idem)
    with ok show ?thesis by simp
  qed
  show "V \<subseteq>\<^sub>m V(c \<mapsto> n)" using same by (auto simp: map_le_def)
qed

text \<open>The new node, above all roots of a replica in order.\<close>

lemma recorded_tops:
  fixes V :: "('c::linorder, 'p) dag"
  assumes ok: "dag_ok H E (V(c \<mapsto> n))" and A: "A = ancestry V (set (children n))" "A \<subseteq> dom V"
    and le: "V \<subseteq>\<^sub>m V(c \<mapsto> n)" and okV: "dag_ok H E V" and sub: "set (children n) \<subseteq> dom V"
  shows "tops (V |` A) c n"
proof -
  have c: "c \<notin> A"
  proof
    assume "c \<in> A"
    then have "c \<in> ancestry (V(c \<mapsto> n)) (kids (V(c \<mapsto> n)) c)"
      using ancestry_submap [OF le okV sub] by (simp add: A(1) kids_def)
    then show False by (rule cycle_ancestry [OF dag_ok_acyclic [OF ok]])
  qed
  moreover have "c \<notin> kids (V |` A) d" for d
    using c ancestry_step [of d V "set (children n)" c]
    by (auto simp: A(1) kids_def restrict_map_def split: if_splits option.splits)
  moreover have roots: "set (children n) \<subseteq> A" unfolding A(1) by (rule ancestry_refl)
  moreover have "dom (V |` A) = A" using A(2) by auto
  ultimately show ?thesis using ancestry_restrict [OF A(1)] by (auto simp: tops_def Int_absorb2)
qed

definition new_node :: "'p \<Rightarrow> ('c, 's, 'st) replica \<Rightarrow> ('c, 'p) dag_node" where
  "new_node op rp = \<lparr>payload = op, children = rp_clock rp\<rparr>"

lemma recorded_replica_ok:
  assumes ok: "replica_ok H P view rp" and c: "c = node_cid H (pl_encode P) (new_node op rp)"
    and same: "\<And>m. view (rp_store rp) c = Some m \<Longrightarrow> m = new_node op rp"
    and view: "view s = (view (rp_store rp))(c \<mapsto> new_node op rp)"
  shows "replica_ok H P view (rp\<lparr>rp_clock := [c], rp_store := s, rp_state := pl_apply P (rp_state rp) op\<rparr>)"
    and "view (rp_store rp) \<subseteq>\<^sub>m view s"
    and "ancestry (view s) {c} = insert c (ancestry (view (rp_store rp)) (set (rp_clock rp)))"
proof -
  let ?V = "view (rp_store rp)" and ?n = "new_node op rp" and ?R = "set (rp_clock rp)"
  let ?A = "ancestry ?V ?R"
  note rp = replica_okD [OF ok]
  have kids: "children ?n = rp_clock rp" "payload ?n = op" by (simp_all add: new_node_def)
  have "bs_wf (children ?n)" "set (children ?n) \<subseteq> dom ?V" using rp(2,3) by (simp_all add: kids)
  note W = recorded_dag_ok [OF rp(1) c [symmetric] this same]
  show le: "?V \<subseteq>\<^sub>m view s" using W(2) view by simp
  show anc: "ancestry (view s) {c} = insert c ?A"
    using ancestry_submap [OF W(2) rp(1,3)] unfolding view by (subst ancestry_single) (simp add: kids_def kids)
  have dom: "?A \<subseteq> dom ?V" by (rule ancestry_dom [OF rp(1,3)])
  have top: "tops (?V |` ?A) c ?n"
    by (rule recorded_tops [OF W(1) _ dom W(2) rp(1)]) (use rp(3) in \<open>simp_all add: kids\<close>)
  have "view s |` insert c ?A = (?V |` ?A)(c \<mapsto> ?n)"
    unfolding view by (auto simp: restrict_map_def fun_eq_iff)
  moreover have "acyclic (edges (?V |` ?A))"
    by (rule acyclic_subset [OF dag_ok_acyclic [OF rp(1)]])
       (auto simp: edges_def kids_def restrict_map_def split: if_splits option.splits)
  moreover have "finite (dom (?V |` ?A))"
    by (rule finite_subset [OF _ dag_ok_finite [OF rp(1)]]) auto
  ultimately have "dag_state P (view s |` insert c ?A) = pl_apply P (rp_state rp) op"
    using dag_state_tops [OF top, of P] rp(5) kids(2) by simp
  moreover have "heads (view s) {c} = {c}"
    using dag_ok_acyclic [OF W(1)] unfolding view by (auto simp: heads_def acyclic_def)
  moreover have "dag_ok H (pl_encode P) (view s)" using W(1) view by simp
  ultimately show "replica_ok H P view (rp\<lparr>rp_clock := [c], rp_store := s, rp_state := pl_apply P (rp_state rp) op\<rparr>)"
    using anc view by (simp add: replica_ok_def bs_wf_def)
qed

lemma replica_apply_correct:
  assumes S: "dag_store S view" and ok: "replica_ok H P view rp"
    and same: "\<And>m. view (rp_store rp) (node_cid H (pl_encode P) (new_node op rp)) = Some m \<Longrightarrow> m = new_node op rp"
    and run: "replica_apply H P S op rp = (r, rp')"
  shows "replica_ok H P view rp' \<and> view (rp_store rp) \<subseteq>\<^sub>m view (rp_store rp') \<and>
    (case r of
       Inr cid \<Rightarrow> rp_clock rp' = [cid] \<and> rp_state rp' = pl_apply P (rp_state rp) op \<and>
         view (rp_store rp') cid = Some (new_node op rp) \<and>
         ancestry (view (rp_store rp')) {cid} = insert cid (ancestry (view (rp_store rp)) (set (rp_clock rp)))
     | Inl x \<Rightarrow> (\<exists>e. x = StoreError e \<and> store_raises S e) \<and> rp_clock rp' = rp_clock rp \<and> rp_state rp' = rp_state rp)"
proof -
  let ?V = "view (rp_store rp)" and ?n = "new_node op rp"
  let ?c = "node_cid H (pl_encode P) ?n"
  show ?thesis
  proof (cases "sto_put S (rp_store rp) ?c ?n")
    case (Pair put s)
    show ?thesis
    proof (cases put)
      case (Inl e)
      with Pair have "view s = ?V \<or> view s = ?V(?c \<mapsto> ?n)" using dag_store.put_err [OF S] by blast
      then have s: "dag_ok H (pl_encode P) (view s)" "?V \<subseteq>\<^sub>m view s"
        using replica_okD(1) [OF ok] recorded_replica_ok(1,2) [OF ok refl same] replica_okD(1) by fastforce+
      then have "replica_ok H P view (rp\<lparr>rp_store := s\<rparr>)" by (intro replica_ok_grow [OF ok])
      with Inl Pair run s(2) show ?thesis
        by (auto simp: replica_apply_def record_event_def Let_def new_node_def intro: store_raisesI)
    next
      case (Inr u)
      with Pair have view: "view s = ?V(?c \<mapsto> ?n)" by (simp add: dag_store.put_ok [OF S])
      have "r = Inr ?c" "rp' = rp\<lparr>rp_clock := [?c], rp_store := s, rp_state := pl_apply P (rp_state rp) op\<rparr>"
        using Inr Pair run by (auto simp: replica_apply_def record_event_def Let_def new_node_def)
      moreover have "view s ?c = Some ?n" by (simp add: view)
      ultimately show ?thesis using recorded_replica_ok [OF ok refl same view] by simp
    qed
  qed
qed

section \<open>Synchronizing\<close>

text \<open>The outcome of a synchronization from a remote store.\<close>

definition sync_outcome ::
  "('l \<Rightarrow> bool) \<Rightarrow> ('r \<Rightarrow> bool) \<Rightarrow> 'c::linorder hasher \<Rightarrow> ('p, 'st) payload_ops \<Rightarrow> ('s \<Rightarrow> ('c, 'p) dag) \<Rightarrow> ('c, 'p) dag \<Rightarrow> ('c, 'p) validator \<Rightarrow> 'c
     \<Rightarrow> ('c, 's, 'st) replica \<Rightarrow> ('l, 'r) sync_error + unit \<Rightarrow> ('c, 's, 'st) replica \<Rightarrow> bool" where
  "sync_outcome F G H P view RV valid root rp r rp' \<longleftrightarrow>
     (let V = view (rp_store rp); V' = view (rp_store rp')
      in replica_ok H P view rp' \<and> V \<subseteq>\<^sub>m V' \<and> (\<forall>c n. V' c = Some n \<longrightarrow> V c = Some n \<or> RV c = Some n) \<and>
         (case r of
            Inr _ \<Rightarrow> V' = V ++ fetched V RV root \<and> root \<in> dom V' \<and>
              ancestry V' (set (rp_clock rp')) = ancestry V (set (rp_clock rp)) \<union> ancestry V' {root} \<and>
              (\<forall>c \<in> ancestry V' (set (rp_clock rp')). valid c (the (V' c)))
          | Inl x \<Rightarrow> rp_clock rp' = rp_clock rp \<and> rp_state rp' = rp_state rp \<and>
              (dag_ok H (pl_encode P) RV \<and> root \<in> dom RV \<longrightarrow>
                 (\<exists>e. x = SyncLocal e \<and> F e) \<or> (\<exists>e. x = SyncRemote e \<and> G e) \<or>
                 x = SyncInvalidAuthor \<and> (\<exists>c n. (V c = Some n \<or> RV c = Some n) \<and> \<not> valid c n))))"

lemma fetched_full:
  assumes "fetch_result H E V RV root ns"
  shows "map_of (rev ns) = map_of ns" "V \<subseteq>\<^sub>m V ++ fetched V RV root" "root \<in> dom (V ++ fetched V RV root)"
proof -
  have "distinct (map fst ns)" using assms by (simp add: fetch_result_def)
  then show "map_of (rev ns) = map_of ns" by (simp add: map_of_inject_set rev_map [symmetric])
  show "V \<subseteq>\<^sub>m V ++ fetched V RV root"
    by (auto simp: map_le_def map_add_def fetched_def absent_def split: option.splits)
  have "root \<in> ancestry (absent V RV) {root}" using ancestry_refl by fastforce
  with assms have "root \<in> dom V \<or> root \<in> dom RV" by (auto simp: fetch_result_def)
  with \<open>root \<in> ancestry (absent V RV) {root}\<close> show "root \<in> dom (V ++ fetched V RV root)"
    by (cases "root \<in> dom V") (auto simp: fetched_def absent_def)
qed

text \<open>A transfer after which the store is in order and holds the root was complete.\<close>

lemma fetch_result_complete:
  assumes res: "fetch_result H E V RV root ns" and ok: "dag_ok H E (V ++ map_of ns)" and root: "root \<in> dom (V ++ map_of ns)"
  shows "map_of ns = fetched V RV root"
proof -
  let ?W = "V ++ map_of ns" and ?F = "fetched V RV root"
  have le: "map_of ns \<subseteq>\<^sub>m ?F" using res by (simp add: fetch_result_def)
  have "ancestry (absent V RV) {root} \<subseteq> dom ?W \<inter> ancestry (absent V RV) {root}"
  proof (rule ancestry_least)
    show "{root} \<subseteq> dom ?W \<inter> ancestry (absent V RV) {root}" using root ancestry_refl [of "{root}"] by auto
    fix c d assume c: "c \<in> dom ?W \<inter> ancestry (absent V RV) {root}" and d: "d \<in> kids (absent V RV) c"
    then obtain n where n: "absent V RV c = Some n" "d \<in> set (children n)" by (auto simp: kids_def split: option.splits)
    then have "c \<notin> dom V" by (auto simp: absent_def split: if_splits)
    with c have "c \<in> dom (map_of ns)" by auto
    then have "map_of ns c = ?F c" using le by (simp add: map_le_def)
    then have "?W c = Some n" using n(1) c by (simp add: fetched_def map_add_Some_iff)
    from dag_ok_node(2) [OF ok this] have "d \<in> dom ?W" using n(2) by (rule subsetD)
    then show "d \<in> dom ?W \<inter> ancestry (absent V RV) {root}" using ancestry_step [of c] c d by blast
  qed
  then have "c \<in> dom (map_of ns)" if "?F c = Some n" for c n
    using that by (auto simp: fetched_def absent_def split: if_splits)
  then show ?thesis using le by (intro map_le_antisym) (auto simp: map_le_def)
qed

lemma staged_sync_error:
  assumes ok: "replica_ok H P view rp" and okS: "dag_ok H (pl_encode P) (view s)"
    and le: "view (rp_store rp) \<subseteq>\<^sub>m view s" and src: "\<And>c n. view s c = Some n \<Longrightarrow> view (rp_store rp) c = Some n \<or> RV c = Some n"
    and x: "dag_ok H (pl_encode P) RV \<and> root \<in> dom RV \<Longrightarrow>
      (\<exists>e. x = StoreError e \<and> F e) \<or> x = InvalidAuthor \<and> (\<exists>c n. view s c = Some n \<and> \<not> valid c n)"
  shows "sync_outcome F G H P view RV valid root rp (Inl (map_local_error x)) (rp\<lparr>rp_store := s\<rparr>)"
proof -
  let ?V = "view (rp_store rp)"
  have "(\<exists>e. map_local_error x = SyncLocal e \<and> F e) \<or> (map_local_error x = SyncInvalidAuthor \<and>
      (\<exists>c n. (?V c = Some n \<or> RV c = Some n) \<and> \<not> valid c n))" if "dag_ok H (pl_encode P) RV \<and> root \<in> dom RV"
  proof -
    from x [OF that] consider e where "x = StoreError e" "F e" | c n where "x = InvalidAuthor" "view s c = Some n" "\<not> valid c n"
      by auto
    then show ?thesis by cases (use src in auto)
  qed
  then show ?thesis using replica_ok_grow [OF ok le okS] le src by (simp add: sync_outcome_def Let_def) blast
qed

lemma staged_sync_ok:
  assumes ok: "replica_ok H P view rp" and okS: "dag_ok H (pl_encode P) (view s)"
    and le: "view (rp_store rp) \<subseteq>\<^sub>m view s" and src: "\<And>c n. view s c = Some n \<Longrightarrow> view (rp_store rp) c = Some n \<or> RV c = Some n"
    and view: "view s = view (rp_store rp) ++ fetched (view (rp_store rp)) RV root"
    and root: "root \<in> dom (view s)" and roots: "set roots = insert root (set (rp_clock rp))" "set roots \<subseteq> dom (view s)"
    and st: "staged_ok H P (view s) valid roots (clock, st)"
  shows "sync_outcome F G H P view RV valid root rp (Inr ()) (rp\<lparr>rp_clock := clock, rp_store := s, rp_state := st\<rparr>)"
proof -
  let ?V = "view (rp_store rp)"
  note rp = replica_okD [OF ok]
  have "replica_ok H P view (rp\<lparr>rp_clock := clock, rp_store := s, rp_state := st\<rparr>)"
    using staged_replica_ok [where view = view and s = s, OF st okS roots(2)] by (cases rp) simp
  moreover have anc: "ancestry (view s) (set clock) = ancestry (view s) (set roots)"
    using st dag_ok_acyclic [OF okS] by (simp add: staged_ok_def ancestry_heads)
  then have "ancestry (view s) (set clock) = ancestry ?V (set (rp_clock rp)) \<union> ancestry (view s) {root}"
    unfolding roots(1) ancestry_submap [OF le rp(1,3), symmetric] ancestry_Un [symmetric] by (simp add: Un_commute)
  moreover have "\<forall>c \<in> ancestry (view s) (set clock). valid c (the (view s c))"
    using st unfolding anc by (simp add: staged_ok_def)
  ultimately show ?thesis
    unfolding sync_outcome_def Let_def using le view root src by (simp add: ball_simps)
qed

lemma stored_sync_correct:
  assumes L: "dag_store S view" and ok: "replica_ok H P view rp" and typed: "dag_typed RV"
    and f: "fetch_missing H (pl_encode P) S (rp_store rp) T remote root = Some (Inr ns)"
    and ns: "fetch_result H (pl_encode P) (view (rp_store rp)) RV root ns" and valid: "\<not> list_ex (\<lambda>(c, n). \<not> valid c n) ns"
  shows "\<exists>r rp'. sync_validated H P S T valid root remote rp = Some (r, rp') \<and> sync_outcome (store_raises S) (store_raises T) H P view RV valid root rp r rp'"
proof -
  let ?V = "view (rp_store rp)" and ?E = "pl_encode P" and ?roots = "add_roots [root] (rp_clock rp)"
  note rp = replica_okD [OF ok]
  obtain b s where b: "sto_put_batch S (rp_store rp) ns = (b, s)" by (cases "sto_put_batch S (rp_store rp) ns")
  from dag_store.batch [OF L b] obtain k where k: "k \<le> length ns" "view s = ?V ++ map_of (rev (take k ns))"
    "b = Inr () \<longrightarrow> k = length ns" by blast
  have okS: "dag_ok H ?E (view s)" unfolding k(2) by (rule prefix_dag_ok [OF rp(1) ns typed k(1)])
  have le: "?V \<subseteq>\<^sub>m view s" unfolding k(2) by (rule prefix_map_le [OF ns])
  have src: "\<And>c n. view s c = Some n \<Longrightarrow> ?V c = Some n \<or> RV c = Some n"
    unfolding k(2) by (rule prefix_source [OF ns])
  show ?thesis
  proof (cases b)
    case (Inl e)
    with src f valid b replica_ok_grow [OF ok le okS] le show ?thesis
      by (auto simp: sync_validated_def sync_outcome_def intro: store_raisesI)
  next
    case (Inr u)
    with k fetched_full(1) [OF ns] have view: "view s = ?V ++ map_of ns" by simp
    have roots: "set ?roots = insert root (set (rp_clock rp))" "bs_wf ?roots" using rp(2) by (simp_all add: add_roots_def)
    have dom: "set ?roots \<subseteq> dom (view s)" if "root \<in> dom (view s)"
      using that roots(1) rp(3) map_le_implies_dom_le [OF le] by auto
    have honest: "root \<in> dom (view s)" if "dag_ok H ?E RV"
      using fetched_full(3) [OF ns] fetch_result_causal(1) [OF ns dag_ok_acyclic [OF that]] view by simp
    from dag_store.stage_roots_correct [OF L dag_ok_acyclic [OF okS] dag_ok_typed [OF okS] roots(2), of H P valid]
    obtain r where r: "stage_roots H P S s valid ?roots = Some r" "case r of Inr cs \<Rightarrow> staged_ok H P (view s) valid ?roots cs
        | Inl x \<Rightarrow> dag_ok H ?E (view s) \<and> set ?roots \<subseteq> dom (view s) \<longrightarrow> (\<exists>e. x = StoreError e \<and> store_raises S e) \<or>
            x = InvalidAuthor \<and> (\<exists>c \<in> ancestry (view s) (set ?roots). \<exists>n. view s c = Some n \<and> \<not> valid c n)"
      by blast
    show ?thesis
    proof (cases r)
      case err: (Inl x)
      then have "sync_outcome (store_raises S) (store_raises T) H P view RV valid root rp (Inl (map_local_error x)) (rp\<lparr>rp_store := s\<rparr>)"
        by (intro staged_sync_error [OF ok okS le src]) (use r(2) okS dom honest in auto)
      with err r(1) f valid b Inr show ?thesis by (simp add: sync_validated_def)
    next
      case ready: (Inr cs)
      obtain clock st where cs: "cs = (clock, st)" by (cases cs)
      with r ready have st: "staged_ok H P (view s) valid ?roots (clock, st)" by simp
      then have root: "root \<in> dom (view s)"
        using intact_dom [of H ?E "view s"] ancestry_refl [of "set ?roots" "view s"] roots(1) by (fastforce simp: staged_ok_def)
      have full: "view s = ?V ++ fetched ?V RV root"
        unfolding view using fetch_result_complete [OF ns] okS root view by simp
      from staged_sync_ok [OF ok okS le src full root roots(1) dom [OF root] st]
      show ?thesis using ready cs r(1) f valid b Inr by (simp add: sync_validated_def)
    qed
  qed
qed

lemma sync_validated_correct:
  assumes L: "dag_store S view" and R: "dag_store T rview" and ok: "replica_ok H P view rp"
    and typed: "dag_typed (rview remote)"
  shows "\<exists>r rp'. sync_validated H P S T valid root remote rp = Some (r, rp') \<and>
    sync_outcome (store_raises S) (store_raises T) H P view (rview remote) valid root rp r rp'"
proof -
  let ?V = "view (rp_store rp)" and ?RV = "rview remote" and ?E = "pl_encode P"
  note rp = replica_okD [OF ok]
  from fetch_missing_correct [OF L R typed, of H ?E "rp_store rp" root] obtain f
    where f: "fetch_missing H ?E S (rp_store rp) T remote root = Some f"
      "case f of Inr ns \<Rightarrow> fetch_result H ?E ?V ?RV root ns
       | Inl x \<Rightarrow> dag_ok H ?E ?RV \<and> root \<in> dom ?RV \<longrightarrow>
           (\<exists>e. x = SyncLocal e \<and> store_raises S e) \<or> (\<exists>e. x = SyncRemote e \<and> store_raises T e)" by blast
  show ?thesis
  proof (cases f)
    case (Inl x)
    with f ok show ?thesis by (auto simp: sync_validated_def sync_outcome_def)
  next
    case (Inr ns)
    with f have ns: "fetch_result H ?E ?V ?RV root ns" by simp
    show ?thesis
    proof (cases "list_ex (\<lambda>(c, n). \<not> valid c n) ns")
      case True
      then obtain k where k: "k < length ns" "\<not> valid (fst (ns ! k)) (snd (ns ! k))"
        by (auto simp: list_ex_length case_prod_beta)
      with fetch_result_node(1) [OF ns k(1)] True f Inr ok show ?thesis
        by (auto simp: sync_validated_def sync_outcome_def)
    next
      case False
      show ?thesis by (rule stored_sync_correct [OF L ok typed f(1) [unfolded Inr] ns False])
    qed
  qed
qed

section \<open>Recovery\<close>

text \<open>Recovering from the roots of a replica in order gives that replica back.\<close>

lemma rebuild_state_correct:
  assumes S: "dag_store S view" and ok: "replica_ok H P view rp"
  shows "\<exists>r. rebuild_state H P S rp = Some (r, rp) \<and>
    (case r of Inr _ \<Rightarrow> True | Inl x \<Rightarrow> \<exists>e. x = StoreError e \<and> store_raises S e)"
proof -
  note rp = replica_okD [OF ok]
  from dag_store.materialize_correct [OF S dag_ok_typed [OF rp(1)], of H P "rp_clock rp"] obtain r
    where r: "materialize H P S (rp_store rp) (rp_clock rp) = Some r"
      "search_result (store_raises S) H (pl_encode P) (view (rp_store rp)) (set (rp_clock rp)) r
         (\<lambda>st. st = rp_state rp \<and>
           intact H (pl_encode P) (view (rp_store rp)) (ancestry (view (rp_store rp)) (set (rp_clock rp))))"
    unfolding rp(5) [symmetric] by blast
  with rp(1,3) show ?thesis by (cases r) (auto simp: rebuild_state_def)
qed

lemma from_roots_correct:
  assumes S: "dag_store S view" and acyc: "acyclic (edges (view s))" and typed: "dag_typed (view s)"
  shows "\<exists>r. from_roots_validated H P S valid s roots = Some r \<and>
    (case r of
       Inr rp \<Rightarrow> rp_store rp = s \<and> bs_wf (rp_clock rp) \<and> set (rp_clock rp) = heads (view s) (set roots) \<and>
         intact H (pl_encode P) (view s) (ancestry (view s) (set roots)) \<and>
         (\<forall>c \<in> ancestry (view s) (set roots). valid c (the (view s c))) \<and>
         rp_state rp = dag_state P (view s |` ancestry (view s) (set roots))
     | Inl x \<Rightarrow> dag_ok H (pl_encode P) (view s) \<and> set roots \<subseteq> dom (view s) \<longrightarrow>
         (\<exists>e. x = StoreError e \<and> store_raises S e) \<or>
         x = InvalidAuthor \<and> (\<exists>c \<in> ancestry (view s) (set roots). \<exists>n. view s c = Some n \<and> \<not> valid c n))"
proof -
  let ?roots = "add_roots roots clock_new"
  have roots: "set ?roots = set roots" "bs_wf ?roots" by (simp_all add: add_roots_def clock_new_def)
  from dag_store.stage_roots_correct [OF S acyc typed roots(2), of H P valid, unfolded roots(1)] obtain r
    where r: "stage_roots H P S s valid ?roots = Some r"
      "case r of Inr cs \<Rightarrow> staged_ok H P (view s) valid ?roots cs
       | Inl x \<Rightarrow> dag_ok H (pl_encode P) (view s) \<and> set roots \<subseteq> dom (view s) \<longrightarrow>
           (\<exists>e. x = StoreError e \<and> store_raises S e) \<or>
           x = InvalidAuthor \<and> (\<exists>c \<in> ancestry (view s) (set roots). \<exists>n. view s c = Some n \<and> \<not> valid c n)" by blast
  show ?thesis
  proof (cases r)
    case (Inl x)
    with r show ?thesis by (simp add: from_roots_validated_def)
  next
    case (Inr cs)
    with r show ?thesis by (cases cs) (simp add: from_roots_validated_def staged_ok_def roots(1))
  qed
qed

section \<open>Convergence\<close>

lemma replicas_converge:
  assumes a: "replica_ok H P va a" and b: "replica_ok H P vb b"
    and agree: "agree (va (rp_store a)) (vb (rp_store b))"
    and anc: "ancestry (va (rp_store a)) (set (rp_clock a)) = ancestry (vb (rp_store b)) (set (rp_clock b))"
  shows "rp_clock a = rp_clock b" "rp_state a = rp_state b"
proof -
  let ?V = "va (rp_store a)" and ?W = "vb (rp_store b)"
  let ?A = "ancestry ?W (set (rp_clock b))"
  note A = replica_okD [OF a] and B = replica_okD [OF b]
  have dom: "?A \<subseteq> dom ?V" "?A \<subseteq> dom ?W"
    using ancestry_dom [OF A(1,3)] ancestry_dom [OF B(1,3)] anc by auto
  have "heads ?V (set (rp_clock a)) = heads ?W (set (rp_clock b))" by (rule heads_agree [OF agree anc refl dom])
  then have "set (rp_clock a) = set (rp_clock b)" using A(4) B(4) by simp
  then show "rp_clock a = rp_clock b" by (rule bs_wf_ext [OF A(2) B(2)])
  show "rp_state a = rp_state b" using A(5) B(5) anc restrict_agree [OF agree dom] by simp
qed

text \<open>The roots of a peer, one after the other, until an error.\<close>

fun sync_roots ::
  "'c::linorder hasher \<Rightarrow> ('p, 'st) payload_ops \<Rightarrow> ('c, 'p, 's, 'l) store_ops \<Rightarrow> ('c, 'p, 't, 'r) store_ops \<Rightarrow> 't \<Rightarrow> 'c list
     \<Rightarrow> ('c, 's, 'st) replica \<Rightarrow> ((('l, 'r) sync_error + unit) \<times> ('c, 's, 'st) replica) option" where
  "sync_roots H P S T remote [] rp = Some (Inr (), rp)"
| "sync_roots H P S T remote (q # qs) rp =
     (case replica_sync H P S T q remote rp of
        Some (Inr _, rp') \<Rightarrow> sync_roots H P S T remote qs rp'
      | stopped \<Rightarrow> stopped)"

lemma fetched_agree: "agree V RV \<Longrightarrow> agree (V ++ fetched V RV root) RV"
  by (auto simp: agree_def fetched_def absent_def map_add_def split: option.splits if_splits)

lemma replica_sync_honest:
  assumes S: "dag_store S view" and T: "dag_store T rview" and ok: "replica_ok H P view rp"
    and RV: "dag_ok H (pl_encode P) (rview remote)" and root: "root \<in> dom (rview remote)"
    and agree: "agree (view (rp_store rp)) (rview remote)"
  shows "\<exists>r rp'. replica_sync H P S T root remote rp = Some (r, rp') \<and> replica_ok H P view rp' \<and>
    view (rp_store rp) \<subseteq>\<^sub>m view (rp_store rp') \<and>
    (case r of
       Inr _ \<Rightarrow> agree (view (rp_store rp')) (rview remote) \<and>
         ancestry (view (rp_store rp')) (set (rp_clock rp')) =
         ancestry (view (rp_store rp)) (set (rp_clock rp)) \<union> ancestry (rview remote) {root}
     | Inl x \<Rightarrow> (\<exists>e. x = SyncLocal e \<and> store_raises S e) \<or> (\<exists>e. x = SyncRemote e \<and> store_raises T e))"
proof -
  let ?V = "view (rp_store rp)" and ?RV = "rview remote"
  from sync_validated_correct [OF S T ok dag_ok_typed [OF RV], of accept_all root]
  obtain r rp' where run: "replica_sync H P S T root remote rp = Some (r, rp')"
    and out: "sync_outcome (store_raises S) (store_raises T) H P view ?RV accept_all root rp r rp'"
    by (auto simp: replica_sync_def)
  then have le: "?V \<subseteq>\<^sub>m view (rp_store rp')" by (simp only: sync_outcome_def Let_def)
  show ?thesis
  proof (cases r)
    case (Inl x)
    with run out RV root show ?thesis by (auto simp: sync_outcome_def accept_all_def Let_def)
  next
    case (Inr u)
    let ?V' = "view (rp_store rp')"
    from out [unfolded sync_outcome_def Let_def Inr sum.case] have V': "?V' = ?V ++ fetched ?V ?RV root" "root \<in> dom ?V'" "replica_ok H P view rp'"
      "ancestry ?V' (set (rp_clock rp')) = ancestry ?V (set (rp_clock rp)) \<union> ancestry ?V' {root}"
      by blast+
    have ag: "agree ?V' ?RV" unfolding V'(1) by (rule fetched_agree [OF agree])
    have "ancestry ?V' {root} = ancestry ?RV {root}"
      by (rule ancestry_agree [OF ag replica_okD(1) [OF V'(3)] RV]) (use V'(2) root in simp)
    with run Inr V'(3,4) ag le show ?thesis by simp
  qed
qed

lemma sync_roots_honest:
  assumes S: "dag_store S view" and T: "dag_store T rview"
    and RV: "dag_ok H (pl_encode P) (rview remote)" and "set qs \<subseteq> dom (rview remote)"
    and "replica_ok H P view rp" "agree (view (rp_store rp)) (rview remote)"
  shows "\<exists>r rp'. sync_roots H P S T remote qs rp = Some (r, rp') \<and> replica_ok H P view rp' \<and>
    view (rp_store rp) \<subseteq>\<^sub>m view (rp_store rp') \<and>
    (case r of
       Inr _ \<Rightarrow> agree (view (rp_store rp')) (rview remote) \<and>
         ancestry (view (rp_store rp')) (set (rp_clock rp')) =
         ancestry (view (rp_store rp)) (set (rp_clock rp)) \<union> ancestry (rview remote) (set qs)
     | Inl x \<Rightarrow> (\<exists>e. x = SyncLocal e \<and> store_raises S e) \<or> (\<exists>e. x = SyncRemote e \<and> store_raises T e))"
  using assms(4-)
proof (induction qs arbitrary: rp)
  case (Cons q qs)
  have "q \<in> dom (rview remote)" using Cons.prems(1) by simp
  from replica_sync_honest [OF S T Cons.prems(2) RV this Cons.prems(3)] obtain r rp1
    where one: "replica_sync H P S T q remote rp = Some (r, rp1)" "replica_ok H P view rp1"
      "view (rp_store rp) \<subseteq>\<^sub>m view (rp_store rp1)"
      "case r of
         Inr _ \<Rightarrow> agree (view (rp_store rp1)) (rview remote) \<and>
           ancestry (view (rp_store rp1)) (set (rp_clock rp1)) =
           ancestry (view (rp_store rp)) (set (rp_clock rp)) \<union> ancestry (rview remote) {q}
       | Inl x \<Rightarrow> (\<exists>e. x = SyncLocal e \<and> store_raises S e) \<or> (\<exists>e. x = SyncRemote e \<and> store_raises T e)" by blast
  show ?case
  proof (cases r)
    case (Inl x)
    with one show ?thesis by simp
  next
    case (Inr u)
    with one Cons.IH [OF _ one(2)] Cons.prems(1) obtain r' rp2
      where rest: "sync_roots H P S T remote qs rp1 = Some (r', rp2)" "replica_ok H P view rp2"
        "view (rp_store rp1) \<subseteq>\<^sub>m view (rp_store rp2)"
        "case r' of
           Inr _ \<Rightarrow> agree (view (rp_store rp2)) (rview remote) \<and>
             ancestry (view (rp_store rp2)) (set (rp_clock rp2)) =
             ancestry (view (rp_store rp1)) (set (rp_clock rp1)) \<union> ancestry (rview remote) (set qs)
         | Inl x \<Rightarrow> (\<exists>e. x = SyncLocal e \<and> store_raises S e) \<or> (\<exists>e. x = SyncRemote e \<and> store_raises T e)" by auto
    have "ancestry (rview remote) (set (q # qs)) = ancestry (rview remote) {q} \<union> ancestry (rview remote) (set qs)"
      by (simp add: ancestry_Un [symmetric])
    with one rest map_le_trans [OF one(3) rest(3)] Inr show ?thesis by (cases r') auto
  qed
qed simp

section \<open>The abstract replica: a set of events\<close>

text \<open>Abstractly a replica is the events it has seen. Its roots are the events no other has as a
  child; recording adds an event above the roots; synchronizing is the union.\<close>

definition events :: "('s \<Rightarrow> ('c, 'p) dag) \<Rightarrow> ('c, 's, 'st) replica \<Rightarrow> ('c, 'p) dag" where
  "events view rp = view (rp_store rp) |` ancestry (view (rp_store rp)) (set (rp_clock rp))"

definition ev_roots :: "('c, 'p) dag \<Rightarrow> 'c set" where
  "ev_roots A = {c \<in> dom A. \<forall>d. c \<notin> kids A d}"

definition ev_record :: "'c::linorder hasher \<Rightarrow> 'p encode \<Rightarrow> 'p \<Rightarrow> ('c, 'p) dag \<Rightarrow> ('c, 'p) dag" where
  "ev_record H E op A =
     (let n = \<lparr>payload = op, children = sorted_list_of_set (ev_roots A)\<rparr> in A(node_cid H E n \<mapsto> n))"

lemma dom_events:
  assumes "replica_ok H P view rp"
  shows "dom (events view rp) = ancestry (view (rp_store rp)) (set (rp_clock rp))"
  using ancestry_dom [OF replica_okD(1,3) [OF assms]] by (simp add: events_def Int_absorb1)

lemma events_roots:
  assumes ok: "replica_ok H P view rp"
  shows "set (rp_clock rp) = ev_roots (events view rp)"
proof -
  let ?V = "view (rp_store rp)" and ?R = "set (rp_clock rp)"
  let ?A = "ancestry ?V ?R"
  note rp = replica_okD [OF ok]
  have anc: "ancestry ?V ?A = ?A" using ancestry_idem [of ?A ?V ?R] ancestry_refl [of ?A ?V] by auto
  have "?R = heads ?V ?A" using rp(4) by (simp add: heads_ancestry)
  moreover have "r \<in> heads ?V ?A \<longleftrightarrow> (\<forall>d. r \<notin> kids (events view rp) d)" if "r \<in> ?A" for r
    using nonheads_iff [OF that, of ?V, unfolded anc]
    by (auto simp: events_def kids_def restrict_map_def split: if_splits option.splits)
  ultimately show ?thesis
    using heads_subset [of ?V ?A] dom_events [OF ok] by (auto simp: ev_roots_def)
qed

lemma events_clock:
  assumes ok: "replica_ok H P view rp"
  shows "rp_clock rp = sorted_list_of_set (ev_roots (events view rp))"
  unfolding events_roots [OF ok, symmetric] using replica_okD(2) [OF ok]
  by (intro sorted_list_of_set.idem_if_sorted_distinct [symmetric]) (simp_all add: bs_wf_def strict_sorted_iff)

lemma events_state: "replica_ok H P view rp \<Longrightarrow> rp_state rp = dag_state P (events view rp)"
  by (simp add: replica_okD(5) events_def)

lemma apply_events:
  assumes S: "dag_store S view" and ok: "replica_ok H P view rp"
    and same: "\<And>m. view (rp_store rp) (node_cid H (pl_encode P) (new_node op rp)) = Some m \<Longrightarrow> m = new_node op rp"
    and run: "replica_apply H P S op rp = (Inr cid, rp')"
  shows "events view rp' = ev_record H (pl_encode P) op (events view rp)"
proof -
  let ?V = "view (rp_store rp)" and ?V' = "view (rp_store rp')"
  from replica_apply_correct [OF S ok same run] have post: "replica_ok H P view rp'" "?V \<subseteq>\<^sub>m ?V'" "rp_clock rp' = [cid]"
    "?V' cid = Some (new_node op rp)" "ancestry ?V' {cid} = insert cid (ancestry ?V (set (rp_clock rp)))" by auto
  have n: "new_node op rp = \<lparr>payload = op, children = sorted_list_of_set (ev_roots (events view rp))\<rparr>"
    by (simp add: new_node_def events_clock [OF ok, symmetric])
  have "node_cid H (pl_encode P) (new_node op rp) = cid"
    using dag_ok_node(1) [OF replica_okD(1) [OF post(1)] post(4)] .
  then have rec: "ev_record H (pl_encode P) op (events view rp) = (events view rp)(cid \<mapsto> new_node op rp)"
    unfolding ev_record_def Let_def n [symmetric] by simp
  have "?V' c = ?V c" if "c \<in> ancestry ?V (set (rp_clock rp))" for c
    using that post(2) dom_events [OF ok] ancestry_dom [OF replica_okD(1,3) [OF ok]]
    by (auto simp: map_le_def subset_iff)
  then show ?thesis
    unfolding rec unfolding events_def post(3) using post(4,5) by (simp add: restrict_map_def fun_eq_iff)
qed

lemma sync_events:
  assumes S: "dag_store S view" and T: "dag_store T rview" and ok: "replica_ok H P view rp"
    and RV: "dag_ok H (pl_encode P) (rview remote)" and root: "root \<in> dom (rview remote)"
    and agree: "agree (view (rp_store rp)) (rview remote)"
    and run: "replica_sync H P S T root remote rp = Some (Inr u, rp')"
  shows "events view rp' = events view rp ++ rview remote |` ancestry (rview remote) {root}"
proof -
  let ?V = "view (rp_store rp)" and ?V' = "view (rp_store rp')" and ?RV = "rview remote"
  from replica_sync_honest [OF S T ok RV root agree] run
  have post: "replica_ok H P view rp'" "agree ?V' ?RV"
    "ancestry ?V' (set (rp_clock rp')) = ancestry ?V (set (rp_clock rp)) \<union> ancestry ?RV {root}" by auto
  from sync_validated_correct [OF S T ok dag_ok_typed [OF RV], of accept_all root] run
  have "sync_outcome (store_raises S) (store_raises T) H P view ?RV accept_all root rp (Inr u) rp'"
    by (simp add: replica_sync_def)
  then have le: "?V \<subseteq>\<^sub>m ?V'" by (simp only: sync_outcome_def Let_def)
  have dom: "ancestry ?V (set (rp_clock rp)) \<subseteq> dom ?V" "ancestry ?RV {root} \<subseteq> dom ?RV"
    "ancestry ?V' (set (rp_clock rp')) \<subseteq> dom ?V'"
    using ancestry_dom [OF replica_okD(1,3) [OF ok]] ancestry_dom [OF RV] root
      ancestry_dom [OF replica_okD(1,3) [OF post(1)]] by auto
  have old: "?V' c = ?V c" if "c \<in> ancestry ?V (set (rp_clock rp))" for c
    using that dom(1) le by (auto simp: map_le_def subset_iff)
  have new: "?V' c = ?RV c" if "c \<in> ancestry ?RV {root}" for c
    using that post(2,3) dom by (auto simp: agree_def subset_iff)
  have some: "?RV c \<noteq> None" if "c \<in> ancestry ?RV {root}" for c using that dom(2) by auto
  show ?thesis
    unfolding events_def post(3)
  proof (rule ext)
    fix c
    show "(?V' |` (ancestry ?V (set (rp_clock rp)) \<union> ancestry ?RV {root})) c =
        (?V |` ancestry ?V (set (rp_clock rp)) ++ ?RV |` ancestry ?RV {root}) c"
    proof (cases "c \<in> ancestry ?RV {root}")
      case True
      with some [OF True] new [OF True] show ?thesis by (auto simp: map_add_def)
    next
      case False
      then show ?thesis using old [of c] by (cases "c \<in> ancestry ?V (set (rp_clock rp))") (simp_all add: map_add_def)
    qed
  qed
qed

text \<open>A replica that keeps its nodes and ends with the events of both holds their union.\<close>

lemma joined_events:
  assumes a: "replica_ok H P view a" and b: "replica_ok H P rview b" and a': "replica_ok H P view a'"
    and le: "view (rp_store a) \<subseteq>\<^sub>m view (rp_store a')" and agree: "agree (view (rp_store a')) (rview (rp_store b))"
    and anc: "ancestry (view (rp_store a')) (set (rp_clock a')) =
      ancestry (view (rp_store a)) (set (rp_clock a)) \<union> ancestry (rview (rp_store b)) (set (rp_clock b))"
  shows "events view a' = events view a ++ events rview b"
proof (rule ext)
  fix c
  let ?V = "view (rp_store a)" and ?V' = "view (rp_store a')" and ?B = "rview (rp_store b)"
  have dom: "ancestry ?V (set (rp_clock a)) \<subseteq> dom ?V" "ancestry ?B (set (rp_clock b)) \<subseteq> dom ?B"
    "ancestry ?V' (set (rp_clock a')) \<subseteq> dom ?V'"
    using ancestry_dom replica_okD(1,3) [OF a] replica_okD(1,3) [OF b] replica_okD(1,3) [OF a'] by blast+
  show "events view a' c = (events view a ++ events rview b) c"
  proof (cases "c \<in> ancestry ?B (set (rp_clock b))")
    case True
    then have "c \<in> dom ?V' \<inter> dom ?B" using dom anc by blast
    then have "?V' c = ?B c" "?B c \<noteq> None" using agree by (auto simp: agree_def)
    with True anc show ?thesis by (auto simp: events_def map_add_def)
  next
    case False
    have "?V' c = ?V c" if "c \<in> ancestry ?V (set (rp_clock a))"
      using that dom(1) le by (auto simp: map_le_def subset_iff)
    with False anc show ?thesis by (auto simp: events_def map_add_def restrict_map_def)
  qed
qed

end
