(* ===== verification/Merkle_Network.thy ===== *)
theory Merkle_Network
  imports Merkle_Replica
begin

text \<open>
  Any number of replicas that record operations and synchronize from one another in any order,
  with any outcome of the stores' writes. The runs are those without a hash collision: a node
  being recorded is the only one known under its identifier.
\<close>

inductive network ::
  "'c::linorder hasher \<Rightarrow> ('p, 'st) payload_ops \<Rightarrow> ('c, 'p, 's, 'e) store_ops \<Rightarrow> ('s \<Rightarrow> ('c, 'p) dag)
     \<Rightarrow> ('i \<Rightarrow> ('c, 's, 'st) replica) \<Rightarrow> bool"
  for H P S view where
  start: "(\<And>i. \<exists>s. cfg i = replica_new P s \<and> view s = Map.empty) \<Longrightarrow> network H P S view cfg"
| operate: "network H P S view cfg \<Longrightarrow>
    (\<And>j m. view (rp_store (cfg j)) (node_cid H (pl_encode P) (new_node op (cfg i))) = Some m \<Longrightarrow> m = new_node op (cfg i)) \<Longrightarrow>
    replica_apply H P S op (cfg i) = (r, rp') \<Longrightarrow> network H P S view (cfg(i := rp'))"
| sync: "network H P S view cfg \<Longrightarrow> root \<in> dom (view (rp_store (cfg j))) \<Longrightarrow>
    replica_sync H P S S root (rp_store (cfg j)) (cfg i) = Some (r, rp') \<Longrightarrow> network H P S view (cfg(i := rp'))"

definition network_ok where
  "network_ok H P view cfg \<longleftrightarrow>
     (\<forall>i. replica_ok H P view (cfg i)) \<and> (\<forall>i j. agree (view (rp_store (cfg i))) (view (rp_store (cfg j))))"

lemma network_okI:
  assumes ok: "network_ok H P view cfg" and "replica_ok H P view rp'"
    and src: "\<And>c n. view (rp_store rp') c = Some n \<Longrightarrow>
      (\<exists>k. view (rp_store (cfg k)) c = Some n) \<or> (\<forall>j m. view (rp_store (cfg j)) c = Some m \<longrightarrow> m = n)"
  shows "network_ok H P view (cfg(i := rp'))"
proof -
  have one: "agree (view (rp_store rp')) (view (rp_store (cfg j)))" for j
    unfolding agree_def
  proof (intro ballI)
    fix c assume "c \<in> dom (view (rp_store rp')) \<inter> dom (view (rp_store (cfg j)))"
    then obtain n m where nm: "view (rp_store rp') c = Some n" "view (rp_store (cfg j)) c = Some m" by auto
    from src [OF nm(1)] have "m = n"
    proof
      assume "\<exists>k. view (rp_store (cfg k)) c = Some n"
      then obtain k where k: "view (rp_store (cfg k)) c = Some n" ..
      have "agree (view (rp_store (cfg k))) (view (rp_store (cfg j)))" using ok by (simp add: network_ok_def)
      with k nm(2) show "m = n" unfolding agree_def by (metis IntI domI option.inject)
    qed (use nm in blast)
    with nm show "view (rp_store rp') c = view (rp_store (cfg j)) c" by simp
  qed
  with assms(1,2) show ?thesis by (auto simp: network_ok_def intro: agree_sym)
qed

lemma replica_apply_view:
  assumes S: "dag_store S view" and "replica_apply H P S op rp = (r, rp')" and "view (rp_store rp') c = Some n"
  shows "view (rp_store rp) c = Some n \<or>
    c = node_cid H (pl_encode P) (new_node op rp) \<and> n = new_node op rp"
proof (cases "sto_put S (rp_store rp) (node_cid H (pl_encode P) (new_node op rp)) (new_node op rp)")
  case (Pair put s)
  with assms(2) have "rp_store rp' = s"
    by (auto simp: replica_apply_def record_event_def Let_def new_node_def split: sum.splits)
  moreover have "view s = view (rp_store rp) \<or>
      view s = (view (rp_store rp))(node_cid H (pl_encode P) (new_node op rp) \<mapsto> new_node op rp)"
    using Pair dag_store.put_err [OF S] by (cases put) (simp_all add: dag_store.put_ok [OF S])
  ultimately show ?thesis using assms(3) by (auto split: if_splits)
qed

lemma network_invariant:
  assumes S: "dag_store S view" and run: "network H P S view cfg"
  shows "network_ok H P view cfg"
  using run
proof induction
  case (start cfg)
  have "dag_ok H (pl_encode P) (Map.empty :: _ \<Rightarrow> _)" by (simp add: dag_ok_def edges_def kids_def acyclic_def)
  then have "replica_ok H P view (cfg i) \<and> view (rp_store (cfg i)) = Map.empty" for i
    using start [of i] replica_new_ok [of H P view] by (auto simp: replica_new_def)
  then show ?case by (simp add: network_ok_def)
next
  case (operate cfg op i r rp')
  have ok: "replica_ok H P view (cfg i)" using operate.IH by (simp add: network_ok_def)
  have "replica_ok H P view rp'"
    using replica_apply_correct [OF S ok operate.hyps(2) [of i] operate.hyps(3)] by blast
  with operate.IH show ?case
  proof (rule network_okI)
    fix c n assume "view (rp_store rp') c = Some n"
    from replica_apply_view [OF S operate.hyps(3) this] operate.hyps(2)
    show "(\<exists>k. view (rp_store (cfg k)) c = Some n) \<or> (\<forall>j m. view (rp_store (cfg j)) c = Some m \<longrightarrow> m = n)" by metis
  qed
next
  case (sync cfg root j i r rp')
  have ok: "replica_ok H P view (cfg i)" "replica_ok H P view (cfg j)" using sync.IH by (simp_all add: network_ok_def)
  note RV = replica_okD(1) [OF ok(2)]
  from sync_validated_correct [OF S S ok(1) dag_ok_typed [OF RV], of accept_all root] sync.hyps(3)
  have out: "sync_outcome (store_raises S) (store_raises S) H P view (view (rp_store (cfg j))) accept_all root (cfg i) r rp'"
    by (simp add: replica_sync_def)
  then have src: "replica_ok H P view rp'" "view (rp_store rp') c = Some n \<Longrightarrow>
      view (rp_store (cfg i)) c = Some n \<or> view (rp_store (cfg j)) c = Some n" for c n
    unfolding sync_outcome_def Let_def by blast+
  show ?case by (rule network_okI [OF sync.IH src(1)]) (use src(2) in blast)
qed

lemma network_replicas_converge:
  assumes "dag_store S view" and "network H P S view cfg"
    and "ancestry (view (rp_store (cfg i))) (set (rp_clock (cfg i))) = ancestry (view (rp_store (cfg j))) (set (rp_clock (cfg j)))"
  shows "rp_clock (cfg i) = rp_clock (cfg j)" "rp_state (cfg i) = rp_state (cfg j)"
  using network_invariant [OF assms(1,2)] assms(3)
    replicas_converge [where va = view and vb = view and a = "cfg i" and b = "cfg j" and H = H and P = P]
  by (simp_all add: network_ok_def)

text \<open>Equal roots are enough: what lies below an identifier is the same everywhere.\<close>

lemma network_roots:
  assumes "dag_store S view" and "network H P S view cfg" and "rp_clock (cfg i) = rp_clock (cfg j)"
  shows "rp_state (cfg i) = rp_state (cfg j)"
proof -
  have ok: "replica_ok H P view (cfg i)" "replica_ok H P view (cfg j)"
    and agree: "agree (view (rp_store (cfg i))) (view (rp_store (cfg j)))"
    using network_invariant [OF assms(1,2)] by (simp_all add: network_ok_def)
  have "ancestry (view (rp_store (cfg i))) (set (rp_clock (cfg i))) = ancestry (view (rp_store (cfg j))) (set (rp_clock (cfg i)))"
    by (rule ancestry_agree [OF agree replica_okD(1) [OF ok(1)] replica_okD(1) [OF ok(2)]])
       (use replica_okD(3) [OF ok(1)] replica_okD(3) [OF ok(2)] assms(3) in auto)
  then show ?thesis by (intro network_replicas_converge(2) [OF assms(1,2)]) (simp add: assms(3))
qed

end
