(* ===== verification/Merkle_Walk.thy ===== *)
theory Merkle_Walk
  imports Merkle_Clock
begin

text \<open>
  The depth-first walk of \<open>support/merkle-crdt/src/clock.rs\<close> (\<open>MerkleClock::walk\<close>)
  calls its visitor on every ancestor of the root once, children before parents. On the
  stack an entry frame is an identifier still to be looked at and an exit frame a node whose
  call is due; the exit frames lie on one path of the DAG.
\<close>

section \<open>The stack\<close>

type_synonym ('c, 'p) frame = "'c \<times> ('c, 'p) dag_node option"

definition exits :: "('c, 'p) frame list \<Rightarrow> 'c list" where
  "exits stack = map fst (filter (\<lambda>f. snd f \<noteq> None) stack)"

definition entries :: "('c, 'p) frame list \<Rightarrow> 'c list" where
  "entries stack = map fst (filter (\<lambda>f. snd f = None) stack)"

lemma exits_simps [simp]:
  "exits [] = []" "exits ((c, Some n) # st) = c # exits st" "exits ((c, None) # st) = exits st"
  "exits (map (\<lambda>c. (c, None)) cs @ st) = exits st"
  by (simp_all add: exits_def)

lemma entries_simps [simp]:
  "entries [] = []" "entries ((c, Some n) # st) = entries st" "entries ((c, None) # st) = c # entries st"
  "entries (map (\<lambda>c. (c, None)) cs @ st) = cs @ entries st"
  by (simp_all add: entries_def filter_map o_def)

text \<open>An exit frame leads to everything above it, and its children are called or above it.\<close>

definition frames_ok :: "('c, 'p) dag \<Rightarrow> 'c set \<Rightarrow> ('c, 'p) frame list \<Rightarrow> bool" where
  "frames_ok V called stack \<longleftrightarrow>
     (\<forall>pre c n post. stack = pre @ (c, Some n) # post \<longrightarrow>
        V c = Some n \<and> (\<forall>e \<in> set (map fst pre). (c, e) \<in> (edges V)\<^sup>+) \<and>
        kids V c \<subseteq> called \<union> set (map fst pre))"

lemma frames_okD:
  assumes "frames_ok V called stack" "stack = pre @ (c, Some n) # post"
  shows "V c = Some n" "e \<in> set (map fst pre) \<Longrightarrow> (c, e) \<in> (edges V)\<^sup>+" "kids V c \<subseteq> called \<union> set (map fst pre)"
  using assms unfolding frames_ok_def by blast+

lemma exit_split:
  assumes "x \<in> set (exits stack)"
  obtains pre n post where "stack = pre @ (x, Some n) # post"
proof -
  from assms obtain n where "(x, Some n) \<in> set stack" by (auto simp: exits_def)
  then show ?thesis using that by (auto dest: split_list)
qed

lemma frames_ok_exit:
  assumes ok: "frames_ok V called ((c, Some n) # rest)"
  shows "V c = Some n" "kids V c \<subseteq> called" "frames_ok V (insert c called) rest"
proof -
  show "V c = Some n" "kids V c \<subseteq> called" using frames_okD [OF ok, of "[]"] by simp_all
  show "frames_ok V (insert c called) rest"
    unfolding frames_ok_def
  proof (intro allI impI)
    fix pre x m post assume "rest = pre @ (x, Some m) # post"
    then have split: "(c, Some n) # rest = ((c, Some n) # pre) @ (x, Some m) # post" by simp
    from frames_okD [OF ok split] show "V x = Some m \<and> (\<forall>e \<in> set (map fst pre). (x, e) \<in> (edges V)\<^sup>+) \<and>
        kids V x \<subseteq> insert c called \<union> set (map fst pre)" by auto
  qed
qed

text \<open>An identifier to be looked at is not due a call: that would close a cycle.\<close>

lemma frames_ok_acyclic:
  assumes ok: "frames_ok V called ((c, None) # rest)" and acyc: "acyclic (edges V)"
  shows "c \<notin> set (exits rest)"
proof
  assume "c \<in> set (exits rest)"
  then obtain pre n post where "rest = pre @ (c, Some n) # post" by (rule exit_split)
  then have split: "(c, None) # rest = ((c, None) # pre) @ (c, Some n) # post" by simp
  have "(c, c) \<in> (edges V)\<^sup>+" by (rule frames_okD(2) [OF ok split]) simp
  with acyc show False by (simp add: acyclic_def)
qed

lemma frames_ok_skip:
  assumes ok: "frames_ok V called ((c, None) # rest)" and "c \<in> called"
  shows "frames_ok V called rest"
  unfolding frames_ok_def
proof (intro allI impI)
  fix pre x m post assume "rest = pre @ (x, Some m) # post"
  then have split: "(c, None) # rest = ((c, None) # pre) @ (x, Some m) # post" by simp
  from frames_okD [OF ok split] assms(2) show "V x = Some m \<and> (\<forall>e \<in> set (map fst pre). (x, e) \<in> (edges V)\<^sup>+) \<and>
      kids V x \<subseteq> called \<union> set (map fst pre)" by auto
qed

lemma walk_split:
  assumes split: "map (\<lambda>d. (d, None)) new @ f # rest = pre @ (x, Some m) # post" and len: "length pre \<noteq> length new"
  obtains a where "pre = map (\<lambda>d. (d, None)) new @ f # a" "rest = a @ (x, Some m) # post"
proof -
  have "\<not> length pre < length new"
  proof
    assume less: "length pre < length new"
    have "(pre @ (x, Some m) # post) ! length pre = (x, Some m)" by simp
    then have "(new ! length pre, None) = (x, Some m)" using less unfolding split [symmetric] by (simp add: nth_append)
    then show False by simp
  qed
  with len have less: "length new < length pre" by simp
  then have "take (length new) pre = map (\<lambda>d. (d, None)) new"
    using arg_cong [OF split, of "take (length new)"] by simp
  moreover have "f # rest = drop (length new) pre @ (x, Some m) # post"
    using arg_cong [OF split, of "drop (length new)"] less by simp
  moreover obtain g a where "drop (length new) pre = g # a" using less by (cases "drop (length new) pre") auto
  ultimately show ?thesis using that [of a] append_take_drop_id [of "length new" pre] by auto
qed

lemma frames_ok_enter:
  assumes ok: "frames_ok V called ((c, None) # rest)" and acyc: "acyclic (edges V)" and n: "V c = Some n"
    and visited: "visited = called \<union> set (exits rest)" and new: "new = filter (\<lambda>d. d \<notin> insert c visited) (children n)"
  shows "frames_ok V called (map (\<lambda>d. (d, None)) new @ (c, Some n) # rest)"
  unfolding frames_ok_def
proof (intro allI impI)
  have kids: "kids V c = set (children n)" using n by (simp add: kids_def)
  have reach: "(x, c) \<in> (edges V)\<^sup>+" if "x \<in> set (exits rest)" for x
  proof -
    from that obtain pre m post where "rest = pre @ (x, Some m) # post" by (rule exit_split)
    then have split: "(c, None) # rest = ((c, None) # pre) @ (x, Some m) # post" by simp
    show ?thesis by (rule frames_okD(2) [OF ok split]) simp
  qed
  have fresh: "d \<notin> insert c (set (exits rest))" if "d \<in> kids V c" for d
  proof
    assume "d \<in> insert c (set (exits rest))"
    moreover have "(c, d) \<in> edges V" using that by (simp add: edges_def)
    ultimately have "(c, c) \<in> (edges V)\<^sup>+"
      using reach [of d] by (metis insert_iff r_into_trancl trancl_into_trancl2)
    with acyc show False by (simp add: acyclic_def)
  qed
  fix pre x m post assume split: "map (\<lambda>d. (d, None)) new @ (c, Some n) # rest = pre @ (x, Some m) # post"
  show "V x = Some m \<and> (\<forall>e \<in> set (map fst pre). (x, e) \<in> (edges V)\<^sup>+) \<and> kids V x \<subseteq> called \<union> set (map fst pre)"
  proof (cases "length pre = length new")
    case True
    with split have "pre = map (\<lambda>d. (d, None)) new" "x = c" "m = n" by (auto simp: append_eq_append_conv)
    moreover have "set new \<subseteq> kids V c" "kids V c \<subseteq> called \<union> set new" using fresh by (auto simp: new visited kids)
    ultimately show ?thesis using n by (auto simp: o_def edges_def)
  next
    case False
    with split obtain a where a: "pre = map (\<lambda>d. (d, None)) new @ (c, Some n) # a" "rest = a @ (x, Some m) # post"
      by (rule walk_split)
    then have old: "(c, None) # rest = ((c, None) # a) @ (x, Some m) # post" by simp
    note x = frames_okD [OF ok old]
    have "(x, d) \<in> (edges V)\<^sup>+" if "d \<in> set new" for d
      using that x(2) [of c] kids by (auto simp: new edges_def intro: trancl_into_trancl)
    with x a show ?thesis by (auto simp: o_def)
  qed
qed

section \<open>The calls\<close>

text \<open>Calls on distinct nodes of the store, each after those on its children.\<close>

definition calls_ok :: "('c, 'p) dag \<Rightarrow> ('c \<times> ('c, 'p) dag_node) list \<Rightarrow> bool" where
  "calls_ok V calls \<longleftrightarrow> distinct (map fst calls) \<and>
     (\<forall>i < length calls. V (fst (calls ! i)) = Some (snd (calls ! i)) \<and>
        kids V (fst (calls ! i)) \<subseteq> set (map fst (take i calls)))"

lemma calls_ok_snoc:
  assumes "calls_ok V calls" "V c = Some n" "kids V c \<subseteq> set (map fst calls)" "c \<notin> set (map fst calls)"
  shows "calls_ok V (calls @ [(c, n)])"
  using assms unfolding calls_ok_def
  by (auto simp: nth_append less_Suc_eq)

definition walk_inv ::
  "('c, 'p) dag \<Rightarrow> 'c \<Rightarrow> ('c, 'p) frame list \<Rightarrow> 'c list \<Rightarrow> ('c \<times> ('c, 'p) dag_node) list \<Rightarrow> bool" where
  "walk_inv V root stack visited calls \<longleftrightarrow>
     search_inv V {root} (set visited) (set (entries stack)) \<and> calls_ok V calls \<and>
     distinct (map fst calls @ exits stack) \<and> set visited = set (map fst calls) \<union> set (exits stack) \<and>
     frames_ok V (set (map fst calls)) stack"

lemma walk_inv_start: "walk_inv V root [(root, None)] [] []"
  using search_start [of V "{root}"] by (auto simp: walk_inv_def calls_ok_def frames_ok_def Cons_eq_append_conv)

lemma walk_inv_exit:
  assumes inv: "walk_inv V root ((c, Some n) # rest) visited calls"
  shows "walk_inv V root rest visited (calls @ [(c, n)])"
proof -
  have ok: "frames_ok V (set (map fst calls)) ((c, Some n) # rest)" using inv by (simp add: walk_inv_def)
  note c = frames_ok_exit [OF ok]
  have "c \<notin> set (map fst calls)" "calls_ok V calls" using inv by (auto simp: walk_inv_def)
  then have "calls_ok V (calls @ [(c, n)])" using c(1,2) by (intro calls_ok_snoc) auto
  with inv c(3) show ?thesis by (auto simp: walk_inv_def)
qed

lemma walk_inv_skip:
  assumes inv: "walk_inv V root ((c, None) # rest) visited calls" and acyc: "acyclic (edges V)" and "c \<in> set visited"
  shows "walk_inv V root rest visited calls"
proof -
  have ok: "frames_ok V (set (map fst calls)) ((c, None) # rest)" and vis: "set visited = set (map fst calls) \<union> set (exits rest)"
    using inv by (simp_all add: walk_inv_def)
  with frames_ok_acyclic [OF ok acyc] assms(3) have "c \<in> set (map fst calls)" by auto
  from frames_ok_skip [OF ok this] have "frames_ok V (set (map fst calls)) rest" .
  moreover have "search_inv V {root} (set visited) (set (entries rest))"
    by (rule search_skip [of _ _ _ "set (entries ((c, None) # rest))" c]) (use inv assms(3) in \<open>auto simp: walk_inv_def\<close>)
  ultimately show ?thesis using inv by (simp add: walk_inv_def)
qed

lemma walk_inv_enter:
  assumes inv: "walk_inv V root ((c, None) # rest) visited calls" and acyc: "acyclic (edges V)"
    and new: "c \<notin> set visited" and n: "V c = Some n"
  shows "walk_inv V root (map (\<lambda>d. (d, None)) (filter (\<lambda>d. d \<notin> set (bs_insert c visited)) (children n)) @ (c, Some n) # rest)
     (bs_insert c visited) calls" (is "walk_inv V root ?stack _ _")
proof -
  let ?new = "filter (\<lambda>d. d \<notin> insert c (set visited)) (children n)"
  have kids: "kids V c = set (children n)" using n by (simp add: kids_def)
  have ok: "frames_ok V (set (map fst calls)) ((c, None) # rest)" and vis: "set visited = set (map fst calls) \<union> set (exits rest)"
    using inv by (simp_all add: walk_inv_def)
  have "frames_ok V (set (map fst calls)) (map (\<lambda>d. (d, None)) ?new @ (c, Some n) # rest)"
    by (rule frames_ok_enter [OF ok acyc n vis refl])
  moreover have "search_inv V {root} (insert c (set visited)) (set (entries ?stack))"
    by (rule search_visit [of _ _ _ "set (entries ((c, None) # rest))" c "set (entries rest)"])
       (use inv kids in \<open>auto simp: walk_inv_def\<close>)
  ultimately show ?thesis using inv new vis by (auto simp: walk_inv_def)
qed

context dag_store
begin

lemma walk_loop_correct:
  assumes acyc: "acyclic (edges (view s))" and "walk_inv (view s) root stack visited calls"
  shows "\<exists>r calls'. walk_loop H E S s stack visited calls = Some (r, calls') \<and> calls_ok (view s) calls' \<and>
     search_result (store_raises S) H E (view s) {root} r (\<lambda>_. set (map fst calls') = ancestry (view s) {root})"
  using assms(2)
proof (induction "(visited, map fst stack)" arbitrary: visited stack calls
    rule: wf_induct_rule [OF wf_search_rel [of "ancestry (view s) {root}"]])
  case (1 visited stack calls)
  let ?A = "ancestry (view s) {root}"
  have fin: "finite ?A" by (intro finite_ancestry finite_view) simp
  note inv = "1.prems"
  show ?case
  proof (cases stack)
    case Nil
    have "search_inv (view s) {root} (set visited) {}" using inv Nil by (auto simp: walk_inv_def)
    then have "set visited = ?A" by (rule search_done)
    with Nil inv show ?thesis by (simp add: walk_loop.simps walk_inv_def)
  next
    case (Cons f rest)
    obtain c cached where f: "f = (c, cached)" by (cases f)
    have pop: "((visited, map fst rest), (visited, map fst stack)) \<in> search_rel ?A"
      using Cons by (simp add: search_rel_skip)
    show ?thesis
    proof (cases cached)
      case (Some n)
      have "walk_loop H E S s stack visited calls = walk_loop H E S s rest visited (calls @ [(c, n)])"
        using Cons f Some by (subst walk_loop.simps) simp
      moreover have "walk_inv (view s) root rest visited (calls @ [(c, n)])"
        using inv Cons f Some by (simp add: walk_inv_exit)
      ultimately show ?thesis using "1.hyps" [OF pop] by metis
    next
      case None
      show ?thesis
      proof (cases "c \<in> set visited")
        case True
        have "walk_loop H E S s stack visited calls = walk_loop H E S s rest visited calls"
          using Cons f None True by (subst walk_loop.simps) simp
        moreover have "walk_inv (view s) root rest visited calls"
          using walk_inv_skip [OF _ acyc True] inv Cons f None by blast
        ultimately show ?thesis using "1.hyps" [OF pop] by metis
      next
        case False
        have c: "c \<in> ?A" using inv Cons f None by (simp add: walk_inv_def search_inv_def)
        show ?thesis
        proof (cases "load_verified H E S s c")
          case (Inl x)
          with load_verified_Inl [OF Inl c] Cons f None False inv show ?thesis
            by (simp add: walk_loop.simps walk_inv_def)
        next
          case (Inr n)
          let ?stack = "map (\<lambda>d. (d, None)) (filter (\<lambda>d. d \<notin> set (bs_insert c visited)) (children n)) @ (c, Some n) # rest"
          have "walk_loop H E S s stack visited calls = walk_loop H E S s ?stack (bs_insert c visited) calls"
            using Cons f None False Inr by (subst walk_loop.simps) simp
          moreover have "walk_inv (view s) root ?stack (bs_insert c visited) calls"
            using walk_inv_enter [OF _ acyc False] inv Cons f None load_verified_Inr [OF Inr] by blast
          moreover have "((bs_insert c visited, map fst ?stack), (visited, map fst stack)) \<in> search_rel ?A"
            by (rule search_rel_visit [OF fin c False]) simp
          ultimately show ?thesis using "1.hyps" by metis
        qed
      qed
    qed
  qed
qed

end

end
