(* ===== verification/Merkle_Properties.thy ===== *)
theory Merkle_Properties
  imports Merkle_Network Merkle_Walk "HOL-Library.Code_Target_Nat"
begin

text \<open>
  The properties of the Merkle-CRDT library, each with a run on small replicas: in-memory
  stores, a counter whose operations are added up, and a hasher that reads the payload and the
  number of children off the encoded node.
\<close>

section \<open>Example replicas\<close>

definition demo_hasher :: "nat hasher" where
  "demo_hasher = \<lparr>hash_fn = (\<lambda>bytes. unat (bytes ! 8) + 16 * unat (bytes ! 9)),
     out_bytes = to_le_bytes 2, out_decode = (\<lambda>_ _. None), out_size = 2\<rparr>"

definition counter_ops :: "(nat, nat) payload_ops" where
  "counter_ops = \<lparr>pl_encode = (\<lambda>p. [of_nat p]), pl_default = 0, pl_apply = (+)\<rparr>"

abbreviation mem_nodes :: "(nat, nat, (nat, nat) mem_store, unit) store_ops" where
  "mem_nodes \<equiv> mem_store_ops"

lemma mem_nodes_store: "dag_store mem_nodes bt_get"
  by (rule mem_dag.dag_store_axioms)

definition blank :: "(nat, (nat, nat) mem_store, nat) replica" where
  "blank = replica_new counter_ops []"

definition alice :: "(nat, (nat, nat) mem_store, nat) replica" where
  "alice = snd (replica_apply demo_hasher counter_ops mem_nodes 1 blank)"

definition bob :: "(nat, (nat, nat) mem_store, nat) replica" where
  "bob = snd (replica_apply demo_hasher counter_ops mem_nodes 2 blank)"

lemma bt_get_empty [simp]: "bt_get [] = Map.empty"
  by (simp add: bt_get_def fun_eq_iff)

lemma blank_ok: "replica_ok demo_hasher counter_ops bt_get blank"
  unfolding blank_def
  by (rule replica_new_ok) (simp add: dag_ok_def edges_def kids_def bt_get_def acyclic_def)

lemma demo_apply_ok:
  "replica_ok demo_hasher counter_ops bt_get (snd (replica_apply demo_hasher counter_ops mem_nodes op blank))"
proof -
  let ?run = "replica_apply demo_hasher counter_ops mem_nodes op blank"
  have run: "?run = (fst ?run, snd ?run)" by simp
  have "bt_get (rp_store blank) c = None" for c by (simp add: blank_def replica_new_def bt_get_def)
  then show ?thesis using replica_apply_correct [OF mem_dag.dag_store_axioms blank_ok _ run] by simp
qed

lemma alice_ok: "replica_ok demo_hasher counter_ops bt_get alice"
  unfolding alice_def by (rule demo_apply_ok)

lemma bob_ok: "replica_ok demo_hasher counter_ops bt_get bob"
  unfolding bob_def by (rule demo_apply_ok)

lemma demo_stores:
  "rp_store alice = [(1, \<lparr>payload = 1, children = []\<rparr>)]" "rp_store bob = [(2, \<lparr>payload = 2, children = []\<rparr>)]"
  "rp_clock alice = [1]" "rp_clock bob = [2]"
  by code_simp+

lemma demo_agree: "agree (bt_get (rp_store alice)) (bt_get (rp_store bob))"
  by (auto simp: demo_stores agree_def bt_get_def split: if_splits)

section \<open>Replicas\<close>

text \<open>C20 (\<open>network_convergence\<close>): in any run of replicas that record operations and synchronize from one
  another, with any outcome of their writes and no hash collision, two replicas that hold the same events
  have the same roots and the same state, and replicas with the same roots have the same state, whatever
  the payloads do.\<close>

theorem network_convergence:
  assumes "dag_store S view" and "network H P S view cfg"
  shows "(ancestry (view (rp_store (cfg i))) (set (rp_clock (cfg i))) =
            ancestry (view (rp_store (cfg j))) (set (rp_clock (cfg j))) \<longrightarrow>
          rp_clock (cfg i) = rp_clock (cfg j) \<and> rp_state (cfg i) = rp_state (cfg j)) \<and>
         (rp_clock (cfg i) = rp_clock (cfg j) \<longrightarrow> rp_state (cfg i) = rp_state (cfg j))"
  using network_replicas_converge [OF assms] network_roots [OF assms] by blast

lemma demo_network_start: "network demo_hasher counter_ops mem_nodes bt_get (\<lambda>_ :: bool. blank)"
  by (rule network.start) (auto simp: blank_def intro!: exI [of _ "[]"])

lemma demo_network:
  "network demo_hasher counter_ops mem_nodes bt_get ((\<lambda>_. blank)(True := alice, False := bob))"
proof -
  have a: "network demo_hasher counter_ops mem_nodes bt_get ((\<lambda>_. blank)(True := alice))"
    unfolding alice_def
    by (rule network.operate [OF demo_network_start _ surjective_pairing]) (simp add: blank_def replica_new_def bt_get_def)
  have none: "bt_get (rp_store (((\<lambda>_. blank)(True := alice)) j))
      (node_cid demo_hasher (pl_encode counter_ops) (new_node 2 (((\<lambda>_. blank)(True := alice)) False))) = None" for j
    by (rule bool_induct [of _ j]) code_simp+
  have run: "replica_apply demo_hasher counter_ops mem_nodes 2 (((\<lambda>_. blank)(True := alice)) False) =
      (fst (replica_apply demo_hasher counter_ops mem_nodes 2 blank), bob)"
    by (simp add: bob_def)
  show ?thesis by (rule network.operate [OF a _ run]) (unfold none, simp)
qed

definition joined :: "bool \<Rightarrow> (nat, (nat, nat) mem_store, nat) replica" where
  "joined b = (if b then snd (the (replica_sync demo_hasher counter_ops mem_nodes mem_nodes 2 (rp_store bob) alice))
               else snd (the (replica_sync demo_hasher counter_ops mem_nodes mem_nodes 1 (rp_store alice) bob)))"

lemma joined_clocks: "rp_clock (joined b) = [1, 2]"
  by (rule bool_induct [of _ b]) code_simp+

theorem network_convergence_witness: "rp_state (joined True) = rp_state (joined False) \<and> rp_state (joined True) = 3"
proof -
  let ?cfg = "(\<lambda>_. blank)(True := alice, False := bob)"
  let ?sync = "replica_sync demo_hasher counter_ops mem_nodes mem_nodes"
  have a: "?sync 2 (rp_store (?cfg False)) (?cfg True) = Some (Inr (), joined True)" by code_simp
  have 1: "network demo_hasher counter_ops mem_nodes bt_get (?cfg(True := joined True))"
    by (rule network.sync [OF demo_network _ a]) (auto simp: demo_stores bt_get_def)
  have b: "?sync 1 (rp_store ((?cfg(True := joined True)) True)) ((?cfg(True := joined True)) False) =
      Some (Inr (), joined False)" by code_simp
  have "1 \<in> dom (bt_get (rp_store ((?cfg(True := joined True)) True)))" by code_simp
  from network.sync [OF 1 this b]
  have "network demo_hasher counter_ops mem_nodes bt_get (?cfg(True := joined True, False := joined False))" .
  from network_convergence [OF mem_dag.dag_store_axioms this, of True False] joined_clocks
  have "rp_state (joined True) = rp_state (joined False)" by simp
  moreover have "rp_state (joined True) = 3" by code_simp
  ultimately show ?thesis by simp
qed

text \<open>C21 (\<open>mem_exchange_converges\<close>): two replicas in order on in-memory stores that hold no two different
  nodes under one identifier, and that fetch each other's roots one after the other, always succeed and
  end in order with the same roots and the same state; both then hold exactly the union of their events,
  and the state is that of the union.\<close>

theorem mem_exchange_converges:
  assumes a: "replica_ok H P bt_get a" and b: "replica_ok H P bt_get b"
    and agree: "agree (bt_get (rp_store a)) (bt_get (rp_store b))"
  shows "\<exists>a' b'.
    sync_roots H P mem_store_ops mem_store_ops (rp_store b) (rp_clock b) a =
      Some (Inr () :: ('l, 'r) sync_error + unit, a') \<and>
    sync_roots H P mem_store_ops mem_store_ops (rp_store a') (rp_clock a') b =
      Some (Inr () :: ('l, 'r) sync_error + unit, b') \<and>
    replica_ok H P bt_get a' \<and> replica_ok H P bt_get b' \<and>
    rp_clock a' = rp_clock b' \<and> rp_state a' = rp_state b' \<and>
    events bt_get a' = events bt_get a ++ events bt_get b \<and> events bt_get b' = events bt_get a ++ events bt_get b \<and>
    rp_state a' = dag_state P (events bt_get a ++ events bt_get b)"
proof -
  note M = mem_dag.dag_store_axioms and A = replica_okD [OF a] and B = replica_okD [OF b]
  from sync_roots_honest [OF M M B(1,3) a agree] obtain r a'
    where r: "sync_roots H P mem_store_ops mem_store_ops (rp_store b) (rp_clock b) a =
      Some (r :: ('l, 'r) sync_error + unit, a')" "replica_ok H P bt_get a'"
      "bt_get (rp_store a) \<subseteq>\<^sub>m bt_get (rp_store a')"
      "case r of Inr _ \<Rightarrow> agree (bt_get (rp_store a')) (bt_get (rp_store b)) \<and>
         ancestry (bt_get (rp_store a')) (set (rp_clock a')) =
         ancestry (bt_get (rp_store a)) (set (rp_clock a)) \<union> ancestry (bt_get (rp_store b)) (set (rp_clock b))
       | Inl x \<Rightarrow> False" by (fastforce simp: mem_store_never_fails split: sum.splits)
  then have ag: "agree (bt_get (rp_store b)) (bt_get (rp_store a'))" by (auto intro: agree_sym split: sum.splits)
  note A' = replica_okD [OF r(2)]
  from sync_roots_honest [OF M M A'(1,3) b ag] obtain q b'
    where q: "sync_roots H P mem_store_ops mem_store_ops (rp_store a') (rp_clock a') b =
      Some (q :: ('l, 'r) sync_error + unit, b')" "replica_ok H P bt_get b'"
      "case q of Inr _ \<Rightarrow> agree (bt_get (rp_store b')) (bt_get (rp_store a')) \<and>
         ancestry (bt_get (rp_store b')) (set (rp_clock b')) =
         ancestry (bt_get (rp_store b)) (set (rp_clock b)) \<union> ancestry (bt_get (rp_store a')) (set (rp_clock a'))
       | Inl x \<Rightarrow> False" by (fastforce simp: mem_store_never_fails split: sum.splits)
  have same: "agree (bt_get (rp_store a')) (bt_get (rp_store b'))"
    "ancestry (bt_get (rp_store a')) (set (rp_clock a')) = ancestry (bt_get (rp_store b')) (set (rp_clock b'))"
    using r(4) q(3) by (auto intro: agree_sym split: sum.splits)
  have ev: "events bt_get a' = events bt_get a ++ events bt_get b"
    using joined_events [OF a b r(2,3)] r(4) by (auto split: sum.splits)
  have "events bt_get b' = events bt_get a'"
    unfolding events_def same(2) [symmetric]
    by (rule restrict_agree [OF agree_sym [OF same(1)]])
       (unfold same(2), rule ancestry_dom [OF replica_okD(1,3) [OF q(2)]],
        fold same(2), rule ancestry_dom [OF replica_okD(1,3) [OF r(2)]])
  moreover have "rp_state a' = dag_state P (events bt_get a ++ events bt_get b)" using events_state [OF r(2)] ev by simp
  ultimately show ?thesis using replicas_converge [OF r(2) q(2) same] r q ev by (auto split: sum.splits)
qed

theorem mem_exchange_converges_witness:
  "\<exists>a' b'.
    sync_roots demo_hasher counter_ops mem_nodes mem_nodes (rp_store bob) (rp_clock bob) alice = Some (Inr (), a') \<and>
    sync_roots demo_hasher counter_ops mem_nodes mem_nodes (rp_store a') (rp_clock a') bob = Some (Inr (), b') \<and>
    rp_state a' = rp_state b' \<and> events bt_get b' = events bt_get alice ++ events bt_get bob"
  using mem_exchange_converges [OF alice_ok bob_ok demo_agree] by blast

text \<open>C22 (\<open>replica_refines_events\<close>): a replica in order implements an abstract set of events: its roots and
  its state are functions of the set; recording an operation adds one event above the roots and applies
  the operation to the state; a successful synchronization with a peer is the union with the events below
  the fetched root.\<close>

theorem replica_refines_events:
  assumes S: "dag_store S view" and T: "dag_store T rview" and ok: "replica_ok H P view rp"
    and RV: "dag_ok H (pl_encode P) (rview remote)" and root: "root \<in> dom (rview remote)"
    and agree: "agree (view (rp_store rp)) (rview remote)"
    and same: "\<forall>m. view (rp_store rp) (node_cid H (pl_encode P) (new_node op rp)) = Some m \<longrightarrow> m = new_node op rp"
  shows "rp_clock rp = sorted_list_of_set (ev_roots (events view rp)) \<and> rp_state rp = dag_state P (events view rp) \<and>
    (\<forall>cid rp'. replica_apply H P S op rp = (Inr cid, rp') \<longrightarrow> replica_ok H P view rp' \<and>
       events view rp' = ev_record H (pl_encode P) op (events view rp) \<and> rp_state rp' = pl_apply P (rp_state rp) op) \<and>
    (\<forall>u rp'. replica_sync H P S T root remote rp = Some (Inr u, rp') \<longrightarrow> replica_ok H P view rp' \<and>
       events view rp' = events view rp ++ rview remote |` ancestry (rview remote) {root})"
proof (intro conjI allI impI)
  show "rp_clock rp = sorted_list_of_set (ev_roots (events view rp))" by (rule events_clock [OF ok])
  show "rp_state rp = dag_state P (events view rp)" by (rule events_state [OF ok])
next
  fix cid rp' assume run: "replica_apply H P S op rp = (Inr cid, rp')"
  have new: "\<And>m. view (rp_store rp) (node_cid H (pl_encode P) (new_node op rp)) = Some m \<Longrightarrow> m = new_node op rp"
    using same by blast
  from replica_apply_correct [OF S ok new run] show "replica_ok H P view rp'" "rp_state rp' = pl_apply P (rp_state rp) op"
    by simp_all
  show "events view rp' = ev_record H (pl_encode P) op (events view rp)" by (rule apply_events [OF S ok new run])
next
  fix u rp' assume run: "replica_sync H P S T root remote rp = Some (Inr u, rp')"
  from replica_sync_honest [OF S T ok RV root agree] run show "replica_ok H P view rp'" by auto
  show "events view rp' = events view rp ++ rview remote |` ancestry (rview remote) {root}"
    by (rule sync_events [OF S T ok RV root agree run])
qed

lemma demo_same:
  "\<forall>m. bt_get (rp_store alice) (node_cid demo_hasher (pl_encode counter_ops) (new_node 5 alice)) = Some m \<longrightarrow> m = new_node 5 alice"
proof -
  have "bt_get (rp_store alice) (node_cid demo_hasher (pl_encode counter_ops) (new_node 5 alice)) = None" by code_simp
  then show ?thesis by simp
qed

theorem replica_refines_events_witness:
  "events bt_get (snd (replica_apply demo_hasher counter_ops mem_nodes 5 alice)) =
     ev_record demo_hasher (pl_encode counter_ops) 5 (events bt_get alice) \<and>
   events bt_get (joined True) = events bt_get alice ++ bt_get (rp_store bob) |` ancestry (bt_get (rp_store bob)) {2}"
proof -
  have root: "2 \<in> dom (bt_get (rp_store bob))" by (auto simp: demo_stores bt_get_def)
  have run: "replica_apply demo_hasher counter_ops mem_nodes 5 alice =
      (Inr 21, snd (replica_apply demo_hasher counter_ops mem_nodes 5 alice))"
    using surjective_pairing [of "replica_apply demo_hasher counter_ops mem_nodes 5 alice"]
    by (subst surjective_pairing) (rule arg_cong2 [where f = Pair], code_simp, rule refl)
  have sync: "replica_sync demo_hasher counter_ops mem_nodes mem_nodes 2 (rp_store bob) alice = Some (Inr (), joined True)"
    by code_simp
  from replica_refines_events [OF mem_nodes_store mem_nodes_store alice_ok replica_okD(1) [OF bob_ok] root demo_agree demo_same]
    run sync show ?thesis by blast
qed

text \<open>C23 (\<open>sync_error_atomic\<close>): a synchronization from any remote store always returns, also from one whose
  nodes do not match their identifiers or form a cycle; when it fails, at whatever point, the roots and
  the state are unchanged, the store has only gained verified nodes whose children are present, so that
  the replica stays in order and a retry can finish; and with a sound remote that holds the root, the
  cause is an error of a store or a node the validator rejects.\<close>

theorem sync_error_atomic:
  assumes "dag_store S view" and "dag_store T rview" and "replica_ok H P view rp" and "dag_typed (rview remote)"
  shows "\<exists>r rp'. sync_validated H P S T valid root remote rp = Some (r, rp') \<and> replica_ok H P view rp' \<and>
    view (rp_store rp) \<subseteq>\<^sub>m view (rp_store rp') \<and>
    (\<forall>c n. view (rp_store rp') c = Some n \<longrightarrow> view (rp_store rp) c = Some n \<or> rview remote c = Some n) \<and>
    (\<forall>x. r = Inl x \<longrightarrow> rp_clock rp' = rp_clock rp \<and> rp_state rp' = rp_state rp \<and>
      (dag_ok H (pl_encode P) (rview remote) \<and> root \<in> dom (rview remote) \<longrightarrow>
         (\<exists>e. x = SyncLocal e \<and> store_raises S e) \<or> (\<exists>e. x = SyncRemote e \<and> store_raises T e) \<or>
         x = SyncInvalidAuthor \<and>
           (\<exists>c n. (view (rp_store rp) c = Some n \<or> rview remote c = Some n) \<and> \<not> valid c n)))"
proof -
  from sync_validated_correct [OF assms, of valid root] obtain r rp'
    where "sync_validated H P S T valid root remote rp = Some (r, rp')"
      "sync_outcome (store_raises S) (store_raises T) H P view (rview remote) valid root rp r rp'" by blast
  then show ?thesis unfolding sync_outcome_def Let_def by (intro exI [of _ r] exI [of _ rp']) auto
qed

text \<open>A remote that serves two nodes which are each other's child, both found under the identifier they
  hash to: they are never stored and the synchronization fails on the missing root.\<close>

definition cyclic_nodes :: "(nat, nat) mem_store" where
  "cyclic_nodes = [(17, \<lparr>payload = 1, children = [18]\<rparr>), (18, \<lparr>payload = 2, children = [17]\<rparr>)]"

theorem sync_error_atomic_witness:
  "\<exists>rp'. sync_validated demo_hasher counter_ops mem_nodes mem_nodes accept_all 17 cyclic_nodes alice =
     Some (Inl SyncMissingNode, rp') \<and> rp_clock rp' = rp_clock alice \<and> rp_state rp' = rp_state alice \<and>
     replica_ok demo_hasher counter_ops bt_get rp' \<and> \<not> acyclic (edges (bt_get cyclic_nodes))"
proof -
  have typed: "dag_typed (bt_get cyclic_nodes)"
    by (auto simp: dag_typed_def cyclic_nodes_def bt_get_def bs_wf_def split: if_splits)
  have "(17, 18) \<in> edges (bt_get cyclic_nodes)" "(18, 17) \<in> edges (bt_get cyclic_nodes)"
    by (simp_all add: edges_def kids_def cyclic_nodes_def bt_get_def)
  then have "(17, 17) \<in> (edges (bt_get cyclic_nodes))\<^sup>+" by (rule trancl_trans [OF r_into_trancl r_into_trancl])
  then have "\<not> acyclic (edges (bt_get cyclic_nodes))" by (auto simp: acyclic_def)
  moreover have "fst (the (sync_validated demo_hasher counter_ops mem_nodes mem_nodes accept_all 17 cyclic_nodes alice)) =
      Inl SyncMissingNode" by code_simp
  ultimately show ?thesis
    using sync_error_atomic [OF mem_nodes_store mem_nodes_store alice_ok typed, of accept_all 17] by auto
qed

text \<open>C24 (\<open>from_roots_sound\<close>): recovery from persisted roots over any finite acyclic store returns, and
  activates a replica only if every node below the roots is present, matches its identifier and is
  accepted by the validator; the roots are then the heads and the state is that of all those nodes. Over a
  sound store only the store or the validator can make it fail.\<close>

theorem from_roots_sound:
  assumes "dag_store S view" and "acyclic (edges (view s))" and "dag_typed (view s)"
  shows "\<exists>r. from_roots_validated H P S valid s roots = Some r \<and>
    (\<forall>rp. r = Inr rp \<longrightarrow> rp_store rp = s \<and> set (rp_clock rp) = heads (view s) (set roots) \<and>
       intact H (pl_encode P) (view s) (ancestry (view s) (set roots)) \<and>
       (\<forall>c \<in> ancestry (view s) (set roots). valid c (the (view s c))) \<and>
       rp_state rp = dag_state P (view s |` ancestry (view s) (set roots))) \<and>
    (\<forall>x. r = Inl x \<and> dag_ok H (pl_encode P) (view s) \<and> set roots \<subseteq> dom (view s) \<longrightarrow>
       (\<exists>e. x = StoreError e \<and> store_raises S e) \<or>
       x = InvalidAuthor \<and> (\<exists>c \<in> ancestry (view s) (set roots). \<exists>n. view s c = Some n \<and> \<not> valid c n))"
proof -
  from from_roots_correct [OF assms, of H P valid roots] obtain r
    where "from_roots_validated H P S valid s roots = Some r"
      "case r of
         Inr rp \<Rightarrow> rp_store rp = s \<and> bs_wf (rp_clock rp) \<and> set (rp_clock rp) = heads (view s) (set roots) \<and>
           intact H (pl_encode P) (view s) (ancestry (view s) (set roots)) \<and>
           (\<forall>c \<in> ancestry (view s) (set roots). valid c (the (view s c))) \<and>
           rp_state rp = dag_state P (view s |` ancestry (view s) (set roots))
       | Inl x \<Rightarrow> dag_ok H (pl_encode P) (view s) \<and> set roots \<subseteq> dom (view s) \<longrightarrow>
           (\<exists>e. x = StoreError e \<and> store_raises S e) \<or>
           x = InvalidAuthor \<and> (\<exists>c \<in> ancestry (view s) (set roots). \<exists>n. view s c = Some n \<and> \<not> valid c n)" by blast
  then show ?thesis by (intro exI [of _ r]) (cases r, simp_all)
qed

theorem from_roots_sound_witness:
  "\<exists>rp. from_roots_validated demo_hasher counter_ops mem_nodes accept_all (rp_store alice) [1] = Some (Inr rp) \<and>
     set (rp_clock rp) = heads (bt_get (rp_store alice)) {1}"
proof -
  note V = replica_okD(1) [OF alice_ok]
  have "\<not> isl (the (from_roots_validated demo_hasher counter_ops mem_nodes accept_all (rp_store alice) [1]))" by code_simp
  with from_roots_sound [OF mem_nodes_store dag_ok_acyclic [OF V] dag_ok_typed [OF V], of demo_hasher counter_ops accept_all "[1]"]
  show ?thesis by (auto simp: isl_def) (metis sum.exhaust)
qed

section \<open>Traversals\<close>

text \<open>C25 (\<open>fetch_missing_complete\<close>): fetching from any remote store returns; a result consists of exactly
  the remote nodes below the root that the local store lacks, each matching its identifier, ordered so
  that a node comes after those of its children that are fetched with it, and everything below the root
  is then held locally; from a sound remote that has the root only a store error can prevent a result.\<close>

theorem fetch_missing_complete:
  assumes "dag_store L lv" and "dag_store R rv" and "acyclic (edges (rv rs))" and "dag_typed (rv rs)"
  shows "\<exists>r. fetch_missing H E L ls R rs root = Some r \<and>
    (\<forall>ns. r = Inr ns \<longrightarrow> map_of ns = fetched (lv ls) (rv rs) root \<and>
       causal_order (fetched (lv ls) (rv rs) root) (map fst ns) \<and> list_all (\<lambda>(c, n). node_cid H E n = c) ns \<and>
       ancestry (absent (lv ls) (rv rs)) {root} \<subseteq> dom (lv ls ++ map_of ns)) \<and>
    (\<forall>x. r = Inl x \<and> dag_ok H E (rv rs) \<and> root \<in> dom (rv rs) \<longrightarrow>
       (\<exists>e. x = SyncLocal e \<and> store_raises L e) \<or> (\<exists>e. x = SyncRemote e \<and> store_raises R e))"
proof -
  from fetch_missing_correct [OF assms(1,2,4), of H E ls root] obtain r
    where r: "fetch_missing H E L ls R rs root = Some r"
      "case r of Inr ns \<Rightarrow> fetch_result H E (lv ls) (rv rs) root ns
       | Inl x \<Rightarrow> dag_ok H E (rv rs) \<and> root \<in> dom (rv rs) \<longrightarrow>
         (\<exists>e. x = SyncLocal e \<and> store_raises L e) \<or> (\<exists>e. x = SyncRemote e \<and> store_raises R e)" by blast
  have held: "ancestry (absent (lv ls) (rv rs)) {root} \<subseteq> dom (lv ls ++ map_of ns)"
    if res: "fetch_result H E (lv ls) (rv rs) root ns" for ns
  proof
    fix c assume c: "c \<in> ancestry (absent (lv ls) (rv rs)) {root}"
    with res have "c \<in> dom (lv ls) \<or> c \<in> dom (rv rs)" by (auto simp: fetch_result_def)
    with c fetch_result_causal(1) [OF res assms(3)] show "c \<in> dom (lv ls ++ map_of ns)"
      by (cases "c \<in> dom (lv ls)") (auto simp: fetched_def)
  qed
  show ?thesis
  proof (cases r)
    case (Inl x)
    with r show ?thesis by simp
  next
    case (Inr ns)
    with r have res: "fetch_result H E (lv ls) (rv rs) root ns" by simp
    then have "map_of ns = fetched (lv ls) (rv rs) root" "causal_order (fetched (lv ls) (rv rs) root) (map fst ns)"
      "list_all (\<lambda>(c, n). node_cid H E n = c) ns"
      using fetch_result_causal [OF res assms(3)] by (simp_all add: fetch_result_def)
    with held [OF res] r(1) Inr show ?thesis by (intro exI [of _ "Inr ns"]) (simp only: sum.inject sum.distinct simp_thms)
  qed
qed

theorem fetch_missing_complete_witness:
  "fetch_missing demo_hasher (pl_encode counter_ops) mem_nodes (rp_store alice) mem_nodes (rp_store bob) 2 =
     Some (Inr [(2, \<lparr>payload = 2, children = []\<rparr>)]) \<and>
   map_of [(2, \<lparr>payload = 2, children = []\<rparr>)] = fetched (bt_get (rp_store alice)) (bt_get (rp_store bob)) 2"
proof -
  note V = replica_okD(1) [OF bob_ok]
  have "fetch_missing demo_hasher (pl_encode counter_ops) mem_nodes (rp_store alice) mem_nodes (rp_store bob) 2 =
     Some (Inr [(2, \<lparr>payload = 2, children = []\<rparr>)])" by code_simp
  with fetch_missing_complete [OF mem_nodes_store mem_nodes_store dag_ok_acyclic [OF V] dag_ok_typed [OF V],
      of demo_hasher "pl_encode counter_ops" "rp_store alice" 2] show ?thesis by auto
qed

text \<open>C26 (\<open>topological_sort_reference\<close>): on an ordered map of nodes the sort returns without a panic, and with
  its counters and reverse edges computes the reference order, a function of the graph alone; on an
  acyclic graph every node is in it once, after all its children.\<close>

theorem topological_sort_reference:
  assumes "nodes_ok nodes"
  shows "topological_sort nodes =
      Some (map (\<lambda>c. (c, the (bt_get nodes c))) (kahn_order (bt_get nodes) (map fst nodes))) \<and>
    (acyclic (edges (bt_get nodes)) \<longrightarrow> causal_order (bt_get nodes) (kahn_order (bt_get nodes) (map fst nodes)))"
  using topological_sort_kahn [OF assms] kahn_order_causal [of "map fst nodes" "bt_get nodes"] assms
  by (simp add: dom_bt_get nodes_ok_def bt_wf_distinct)

definition chain_nodes :: "(nat, nat) mem_store" where
  "chain_nodes = [(1, \<lparr>payload = 0, children = [2, 3]\<rparr>), (2, \<lparr>payload = 0, children = [3]\<rparr>), (3, \<lparr>payload = 0, children = [9]\<rparr>)]"

theorem topological_sort_reference_witness:
  "map_option (map fst) (topological_sort chain_nodes) = Some [3, 2, 1] \<and>
   kahn_order (bt_get chain_nodes) [1, 2, 3] = [3, 2, 1]"
proof -
  have "nodes_ok chain_nodes" by (simp add: nodes_ok_def chain_nodes_def bt_wf_def)
  from topological_sort_reference [OF this]
  have "map_option (map fst) (topological_sort chain_nodes) = Some (kahn_order (bt_get chain_nodes) [1, 2, 3])"
    by (simp add: o_def chain_nodes_def)
  moreover have "map_option (map fst) (topological_sort chain_nodes) = Some [3, 2, 1]" by code_simp
  ultimately show ?thesis by simp
qed

text \<open>C27 (\<open>clock_merge_heads\<close>): merging clocks over a sound store that holds all roots returns the heads of
  the union: the roots no other root leads to, with nothing of either ancestry lost; only the store can
  make it fail.\<close>

theorem clock_merge_heads:
  assumes "dag_store S view" and ok: "dag_ok H E (view s)" and wf: "bs_wf roots"
    and dom: "set roots \<union> set remote \<subseteq> dom (view s)"
  shows "\<exists>r. clock_merge H E S s roots remote = Some r \<and>
    (case r of
       Inr rs \<Rightarrow> bs_wf rs \<and> set rs = heads (view s) (set roots \<union> set remote) \<and>
         ancestry (view s) (set rs) = ancestry (view s) (set roots) \<union> ancestry (view s) (set remote)
     | Inl x \<Rightarrow> \<exists>e. x = StoreError e \<and> store_raises S e)"
proof -
  have "bs_wf (bs_extend remote roots)" using wf by simp
  from dag_store.compact_roots_correct [OF assms(1) dag_ok_acyclic [OF ok] this, of H E] obtain r
    where r: "clock_merge H E S s roots remote = Some r"
      "search_result (store_raises S) H E (view s) (set remote \<union> set roots) r
         (\<lambda>rs. bs_wf rs \<and> set rs = heads (view s) (set remote \<union> set roots))"
    by (auto simp: clock_merge_def)
  have "ancestry (view s) (heads (view s) (set roots \<union> set remote)) =
      ancestry (view s) (set roots) \<union> ancestry (view s) (set remote)"
    using dag_ok_acyclic [OF ok] by (simp add: ancestry_heads ancestry_Un)
  with r ok dom show ?thesis by (cases r) (auto simp: Un_commute)
qed

theorem clock_merge_heads_witness:
  "clock_merge demo_hasher (pl_encode counter_ops) mem_nodes (rp_store (joined True)) [1] [2] = Some (Inr [1, 2]) \<and>
     heads (bt_get (rp_store (joined True))) (set [1] \<union> set [2]) = {1, 2}"
proof -
  note sound = sync_validated_correct [OF mem_nodes_store mem_nodes_store alice_ok dag_ok_typed [OF replica_okD(1) [OF bob_ok]],
      of accept_all 2]
  have "sync_validated demo_hasher counter_ops mem_nodes mem_nodes accept_all 2 (rp_store bob) alice = Some (Inr (), joined True)"
    by code_simp
  with sound have ok: "replica_ok demo_hasher counter_ops bt_get (joined True)" by (simp add: sync_outcome_def Let_def)
  have dom: "set [1] \<union> set [2] \<subseteq> dom (bt_get (rp_store (joined True)))"
    using replica_okD(3) [OF ok] joined_clocks [of True] by simp
  have run: "clock_merge demo_hasher (pl_encode counter_ops) mem_nodes (rp_store (joined True)) [1] [2] = Some (Inr [1, 2])"
    by code_simp
  have "bs_wf [1]" by (simp add: bs_wf_def)
  from clock_merge_heads [OF mem_nodes_store replica_okD(1) [OF ok] this dom, unfolded run]
  have "set [1, 2] = heads (bt_get (rp_store (joined True))) (set [1] \<union> set [2])" by (auto simp del: set_simps)
  with run show ?thesis by (metis list.set(1,2))
qed

text \<open>C28 (\<open>walk_post_order\<close>): the walk returns, calls its visitor on distinct nodes, each with the node
  stored under its identifier and after all its children, and a walk without error has called it on
  every node below the root; in a sound store that holds the root only the store can make it fail.\<close>

theorem walk_post_order:
  assumes "dag_store S view" and "acyclic (edges (view s))"
  shows "\<exists>r calls. walk H E S s root = Some (r, calls) \<and> distinct (map fst calls) \<and>
    (\<forall>i < length calls. view s (fst (calls ! i)) = Some (snd (calls ! i)) \<and>
       kids (view s) (fst (calls ! i)) \<subseteq> set (map fst (take i calls))) \<and>
    (\<forall>u. r = Inr u \<longrightarrow> set (map fst calls) = ancestry (view s) {root}) \<and>
    (\<forall>x. r = Inl x \<and> dag_ok H E (view s) \<and> root \<in> dom (view s) \<longrightarrow> (\<exists>e. x = StoreError e \<and> store_raises S e))"
proof -
  from dag_store.walk_loop_correct [OF assms walk_inv_start, of H E root] obtain r calls
    where "walk H E S s root = Some (r, calls)" "calls_ok (view s) calls"
      "search_result (store_raises S) H E (view s) {root} r (\<lambda>_. set (map fst calls) = ancestry (view s) {root})"
    by (auto simp: walk_def)
  then show ?thesis unfolding calls_ok_def by (intro exI [of _ r] exI [of _ calls]) (cases r, auto)
qed

theorem walk_post_order_witness:
  "walk demo_hasher (pl_encode counter_ops) mem_nodes (rp_store alice) 1 =
     Some (Inr (), [(1, \<lparr>payload = 1, children = []\<rparr>)]) \<and> ancestry (bt_get (rp_store alice)) {1} = {1}"
proof -
  have "walk demo_hasher (pl_encode counter_ops) mem_nodes (rp_store alice) 1 =
     Some (Inr (), [(1, \<lparr>payload = 1, children = []\<rparr>)])" by code_simp
  with walk_post_order [OF mem_nodes_store dag_ok_acyclic [OF replica_okD(1) [OF alice_ok]],
      of demo_hasher "pl_encode counter_ops" 1] show ?thesis by auto
qed

section \<open>Encoding\<close>

text \<open>C29 (\<open>node_bytes_roundtrip\<close>): for every digest type and every payload whose codec reads back what it
  writes, decoding the bytes of a node gives the node back, and two different nodes
  have different bytes; if they share an identifier, those two byte strings are a collision of the hash
  function.\<close>

theorem node_bytes_roundtrip:
  assumes H: "digest H" and cd: "codec E D ok" and n: "node_ok ok n" "length (node_to_bytes H E n) \<le> usize_max"
  shows "node_from_bytes H D (node_to_bytes H E n) = Some n \<and>
    (\<forall>m. node_ok ok m \<and> m \<noteq> n \<longrightarrow> node_to_bytes H E m \<noteq> node_to_bytes H E n \<and>
       (node_cid H E m = node_cid H E n \<longrightarrow>
          hash_fn H (node_to_bytes H E m) = hash_fn H (node_to_bytes H E n)))"
proof (intro conjI allI impI)
  show decoded: "node_from_bytes H D (node_to_bytes H E n) = Some n" by (rule digest.node_from_to_bytes [OF H cd n])
  fix m assume m: "node_ok ok m \<and> m \<noteq> n"
  show "node_to_bytes H E m \<noteq> node_to_bytes H E n"
  proof
    assume same: "node_to_bytes H E m = node_to_bytes H E n"
    have "node_from_bytes H D (node_to_bytes H E m) = Some m"
      by (rule digest.node_from_to_bytes [OF H cd]) (use m n(2) in \<open>simp_all only: same\<close>)
    with decoded m show False unfolding same by simp
  qed
qed (simp add: node_cid_def)

definition demo_node :: "(256 word, 64 word) dag_node" where
  "demo_node = \<lparr>payload = 7, children = [1, 2]\<rparr>"

theorem node_bytes_roundtrip_witness:
  "node_from_bytes (digest32 (\<lambda>_. 0)) decode_int (node_to_bytes (digest32 (\<lambda>_. 0)) encode_int demo_node) = Some demo_node"
proof -
  have len: "length (node_to_bytes (digest32 (\<lambda>_. 0)) encode_int demo_node) \<le> usize_max"
    by (simp add: node_to_bytes_def digest32_def encode_int_def demo_node_def del: to_le_bytes.simps)
  have ok: "node_ok (\<lambda>_. True) demo_node" by (simp add: node_ok_def bs_wf_def demo_node_def)
  from node_bytes_roundtrip [OF d32.digest_axioms u64_codec.codec_axioms ok len] show ?thesis ..
qed

text \<open>C30 (\<open>decoders_in_bounds\<close>): on any bytes, hostile ones included, a decoder that returns has moved its
  cursor forward and not past the end of the buffer, for every scalar, string, sequence, set, option and
  pair; a decoded sequence or set has at most a million items, and a set is strictly ascending.\<close>

theorem decoders_in_bounds:
  assumes A: "in_bounds DA" and B: "in_bounds DB"
  shows "in_bounds decode_bool \<and> in_bounds (decode_int :: 64 word decode) \<and> in_bounds (decode_array n) \<and>
    in_bounds decode_string \<and> in_bounds (decode_vec DA) \<and> in_bounds (decode_set DB) \<and> in_bounds (decode_option DA) \<and>
    in_bounds (decode_tuple2 DA DB) \<and> in_bounds (decode_tuple3 DA DA DB) \<and> in_bounds (decode_tuple4 DA DB DA DB) \<and>
    (\<forall>xs p. decode_vec DA buf pos = Some (xs, p) \<longrightarrow> length xs \<le> max_decode_items) \<and>
    (\<forall>xs p. decode_set DB buf pos = Some (xs, p) \<longrightarrow> bs_wf xs \<and> length xs \<le> max_decode_items)"
  using assms decode_vec_bounds(1) [OF A] decode_set_bounds(1,2) [OF B]
  by (auto simp: decoder_bounds decode_tuple3_def decode_tuple4_def)

theorem decoders_in_bounds_witness:
  "in_bounds (decode_vec decode_string) \<and> decode_vec (decode_int :: 8 word decode) (replicate 8 255) 0 = None"
proof -
  have "in_bounds (decode_vec decode_string)"
    using decoders_in_bounds [OF string_bounds scalar_bounds(3) [where 'w = 8]] by blast
  moreover have "decode_vec (decode_int :: 8 word decode) (replicate 8 255) 0 = None" by code_simp
  ultimately show ?thesis ..
qed

text \<open>C31 (\<open>node_from_bytes_typed\<close>): every node that decoding accepts is a well-formed value: its children are
  strictly ascending, so without duplicates, and their number is the announced one; the payload is the
  decoding of exactly the announced payload bytes.\<close>

theorem node_from_bytes_typed:
  assumes "node_from_bytes H D b = Some n"
  shows "bs_wf (children n) \<and> 16 + from_le_bytes (take 8 b) \<le> length b \<and>
    decode_all D (take (from_le_bytes (take 8 b)) (drop 8 b)) = Some (payload n) \<and>
    length (children n) = from_le_bytes (take 8 (drop (8 + from_le_bytes (take 8 b)) b))"
  by (rule node_from_bytes_shape [OF assms])

theorem node_from_bytes_typed_witness:
  "node_from_bytes demo_hasher (decode_int :: 8 word decode) ([1, 0, 0, 0, 0, 0, 0, 0, 7] @ replicate 8 0) =
     Some \<lparr>payload = 7, children = []\<rparr> \<and>
   decode_all (decode_int :: 8 word decode) [7] = Some 7"
proof -
  let ?b = "[1, 0, 0, 0, 0, 0, 0, 0, 7] @ replicate 8 0 :: byte list"
  have run: "node_from_bytes demo_hasher (decode_int :: 8 word decode) ?b = Some \<lparr>payload = 7, children = []\<rparr>" by code_simp
  have "take (from_le_bytes (take 8 ?b)) (drop 8 ?b) = [7]" by code_simp
  with node_from_bytes_typed [OF run] run show ?thesis by simp
qed

end
