(* ===== verification/Smt_State.thy ===== *)
theory Smt_State
  imports Merkle_Node "HOL-Library.List_Lexorder" "HOL-Library.Product_Lexorder"
begin

unbundle bit_operations_syntax

text \<open>
  Sparse Merkle trees, \<open>vos/src/zk/state.rs\<close>: the hash of a fixed-depth tree over byte keys,
  inclusion proofs and the multiproof \<open>BatchProof\<close> with its \<open>WitnessedLedger\<close>. A
  \<open>[u8; 32]\<close> is a 256-bit word, as in \<open>Merkle_Node\<close>; the hash function
  \<open>blake2b_hash::<32>\<close> is the parameter \<open>B\<close>, a function of the domain and the parts, of
  which nothing is assumed. Keys are byte lists in lexicographic order, as Rust orders slices;
  the functions index a key only below its width. \<open>partition_point\<close> is used on slices sorted
  by key, where it is the length of the longest prefix that satisfies the predicate. A panic is an
  error value.

  The reference is \<open>smt\<close>, the complete binary tree of the given depth over a leaf function.
\<close>

section \<open>Parameters and hashes\<close>

type_synonym hash32 = "256 word"
type_synonym blake2b = "byte list \<Rightarrow> byte list list \<Rightarrow> hash32"

definition EMPTY_LEAF :: hash32 where
  "EMPTY_LEAF = 0"

definition ascii :: "string \<Rightarrow> byte list" where
  "ascii s = map of_char s"

definition VOS_LEAF_DOMAIN :: "byte list" where
  "VOS_LEAF_DOMAIN = ascii ''vos/smt/leaf/v1''"

definition VOS_NODE_DOMAIN :: "byte list" where
  "VOS_NODE_DOMAIN = ascii ''vos/smt/node/v1''"

record smt_params =
  leaf_domain :: "byte list"
  node_domain :: "byte list"
  width :: nat

definition smt_params_vos :: "nat \<Rightarrow> smt_params" where
  "smt_params_vos w = \<lparr>leaf_domain = VOS_LEAF_DOMAIN, node_domain = VOS_NODE_DOMAIN, width = w\<rparr>"

definition smt_depth :: "smt_params \<Rightarrow> nat" where
  "smt_depth p = width p * 8"

definition leaf_hash :: "blake2b \<Rightarrow> smt_params \<Rightarrow> byte list \<Rightarrow> hash32" where
  "leaf_hash B p content = B (leaf_domain p) [content]"

definition node_hash :: "blake2b \<Rightarrow> smt_params \<Rightarrow> hash32 \<Rightarrow> hash32 \<Rightarrow> hash32" where
  "node_hash B p left right = B (node_domain p) [digest32_bytes left, digest32_bytes right]"

definition empty_chain :: "blake2b \<Rightarrow> smt_params \<Rightarrow> hash32 list" where
  "empty_chain B p = foldl (\<lambda>chain d. let below = chain ! (d - 1) in chain @ [node_hash B p below below])
     [EMPTY_LEAF] [1..<Suc (smt_depth p)]"

definition composite_fold :: "blake2b \<Rightarrow> hash32 \<Rightarrow> hash32 list \<Rightarrow> hash32" where
  "composite_fold B state_hash roots = foldl (\<lambda>acc root. node_hash B (smt_params_vos 32) acc root) state_hash roots"

section \<open>Bits of a key\<close>

definition bit_at :: "smt_params \<Rightarrow> byte list \<Rightarrow> nat \<Rightarrow> bool" where
  "bit_at p key d =
     (let bit_from_msb = smt_depth p - 1 - d;
          byte_idx = bit_from_msb div 8;
          bit_idx = 7 - bit_from_msb mod 8
      in drop_bit bit_idx (key ! byte_idx) AND 1 = 1)"

definition level_bit :: "byte list \<Rightarrow> nat \<Rightarrow> bool" where
  "level_bit key level \<longleftrightarrow> drop_bit (7 - level mod 8) (key ! (level div 8)) AND 1 = 1"

definition spine_hash ::
  "blake2b \<Rightarrow> smt_params \<Rightarrow> hash32 list \<Rightarrow> byte list \<Rightarrow> hash32 \<Rightarrow> nat \<Rightarrow> nat \<Rightarrow> hash32" where
  "spine_hash B p chain key h from to =
     foldl (\<lambda>h d. let sibling = chain ! d in
              if bit_at p key d then node_hash B p sibling h else node_hash B p h sibling)
       h [from..<to]"

section \<open>Roots over sorted leaves\<close>

definition partition_point :: "('a \<Rightarrow> bool) \<Rightarrow> 'a list \<Rightarrow> nat" where
  "partition_point P xs = length (takeWhile P xs)"

fun sparse_root_sorted ::
  "blake2b \<Rightarrow> smt_params \<Rightarrow> (byte list \<times> hash32) list \<Rightarrow> nat \<Rightarrow> nat \<Rightarrow> hash32 list \<Rightarrow> hash32" where
  "sparse_root_sorted B p sorted_leaves level 0 chain =
     (if sorted_leaves = [] then chain ! 0 else snd (hd sorted_leaves))"
| "sparse_root_sorted B p sorted_leaves level (Suc depth_from_leaf) chain =
     (if sorted_leaves = [] then chain ! Suc depth_from_leaf
      else let split = partition_point (\<lambda>(k, _). \<not> level_bit k level) sorted_leaves;
               l = sparse_root_sorted B p (take split sorted_leaves) (level + 1) depth_from_leaf chain;
               r = sparse_root_sorted B p (drop split sorted_leaves) (level + 1) depth_from_leaf chain
           in node_hash B p l r)"

definition root_of_sorted :: "blake2b \<Rightarrow> smt_params \<Rightarrow> (byte list \<times> hash32) list \<Rightarrow> hash32" where
  "root_of_sorted B p sorted_leaves =
     sparse_root_sorted B p sorted_leaves 0 (smt_depth p) (empty_chain B p)"

section \<open>Proofs\<close>

record smt_proof =
  sp_key :: "byte list"
  sp_leaf :: hash32
  sp_siblings :: "hash32 list"

definition smt_proof_verify :: "blake2b \<Rightarrow> smt_proof \<Rightarrow> smt_params \<Rightarrow> hash32 \<Rightarrow> bool" where
  "smt_proof_verify B pr p expected_root \<longleftrightarrow>
     (if length (sp_siblings pr) \<noteq> smt_depth p \<or> length (sp_key pr) \<noteq> width p then False
      else foldl (\<lambda>hash (d, sibling).
               if bit_at p (sp_key pr) d then node_hash B p sibling hash else node_hash B p hash sibling)
             (sp_leaf pr) (enumerate 0 (sp_siblings pr)) = expected_root)"

definition is_inclusion :: "smt_proof \<Rightarrow> bool" where
  "is_inclusion pr \<longleftrightarrow> sp_leaf pr \<noteq> EMPTY_LEAF"

record frontier_node =
  fn_level :: "16 word"
  fn_prefix :: "byte list"
  fn_hash :: hash32

type_synonym batch_proof = "frontier_node list"

definition frontier_key :: "frontier_node \<Rightarrow> nat \<times> byte list" where
  "frontier_key n = (unat (fn_level n), fn_prefix n)"

definition from_frontier :: "frontier_node list \<Rightarrow> batch_proof" where
  "from_frontier frontier = sort_key frontier_key frontier"

definition set_level_bit :: "byte list \<Rightarrow> nat \<Rightarrow> byte list" where
  "set_level_bit prefix level =
     prefix[level div 8 := prefix ! (level div 8) OR push_bit (7 - level mod 8) 1]"

function build_frontier_rec ::
  "blake2b \<Rightarrow> smt_params \<Rightarrow> byte list list \<Rightarrow> (byte list \<times> hash32) list \<Rightarrow> byte list \<Rightarrow> nat \<Rightarrow> hash32 list \<Rightarrow>
     frontier_node list" where
  "build_frontier_rec B p touched full prefix level chain =
     (let depth_from_leaf = smt_depth p - level in
      if touched = [] then
        (if full = [] then []
         else [\<lparr>fn_level = of_nat level, fn_prefix = prefix,
                fn_hash = sparse_root_sorted B p full level depth_from_leaf chain\<rparr>])
      else if depth_from_leaf = 0 then []
      else let t_split = partition_point (\<lambda>k. \<not> level_bit k level) touched;
               f_split = partition_point (\<lambda>(k, _). \<not> level_bit k level) full
           in build_frontier_rec B p (take t_split touched) (take f_split full) prefix (level + 1) chain @
              build_frontier_rec B p (drop t_split touched) (drop f_split full) (set_level_bit prefix level)
                (level + 1) chain)"
  by pat_completeness auto
termination
  by (relation "measure (\<lambda>(B, p, touched, full, prefix, level, chain). smt_depth p - level)") auto

definition batch_build ::
  "blake2b \<Rightarrow> smt_params \<Rightarrow> (byte list \<times> hash32) list \<Rightarrow> byte list list \<Rightarrow> batch_proof" where
  "batch_build B p sorted_leaves touched_keys =
     (let chain = empty_chain B p;
          keys = remdups_adj (sort touched_keys)
      in from_frontier (build_frontier_rec B p keys sorted_leaves (replicate (width p) 0) 0 chain))"

text \<open>The search of \<open>slice::binary_search_by\<close>.\<close>

function search_base :: "('a \<Rightarrow> 'k::linorder) \<Rightarrow> 'k \<Rightarrow> 'a list \<Rightarrow> nat \<Rightarrow> nat \<Rightarrow> nat" where
  "search_base f t xs base sz =
     (if sz \<le> 1 then base
      else let half = sz div 2; mid = base + half
           in search_base f t xs (if t < f (xs ! mid) then base else mid) (sz - half))"
  by pat_completeness auto
termination
  by (relation "measure (\<lambda>(f, t, xs, base, sz). sz)") auto

definition binary_search_by :: "('a \<Rightarrow> 'k::linorder) \<Rightarrow> 'k \<Rightarrow> 'a list \<Rightarrow> nat option" where
  "binary_search_by f t xs =
     (if xs = [] then None
      else let base = search_base f t xs 0 (length xs)
           in if f (xs ! base) = t then Some base else None)"

definition frontier_get :: "batch_proof \<Rightarrow> nat \<Rightarrow> byte list \<Rightarrow> hash32 option" where
  "frontier_get frontier level prefix =
     map_option (\<lambda>i. fn_hash (frontier ! i)) (binary_search_by frontier_key (level, prefix) frontier)"

function root_rec ::
  "blake2b \<Rightarrow> batch_proof \<Rightarrow> smt_params \<Rightarrow> (byte list \<times> hash32) list \<Rightarrow> byte list \<Rightarrow> nat \<Rightarrow> hash32 list \<Rightarrow> hash32" where
  "root_rec B frontier p touched prefix level chain =
     (let depth_from_leaf = smt_depth p - level in
      if touched = [] then
        (case frontier_get frontier level prefix of Some h \<Rightarrow> h | None \<Rightarrow> chain ! depth_from_leaf)
      else if depth_from_leaf = 0 then snd (hd touched)
      else let split = partition_point (\<lambda>(k, _). \<not> level_bit k level) touched;
               l = root_rec B frontier p (take split touched) prefix (level + 1) chain;
               r = root_rec B frontier p (drop split touched) (set_level_bit prefix level) (level + 1) chain
           in node_hash B p l r)"
  by pat_completeness auto
termination
  by (relation "measure (\<lambda>(B, frontier, p, touched, prefix, level, chain). smt_depth p - level)") auto

definition batch_root :: "blake2b \<Rightarrow> batch_proof \<Rightarrow> smt_params \<Rightarrow> (byte list \<times> hash32) list \<Rightarrow> hash32" where
  "batch_root B frontier p touched =
     root_rec B frontier p touched (replicate (width p) 0) 0 (empty_chain B p)"

declare build_frontier_rec.simps [simp del] search_base.simps [simp del] root_rec.simps [simp del]

section \<open>Witnessed ledgers\<close>

datatype ledger_panic =
    WrongWidth "byte list"
  | InconsistentWitness hash32 hash32
  | UnprovenRead "byte list"
  | UnprovenWrite "byte list"
  | UnprovenRemove "byte list"

record witnessed_ledger =
  wl_params :: smt_params
  wl_proof :: batch_proof
  wl_leaves :: "(byte list, byte list option) btree"

definition slot_hash :: "blake2b \<Rightarrow> smt_params \<Rightarrow> byte list option \<Rightarrow> hash32" where
  "slot_hash B p v = (case v of Some content \<Rightarrow> leaf_hash B p content | None \<Rightarrow> EMPTY_LEAF)"

definition ledger_root :: "blake2b \<Rightarrow> witnessed_ledger \<Rightarrow> hash32" where
  "ledger_root B me =
     batch_root B (wl_proof me) (wl_params me)
       (map (\<lambda>(k, v). (k, slot_hash B (wl_params me) v)) (wl_leaves me))"

definition ledger_new ::
  "blake2b \<Rightarrow> smt_params \<Rightarrow> batch_proof \<Rightarrow> (byte list \<times> byte list option) list \<Rightarrow> hash32 \<Rightarrow>
     ledger_panic + witnessed_ledger" where
  "ledger_new B params proof touched root_before =
     (let leaves = bt_insert_all touched [] in
      case find (\<lambda>k. length k \<noteq> width params) (map fst leaves) of
        Some k \<Rightarrow> Inl (WrongWidth k)
      | None \<Rightarrow>
          let me = \<lparr>wl_params = params, wl_proof = proof, wl_leaves = leaves\<rparr>;
              recomputed = ledger_root B me
          in if recomputed = root_before then Inr me else Inl (InconsistentWitness recomputed root_before))"

definition ledger_get :: "witnessed_ledger \<Rightarrow> byte list \<Rightarrow> ledger_panic + byte list option" where
  "ledger_get me key = (case bt_get (wl_leaves me) key of Some slot \<Rightarrow> Inr slot | None \<Rightarrow> Inl (UnprovenRead key))"

definition ledger_contains :: "witnessed_ledger \<Rightarrow> byte list \<Rightarrow> ledger_panic + bool" where
  "ledger_contains me key = (case ledger_get me key of Inl e \<Rightarrow> Inl e | Inr slot \<Rightarrow> Inr (slot \<noteq> None))"

definition ledger_insert :: "witnessed_ledger \<Rightarrow> byte list \<Rightarrow> byte list \<Rightarrow> ledger_panic + witnessed_ledger" where
  "ledger_insert me key content =
     (case bt_get (wl_leaves me) key of
        Some slot \<Rightarrow> Inr (me\<lparr>wl_leaves := bt_insert key (Some content) (wl_leaves me)\<rparr>)
      | None \<Rightarrow> Inl (UnprovenWrite key))"

definition ledger_remove :: "witnessed_ledger \<Rightarrow> byte list \<Rightarrow> ledger_panic + witnessed_ledger" where
  "ledger_remove me key =
     (case bt_get (wl_leaves me) key of
        Some slot \<Rightarrow> Inr (me\<lparr>wl_leaves := bt_insert key None (wl_leaves me)\<rparr>)
      | None \<Rightarrow> Inl (UnprovenRemove key))"

record ledger_witness =
  lw_root_before :: hash32
  lw_proof :: batch_proof
  lw_touched :: "(byte list \<times> byte list option) list"

definition into_ledger :: "blake2b \<Rightarrow> ledger_witness \<Rightarrow> smt_params \<Rightarrow> ledger_panic + witnessed_ledger" where
  "into_ledger B lw params = ledger_new B params (lw_proof lw) (lw_touched lw) (lw_root_before lw)"

end
