(* ===== verification/Smt_Tree.thy ===== *)
theory Smt_Tree
  imports Smt_State
begin

text \<open>
  The reference for \<open>Smt_State\<close>: \<open>smt\<close> is the complete binary Merkle tree of a given depth
  over a leaf function, a key's position in it the list of its bits. The theory shows that keys in
  ascending order have their bits in ascending order, so that a sorted slice splits at its partition
  point; that the slice recursion of the code is the reference tree over the slice; and what a
  compressed spine stands for.
\<close>

section \<open>Keys as bit lists\<close>

definition byte_bits :: "byte \<Rightarrow> bool list" where
  "byte_bits b = map (bit b) (rev [0..<8])"

definition key_bits :: "byte list \<Rightarrow> bool list" where
  "key_bits k = concat (map byte_bits k)"

lemma length_byte_bits [simp]: "length (byte_bits b) = 8"
  by (simp add: byte_bits_def)

lemma length_key_bits [simp]: "length (key_bits k) = 8 * length k"
  by (induction k) (simp_all add: key_bits_def)

lemma key_bits_Nil [simp]: "key_bits [] = []"
  by (simp add: key_bits_def)

lemma key_bits_Cons [simp]: "key_bits (b # k) = byte_bits b @ key_bits k"
  by (simp add: key_bits_def)

lemma and_one_bit: "drop_bit n (x :: byte) AND 1 = 1 \<longleftrightarrow> bit x n"
  by (simp add: and_one_eq bit_iff_odd_drop_bit odd_iff_mod_2_eq_one)

lemma level_bit_iff: "level_bit key level \<longleftrightarrow> bit (key ! (level div 8)) (7 - level mod 8)"
  by (simp add: level_bit_def and_one_bit)

lemma nth_byte_bits: "i < 8 \<Longrightarrow> byte_bits b ! i = bit b (7 - i)"
  by (simp add: byte_bits_def rev_nth)

lemma nth_key_bits: "l < 8 * length k \<Longrightarrow> key_bits k ! l = level_bit k l"
proof (induction k arbitrary: l)
  case Nil
  then show ?case by simp
next
  case (Cons b k)
  show ?case
  proof (cases "l < 8")
    case True
    then show ?thesis by (simp add: nth_append nth_byte_bits level_bit_iff)
  next
    case False
    then obtain m where m: "l = m + 8" by (metis add.commute le_Suc_ex linorder_not_le)
    then have "key_bits (b # k) ! l = level_bit k m"
      using Cons by (simp add: nth_append)
    then show ?thesis by (simp add: level_bit_iff m div_add_self2)
  qed
qed

lemma bit_at_level:
  assumes "d < smt_depth p"
  shows "bit_at p key d = level_bit key (smt_depth p - 1 - d)"
  by (simp add: bit_at_def level_bit_def Let_def)

lemma byte_bits_inj: "byte_bits a = byte_bits b \<Longrightarrow> a = b"
  by (rule bit_word_eqI) (simp add: byte_bits_def)

lemma key_bits_inj: "key_bits a = key_bits b \<Longrightarrow> a = b"
proof (induction a arbitrary: b)
  case Nil
  then have "8 * length b = 0" by (metis length_key_bits list.size(3) mult_0_right)
  then show ?case by simp
next
  case (Cons x a)
  from Cons.prems have "8 * length (x # a) = 8 * length b" by (metis length_key_bits)
  then obtain y b' where b: "b = y # b'" by (cases b) auto
  with Cons.prems have "byte_bits x = byte_bits y" "key_bits a = key_bits b'" by simp_all
  then show ?case using Cons.IH b by (auto dest: byte_bits_inj)
qed

lemma key_bits_eq_iff [simp]: "key_bits a = key_bits b \<longleftrightarrow> a = b"
  using key_bits_inj by auto

subsection \<open>Order\<close>

fun bits_val :: "bool list \<Rightarrow> nat" where
  "bits_val [] = 0"
| "bits_val (b # bs) = of_bool b * 2 ^ length bs + bits_val bs"

lemma bits_val_less: "bits_val bs < 2 ^ length bs"
  by (induction bs) (auto simp: less_Suc_eq)

lemma bits_val_mono: "length xs = length ys \<Longrightarrow> xs < ys \<Longrightarrow> bits_val xs < bits_val ys"
proof (induction xs ys rule: list_induct2)
  case Nil
  then show ?case by simp
next
  case (Cons x xs y ys)
  have "bits_val xs < 2 ^ length ys" using bits_val_less [of xs] Cons.hyps by simp
  with Cons show ?case by auto
qed

lemma bits_val_byte: "bits_val (byte_bits b) = unat b"
proof -
  have "unat b < 2 ^ 8" using unsigned_less [of b] by simp
  then have "unat b = horner_sum of_bool 2 (map (bit (unat b)) [0..<8])"
    by (simp only: horner_sum_bit_eq_take_bit take_bit_nat_eq_self)
  also have "\<dots> = horner_sum of_bool 2 (map (bit b) [0..<8])"
    by (rule arg_cong [of _ _ "horner_sum of_bool 2"]) (simp add: bit_unsigned_iff)
  also have "\<dots> = bits_val (byte_bits b)"
    by (simp add: byte_bits_def upt_rec)
  finally show ?thesis by simp
qed

lemma byte_bits_mono: "a < b \<Longrightarrow> byte_bits a < byte_bits b"
  using bits_val_mono [of "byte_bits b" "byte_bits a"]
  by (cases "byte_bits a" "byte_bits b" rule: linorder_cases)
     (auto simp: bits_val_byte word_less_nat_alt dest: byte_bits_inj)

lemma append_less: "length xs = length ys \<Longrightarrow> xs < ys \<Longrightarrow> xs @ us < ys @ vs"
  by (induction xs ys rule: list_induct2) auto

lemma append_less_same: "us < vs \<Longrightarrow> (xs :: 'a::linorder list) @ us < xs @ vs"
  by (induction xs) auto

lemma key_bits_mono: "length a = length b \<Longrightarrow> a < b \<Longrightarrow> key_bits a < key_bits b"
  by (induction a b rule: list_induct2) (auto intro: append_less append_less_same byte_bits_mono)

lemma less_first_difference:
  "take l xs = take l ys \<Longrightarrow> l < length xs \<Longrightarrow> l < length ys \<Longrightarrow> xs < ys \<Longrightarrow> xs ! l \<le> (ys ! l :: 'a::linorder)"
proof (induction l arbitrary: xs ys)
  case 0
  then show ?case by (cases xs; cases ys) auto
next
  case (Suc l)
  then show ?case by (cases xs; cases ys) auto
qed

section \<open>The reference tree\<close>

fun smt :: "('h \<Rightarrow> 'h \<Rightarrow> 'h) \<Rightarrow> nat \<Rightarrow> (bool list \<Rightarrow> 'h) \<Rightarrow> 'h" where
  "smt nh 0 f = f []"
| "smt nh (Suc d) f = nh (smt nh d (\<lambda>bs. f (False # bs))) (smt nh d (\<lambda>bs. f (True # bs)))"

lemma smt_cong: "(\<And>bs. length bs = d \<Longrightarrow> f bs = g bs) \<Longrightarrow> smt nh d f = smt nh d g"
proof (induction d arbitrary: f g)
  case 0
  then show ?case by simp
next
  case (Suc d)
  have "smt nh d (\<lambda>bs. f (b # bs)) = smt nh d (\<lambda>bs. g (b # bs))" for b
    by (rule Suc.IH) (simp add: Suc.prems)
  then show ?case by simp
qed

text \<open>A subtree below a path with nothing beside it.\<close>

definition spine :: "'h \<Rightarrow> bool list \<Rightarrow> (bool list \<Rightarrow> 'h) \<Rightarrow> bool list \<Rightarrow> 'h" where
  "spine e path g bs = (if take (length path) bs = path then g (drop (length path) bs) else e)"

lemma spine_Nil [simp]: "spine e [] g = g"
  by (simp add: spine_def fun_eq_iff)

lemma spine_Cons [simp]: "spine e (b # path) g (c # bs) = (if c = b then spine e path g bs else e)"
  by (simp add: spine_def)

lemma spine_Cons_Nil [simp]: "spine e (b # path) g [] = e"
  by (simp add: spine_def)

lemma spine_append: "spine e (p @ q) g = spine e p (spine e q g)"
proof (induction p)
  case (Cons a p)
  have "spine e ((a # p) @ q) g bs = spine e (a # p) (spine e q g) bs" for bs
    using Cons by (cases bs) simp_all
  then show ?case by (rule ext)
qed simp

text \<open>The hashes of empty subtrees, by height.\<close>

locale empty_subtrees =
  fixes nh :: "'h \<Rightarrow> 'h \<Rightarrow> 'h" and e :: 'h and ch :: "'h list" and n :: nat
  assumes chain_0: "ch ! 0 = e"
    and chain_Suc: "d < n \<Longrightarrow> ch ! Suc d = nh (ch ! d) (ch ! d)"
begin

lemma smt_empty: "d \<le> n \<Longrightarrow> smt nh d (\<lambda>_. e) = ch ! d"
  by (induction d) (simp_all add: chain_0 chain_Suc)

lemma smt_spine_Cons:
  "d \<le> n \<Longrightarrow> smt nh (Suc d) (spine e (b # path) g) =
     (if b then nh (ch ! d) (smt nh d (spine e path g)) else nh (smt nh d (spine e path g)) (ch ! d))"
  by (simp add: smt_empty)

end

lemma length_empty_chain_upto:
  "length (foldl (\<lambda>chain d. let below = chain ! (d - 1) in chain @ [node_hash B p below below])
     [EMPTY_LEAF] [1..<Suc m]) = Suc m"
  by (induction m) (simp_all add: Let_def)

lemma empty_chain_upto:
  "d < m \<Longrightarrow> c = foldl (\<lambda>chain d. let below = chain ! (d - 1) in chain @ [node_hash B p below below])
     [EMPTY_LEAF] [1..<Suc m] \<Longrightarrow> c ! 0 = EMPTY_LEAF \<and> c ! Suc d = node_hash B p (c ! d) (c ! d)"
proof (induction m arbitrary: d c)
  case 0
  then show ?case by simp
next
  case (Suc m)
  define c' where "c' = foldl (\<lambda>chain d. let below = chain ! (d - 1) in chain @ [node_hash B p below below])
     [EMPTY_LEAF] [1..<Suc m]"
  have len: "length c' = Suc m" by (simp only: c'_def length_empty_chain_upto)
  have c: "c = c' @ [node_hash B p (c' ! m) (c' ! m)]"
    unfolding Suc.prems(2) c'_def by (simp add: Let_def)
  have IH: "k < m \<Longrightarrow> c' ! 0 = EMPTY_LEAF \<and> c' ! Suc k = node_hash B p (c' ! k) (c' ! k)" for k
    by (rule Suc.IH) (simp_all add: c'_def)
  have "c' ! 0 = EMPTY_LEAF"
    using IH [of 0] by (cases m) (simp_all add: c'_def)
  then show ?case
    using IH [of d] Suc.prems(1) len by (cases "d = m") (simp_all add: c nth_append)
qed

lemma length_empty_chain [simp]: "length (empty_chain B p) = Suc (smt_depth p)"
  unfolding empty_chain_def by (rule length_empty_chain_upto)

lemma empty_chain_Suc:
  "d < smt_depth p \<Longrightarrow> empty_chain B p ! Suc d = node_hash B p (empty_chain B p ! d) (empty_chain B p ! d)"
  using empty_chain_upto [OF _ empty_chain_def] by blast

lemma empty_chain_0 [simp]: "empty_chain B p ! 0 = EMPTY_LEAF"
proof (cases "smt_depth p = 0")
  case True
  then show ?thesis by (simp add: empty_chain_def)
next
  case False
  then show ?thesis using empty_chain_upto [OF _ empty_chain_def] by blast
qed

interpretation chain: empty_subtrees "node_hash B p" EMPTY_LEAF "empty_chain B p" "smt_depth p"
  for B p
  by unfold_locales (simp_all add: empty_chain_Suc)

section \<open>Cells\<close>

text \<open>The keys of a tree that lie below the node reached by the bits \<open>c\<close>.\<close>

definition in_cell :: "nat \<Rightarrow> bool list \<Rightarrow> byte list \<Rightarrow> bool" where
  "in_cell w c k \<longleftrightarrow> length k = w \<and> length c \<le> 8 * w \<and> take (length c) (key_bits k) = c"

lemma in_cell_Nil [simp]: "in_cell w [] k \<longleftrightarrow> length k = w"
  by (simp add: in_cell_def)

lemma in_cell_snoc:
  "length c < 8 * w \<Longrightarrow> in_cell w (c @ [b]) k \<longleftrightarrow> in_cell w c k \<and> level_bit k (length c) = b"
  by (auto simp: in_cell_def take_Suc_conv_app_nth nth_key_bits)

lemma in_cell_full: "length c = 8 * w \<Longrightarrow> in_cell w c k \<longleftrightarrow> key_bits k = c"
  by (auto simp: in_cell_def)

lemma in_cell_bits: "in_cell w c k \<Longrightarrow> \<exists>bs. key_bits k = c @ bs \<and> length bs = 8 * w - length c"
  by (rule exI [of _ "drop (length c) (key_bits k)"]) (auto simp: in_cell_def, metis append_take_drop_id)

lemma cell_keys_split:
  assumes "in_cell w c a" and "in_cell w c b" and "a < b" and "length c < 8 * w" and "level_bit a (length c)"
  shows "level_bit b (length c)"
proof -
  have "key_bits a < key_bits b" using assms by (simp add: key_bits_mono in_cell_def)
  then have "key_bits a ! length c \<le> key_bits b ! length c"
    using assms by (intro less_first_difference) (simp_all add: in_cell_def)
  then show ?thesis using assms by (simp add: nth_key_bits in_cell_def)
qed

text \<open>Splitting at the partition point is filtering by the bit.\<close>

lemma takeWhile_filter: "sorted_wrt (\<lambda>x y. P y \<longrightarrow> P x) xs \<Longrightarrow> takeWhile P xs = filter P xs"
  by (induction xs) (auto simp: empty_filter_conv)

lemma dropWhile_filter:
  "sorted_wrt (\<lambda>x y. P y \<longrightarrow> P x) xs \<Longrightarrow> dropWhile P xs = filter (\<lambda>x. \<not> P x) xs"
proof (induction xs)
  case (Cons a xs)
  then have "\<not> P a \<Longrightarrow> filter (\<lambda>x. \<not> P x) xs = xs" by (auto simp: filter_id_conv)
  with Cons show ?case by simp
qed simp

lemma partition_point_filter:
  assumes "sorted_wrt (\<lambda>x y. P y \<longrightarrow> P x) xs"
  shows "take (partition_point P xs) xs = filter P xs"
    and "drop (partition_point P xs) xs = filter (\<lambda>x. \<not> P x) xs"
  unfolding partition_point_def takeWhile_eq_take [symmetric] dropWhile_eq_drop [symmetric]
  by (rule takeWhile_filter [OF assms], rule dropWhile_filter [OF assms])

definition below :: "nat \<Rightarrow> bool list \<Rightarrow> byte list list \<Rightarrow> bool" where
  "below w c ks \<longleftrightarrow> sorted_wrt (<) ks \<and> (\<forall>k \<in> set ks. in_cell w c k)"

lemma below_sorted_bit:
  assumes "below w c (map f xs)" and "length c < 8 * w"
  shows "sorted_wrt (\<lambda>x y. \<not> level_bit (f y) (length c) \<longrightarrow> \<not> level_bit (f x) (length c)) xs"
proof (rule sorted_wrt_mono_rel)
  show "sorted_wrt (\<lambda>x y. f x < f y) xs"
    using assms(1) by (simp add: below_def sorted_wrt_map)
  show "\<not> level_bit (f y) (length c) \<longrightarrow> \<not> level_bit (f x) (length c)"
    if "x \<in> set xs" and "y \<in> set xs" and "f x < f y" for x y
    using assms that cell_keys_split [of w c "f x" "f y"] by (auto simp: below_def)
qed

lemma below_split:
  assumes "below w c (map f xs)" and "length c < 8 * w"
  shows "take (partition_point (\<lambda>x. \<not> level_bit (f x) (length c)) xs) xs =
           filter (\<lambda>x. \<not> level_bit (f x) (length c)) xs"
    and "drop (partition_point (\<lambda>x. \<not> level_bit (f x) (length c)) xs) xs =
           filter (\<lambda>x. level_bit (f x) (length c)) xs"
  using partition_point_filter [OF below_sorted_bit [OF assms]] by simp_all

lemma below_filter:
  assumes "below w c (map f xs)" and "length c < 8 * w"
  shows "below w (c @ [b]) (map f (filter (\<lambda>x. level_bit (f x) (length c) = b) xs))"
  using assms by (simp add: below_def sorted_wrt_map in_cell_snoc sorted_wrt_filter)

section \<open>The code's roots are the reference\<close>

definition leaf_map :: "(byte list \<times> hash32) list \<Rightarrow> bool list \<Rightarrow> hash32" where
  "leaf_map kvs bs = (case map_of (map (\<lambda>(k, h). (key_bits k, h)) kvs) bs of None \<Rightarrow> EMPTY_LEAF | Some h \<Rightarrow> h)"

lemma leaf_map_Nil [simp]: "leaf_map [] = (\<lambda>_. EMPTY_LEAF)"
  by (simp add: leaf_map_def fun_eq_iff)

lemma leaf_map_Cons [simp]: "leaf_map ((k, h) # kvs) bs = (if bs = key_bits k then h else leaf_map kvs bs)"
  by (simp add: leaf_map_def)

lemma leaf_map_filter:
  "(\<And>k h. (k, h) \<in> set kvs \<Longrightarrow> key_bits k = bs \<Longrightarrow> P (k, h)) \<Longrightarrow> leaf_map (filter P kvs) bs = leaf_map kvs bs"
  by (induction kvs) auto

lemma leaf_map_key: "leaf_map kvs (key_bits k) = (case map_of kvs k of None \<Rightarrow> EMPTY_LEAF | Some h \<Rightarrow> h)"
  by (induction kvs) auto

lemma leaf_map_side:
  assumes "length c < 8 * w" and "\<forall>k \<in> fst ` set kvs. length k = w"
  shows "leaf_map (filter (\<lambda>x. level_bit (fst x) (length c) = b) kvs) ((c @ [b]) @ bs) = leaf_map kvs (c @ b # bs)"
proof -
  have "leaf_map (filter (\<lambda>x. level_bit (fst x) (length c) = b) kvs) (c @ b # bs) = leaf_map kvs (c @ b # bs)"
  proof (rule leaf_map_filter)
    fix k h
    assume k: "(k, h) \<in> set kvs" "key_bits k = c @ b # bs"
    then have "level_bit k (length c) = (c @ b # bs) ! length c"
      using assms nth_key_bits [of "length c" k] by (force simp del: nth_append)
    then show "level_bit (fst (k, h)) (length c) = b" by simp
  qed
  then show ?thesis by simp
qed

lemma sparse_root_smt:
  assumes "below (width p) c (map fst kvs)" and "length c + d = smt_depth p"
  shows "sparse_root_sorted B p kvs (length c) d (empty_chain B p) =
    smt (node_hash B p) d (\<lambda>bs. leaf_map kvs (c @ bs))"
  using assms
proof (induction d arbitrary: c kvs)
  case 0
  then show ?case
    by (cases kvs) (auto simp: below_def in_cell_full smt_depth_def)
next
  case (Suc d)
  have len: "length c < 8 * width p" using Suc.prems(2) by (simp add: smt_depth_def)
  have w: "\<forall>k \<in> fst ` set kvs. length k = width p"
    using Suc.prems(1) by (auto simp: below_def in_cell_def)
  have IH: "sparse_root_sorted B p (filter (\<lambda>x. level_bit (fst x) (length c) = b) kvs) (length c + 1) d (empty_chain B p) =
      smt (node_hash B p) d (\<lambda>bs. leaf_map kvs (c @ b # bs))" for b
    using Suc.IH [OF below_filter [OF Suc.prems(1) len, of b]] Suc.prems(2)
    by (simp only: leaf_map_side [OF len w]) simp
  show ?case
  proof (cases "kvs = []")
    case True
    then show ?thesis using Suc.prems(2) by (simp only: leaf_map_Nil chain.smt_empty) simp
  next
    case False
    then show ?thesis
      using IH [of False] IH [of True] below_split [OF Suc.prems(1) len]
      by (simp add: Let_def case_prod_unfold)
  qed
qed

lemma root_of_sorted_smt:
  assumes "sorted_wrt (<) (map fst kvs)" and "\<forall>k \<in> fst ` set kvs. length k = width p"
  shows "root_of_sorted B p kvs = smt (node_hash B p) (smt_depth p) (leaf_map kvs)"
  using sparse_root_smt [of p "[]" kvs "smt_depth p" B] assms
  by (simp add: root_of_sorted_def below_def)

lemma spine_hash_smt:
  assumes "length key = width p" and "from \<le> to" and "to \<le> smt_depth p"
  shows "spine_hash B p (empty_chain B p) key (smt (node_hash B p) from g) from to =
    smt (node_hash B p) to (spine EMPTY_LEAF (take (to - from) (drop (smt_depth p - to) (key_bits key))) g)"
  using assms(2,3)
proof (induction to)
  case 0
  then show ?case by (simp add: spine_hash_def)
next
  case (Suc to)
  show ?case
  proof (cases "from = Suc to")
    case True
    then show ?thesis by (simp add: spine_hash_def)
  next
    case False
    then have le: "from \<le> to" using Suc.prems by simp
    have pos: "smt_depth p - Suc to < 8 * length key"
      using Suc.prems assms(1) by (simp add: smt_depth_def)
    have bits: "take (Suc to - from) (drop (smt_depth p - Suc to) (key_bits key)) =
        level_bit key (smt_depth p - Suc to) # take (to - from) (drop (smt_depth p - to) (key_bits key))"
      using Suc.prems le pos by (simp add: Suc_diff_le Cons_nth_drop_Suc [symmetric] nth_key_bits Suc_diff_Suc)
    show ?thesis
      using Suc.IH le Suc.prems unfolding bits
      by (simp add: chain.smt_spine_Cons spine_hash_def bit_at_level Let_def del: smt.simps)
  qed
qed

end
