(* ===== verification/Smt_Proofs.thy ===== *)
theory Smt_Proofs
  imports Smt_Tree
begin

text \<open>
  Multiproofs. The frontier that \<open>BatchProof::build\<close> collects is found again by the binary
  search of \<open>BatchProof::root\<close>, so the recomputed root is that of the whole tree with the
  touched leaves replaced (completeness). Conversely, whatever the frontier, a recomputed root that
  equals the root of a tree binds every touched leaf to that tree, and the root recomputed after an
  update is that of the updated tree, unless two different pairs among those hashed by the two
  computations have the same hash (soundness).
\<close>

section \<open>Binary search\<close>

lemma search_base_stop: "sz \<le> 1 \<Longrightarrow> search_base f t xs base sz = base"
  by (simp add: search_base.simps)

lemma search_base_step:
  "1 < sz \<Longrightarrow> search_base f t xs base sz =
     search_base f t xs (if t < f (xs ! (base + sz div 2)) then base else base + sz div 2) (sz - sz div 2)"
  by (subst search_base.simps) (simp add: Let_def)

lemma search_base_less:
  "0 < sz \<Longrightarrow> base + sz \<le> length xs \<Longrightarrow> search_base f t xs base sz < length xs"
proof (induction sz arbitrary: base rule: less_induct)
  case (less sz)
  show ?case
  proof (cases "sz \<le> 1")
    case True
    then show ?thesis using less.prems by (simp add: search_base_stop)
  next
    case False
    define base' where "base' = (if t < f (xs ! (base + sz div 2)) then base else base + sz div 2)"
    have "search_base f t xs base' (sz - sz div 2) < length xs"
      using False less.prems by (intro less.IH) (auto simp: base'_def)
    then show ?thesis using False by (simp add: search_base_step base'_def)
  qed
qed

lemma search_base_found:
  assumes sorted: "sorted_wrt (<) (map f xs)" and t: "f (xs ! i) = t"
    and "base \<le> i" and "i < base + sz" and "base + sz \<le> length xs"
  shows "search_base f t xs base sz = i"
  using assms(3-5)
proof (induction sz arbitrary: base rule: less_induct)
  case (less sz)
  show ?case
  proof (cases "sz \<le> 1")
    case True
    then show ?thesis using less.prems by (simp add: search_base_stop)
  next
    case False
    define mid where "mid = base + sz div 2"
    have lt: "f (xs ! a) < f (xs ! b)" if "a < b" "b < length xs" for a b
      using sorted that by (simp add: sorted_wrt_iff_nth_less)
    have mid: "mid < length xs" using False less.prems(3) by (simp add: mid_def)
    have i: "i < length xs" using less.prems by simp
    have side: "t < f (xs ! mid) \<longleftrightarrow> i < mid"
      using lt [of i mid] lt [of mid i] mid i t by (cases i mid rule: linorder_cases) auto
    have "search_base f t xs (if t < f (xs ! mid) then base else mid) (sz - sz div 2) = i"
      unfolding side using less.prems False
      by (intro less.IH) (auto simp: mid_def)
    moreover have "1 < sz" using False by simp
    ultimately show ?thesis unfolding search_base_step [OF \<open>1 < sz\<close>] mid_def [symmetric] by simp
  qed
qed

lemma binary_search_found:
  assumes "sorted_wrt (<) (map f xs)" and "i < length xs"
  shows "binary_search_by f (f (xs ! i)) xs = Some i"
proof -
  have "search_base f (f (xs ! i)) xs 0 (length xs) = i"
    using assms by (intro search_base_found) simp_all
  moreover have "xs \<noteq> []" using assms(2) by auto
  ultimately show ?thesis unfolding binary_search_by_def Let_def by simp
qed

lemma binary_search_absent:
  assumes "t \<notin> f ` set xs"
  shows "binary_search_by f t xs = None"
proof (cases "xs = []")
  case True
  then show ?thesis by (simp add: binary_search_by_def)
next
  case False
  then have "search_base f t xs 0 (length xs) < length xs" by (intro search_base_less) simp_all
  then have "f (xs ! search_base f t xs 0 (length xs)) \<in> f ` set xs" by (intro imageI nth_mem)
  then have "f (xs ! search_base f t xs 0 (length xs)) \<noteq> t" using assms by metis
  then show ?thesis using False unfolding binary_search_by_def Let_def by simp
qed

lemma frontier_get_map_of:
  assumes "sorted_wrt (<) (map frontier_key fs)"
  shows "frontier_get fs level prefix = map_of (map (\<lambda>n. (frontier_key n, fn_hash n)) fs) (level, prefix)"
proof (cases "(level, prefix) \<in> frontier_key ` set fs")
  case True
  then obtain i where i: "i < length fs" "frontier_key (fs ! i) = (level, prefix)"
    by (auto simp: in_set_conv_nth)
  have "distinct (map frontier_key fs)" using assms by (simp add: strict_sorted_iff)
  moreover have "((level, prefix), fn_hash (fs ! i)) \<in> set (map (\<lambda>n. (frontier_key n, fn_hash n)) fs)"
    using i by (metis (no_types, lifting) image_eqI list.set_map nth_mem)
  ultimately have "map_of (map (\<lambda>n. (frontier_key n, fn_hash n)) fs) (level, prefix) = Some (fn_hash (fs ! i))"
    by (intro map_of_is_SomeI) (simp_all add: comp_def)
  then show ?thesis using binary_search_found [OF assms i(1)] i(2) by (simp add: frontier_get_def)
next
  case False
  then have "map_of (map (\<lambda>n. (frontier_key n, fn_hash n)) fs) (level, prefix) = None"
    by (auto simp: map_of_eq_None_iff image_image)
  then show ?thesis using binary_search_absent [OF False] by (simp add: frontier_get_def)
qed

lemma frontier_get_from_frontier:
  assumes "distinct (map frontier_key fs)"
  shows "frontier_get (from_frontier fs) level prefix = map_of (map (\<lambda>n. (frontier_key n, fn_hash n)) fs) (level, prefix)"
proof -
  let ?A = "\<lambda>fs. map (\<lambda>n. (frontier_key n, fn_hash n)) fs"
  have set: "set (?A (from_frontier fs)) = set (?A fs)" by (simp add: from_frontier_def)
  have dist: "distinct (map frontier_key (from_frontier fs))"
    using assms by (simp add: from_frontier_def distinct_map)
  then have "sorted_wrt (<) (map frontier_key (from_frontier fs))"
    by (simp add: strict_sorted_iff from_frontier_def)
  then have "frontier_get (from_frontier fs) level prefix = map_of (?A (from_frontier fs)) (level, prefix)"
    by (rule frontier_get_map_of)
  also have "map_of (?A (from_frontier fs)) = map_of (?A fs)"
    using set dist assms by (intro map_of_inject_set [THEN iffD2]) (simp_all add: comp_def)
  finally show ?thesis .
qed

section \<open>Prefixes of cells\<close>

definition pads :: "nat \<Rightarrow> bool list \<Rightarrow> byte list \<Rightarrow> bool" where
  "pads w c prefix \<longleftrightarrow> length prefix = w \<and> key_bits prefix = c @ replicate (8 * w - length c) False"

lemma pads_unique: "pads w c a \<Longrightarrow> pads w c b \<Longrightarrow> a = b"
  using key_bits_inj [of a b] by (simp add: pads_def)

lemma pads_cell: "pads w c a \<Longrightarrow> pads w d a \<Longrightarrow> length c = length d \<Longrightarrow> c = d"
  by (simp add: pads_def)

lemma pads_le: "pads w c a \<Longrightarrow> length c \<le> 8 * w"
  by (metis length_append length_key_bits le_add1 pads_def)

lemma key_bits_replicate: "key_bits (replicate w 0) = replicate (8 * w) False"
proof (induction w)
  case (Suc w)
  have "byte_bits 0 = replicate 8 False" by (rule nth_equalityI) (simp_all add: nth_byte_bits)
  then show ?case using Suc by (simp add: replicate_add)
qed simp

lemma pads_init: "pads w [] (replicate w 0)"
  by (simp add: pads_def key_bits_replicate)

lemma pads_False: "pads w c a \<Longrightarrow> length c < 8 * w \<Longrightarrow> pads w (c @ [False]) a"
  by (simp add: pads_def Suc_diff_Suc [symmetric])

lemma level_bit_set:
  assumes "l < 8 * length k" and "m < 8 * length k"
  shows "level_bit (set_level_bit k l) m \<longleftrightarrow> m = l \<or> level_bit k m"
proof (cases "m div 8 = l div 8")
  case True
  have "m = l \<longleftrightarrow> m mod 8 = l mod 8" using True by (metis div_mult_mod_eq)
  moreover have "m mod 8 < 8" "l mod 8 < 8" by simp_all
  ultimately have eq: "m = l \<longleftrightarrow> 7 - m mod 8 = 7 - l mod 8" by linarith
  have "l div 8 < length k" using assms(1) by simp
  then show ?thesis
    unfolding level_bit_iff set_level_bit_def True eq
    by (auto simp: bit_or_iff bit_exp_iff)
next
  case False
  then show ?thesis by (auto simp: level_bit_iff set_level_bit_def)
qed

lemma length_set_level_bit [simp]: "length (set_level_bit k l) = length k"
  by (simp add: set_level_bit_def)

lemma key_bits_set: "l < 8 * length k \<Longrightarrow> key_bits (set_level_bit k l) = (key_bits k)[l := True]"
  by (rule nth_equalityI) (auto simp: nth_key_bits level_bit_set nth_list_update)

lemma pads_True:
  assumes "pads w c a" and "length c < 8 * w"
  shows "pads w (c @ [True]) (set_level_bit a (length c))"
proof -
  obtain m where m: "8 * w - length c = Suc m" using assms(2) by (metis Suc_diff_Suc)
  then have "key_bits (set_level_bit a (length c)) = c @ True # replicate m False"
    using assms by (simp add: pads_def key_bits_set list_update_append)
  then show ?thesis using assms m by (simp add: pads_def)
qed

section \<open>Completeness\<close>

definition cells_below :: "nat \<Rightarrow> bool list \<Rightarrow> frontier_node list \<Rightarrow> bool" where
  "cells_below w c fs \<longleftrightarrow>
     (\<forall>n \<in> set fs. \<exists>x. pads w (c @ x) (fn_prefix n) \<and> unat (fn_level n) = length (c @ x))"

lemma cells_below_snoc:
  assumes "cells_below w (c @ [b]) fs"
  shows "cells_below w c fs"
  unfolding cells_below_def
proof
  fix n
  assume "n \<in> set fs"
  then obtain x where "pads w ((c @ [b]) @ x) (fn_prefix n)" "unat (fn_level n) = length ((c @ [b]) @ x)"
    using assms unfolding cells_below_def by blast
  then show "\<exists>x. pads w (c @ x) (fn_prefix n) \<and> unat (fn_level n) = length (c @ x)"
    by (intro exI [of _ "b # x"]) simp
qed

lemma cells_below_append [simp]: "cells_below w c (fs @ gs) \<longleftrightarrow> cells_below w c fs \<and> cells_below w c gs"
  by (simp add: cells_below_def ball_Un)

lemma cells_below_apart:
  assumes "cells_below w c fs" and "pads w d a" and "take (length c) d \<noteq> c"
  shows "(length d, a) \<notin> frontier_key ` set fs"
proof
  assume "(length d, a) \<in> frontier_key ` set fs"
  then obtain n x where n: "frontier_key n = (length d, a)" "pads w (c @ x) (fn_prefix n)"
      "unat (fn_level n) = length (c @ x)"
    using assms(1) by (auto simp: cells_below_def)
  then have "c @ x = d" using assms(2) by (intro pads_cell [of w _ a]) (simp_all add: frontier_key_def)
  then show False using assms(3) by auto
qed

lemma build_frontier_rec_split:
  assumes "below (width p) c touched" and "below (width p) c (map fst full)" and "touched \<noteq> []"
    and "length c < smt_depth p"
  shows "build_frontier_rec B p touched full prefix (length c) chain =
    build_frontier_rec B p (filter (\<lambda>k. \<not> level_bit k (length c)) touched)
      (filter (\<lambda>x. \<not> level_bit (fst x) (length c)) full) prefix (Suc (length c)) chain @
    build_frontier_rec B p (filter (\<lambda>k. level_bit k (length c)) touched)
      (filter (\<lambda>x. level_bit (fst x) (length c)) full) (set_level_bit prefix (length c)) (Suc (length c)) chain"
proof -
  have len: "length c < 8 * width p" using assms(4) by (simp add: smt_depth_def)
  show ?thesis
    using assms below_split [OF assms(2) len] below_split [of _ _ id touched, OF _ len]
    by (subst build_frontier_rec.simps) (simp add: Let_def case_prod_unfold)
qed

lemma root_rec_split:
  assumes "below (width p) c (map fst touched)" and "touched \<noteq> []" and "length c < smt_depth p"
  shows "root_rec B fr p touched prefix (length c) chain = node_hash B p
    (root_rec B fr p (filter (\<lambda>x. \<not> level_bit (fst x) (length c)) touched) prefix (Suc (length c)) chain)
    (root_rec B fr p (filter (\<lambda>x. level_bit (fst x) (length c)) touched) (set_level_bit prefix (length c))
      (Suc (length c)) chain)"
proof -
  have len: "length c < 8 * width p" using assms(3) by (simp add: smt_depth_def)
  show ?thesis
    using assms below_split [OF assms(1) len]
    by (subst root_rec.simps) (simp add: Let_def case_prod_unfold)
qed

lemma root_rec_empty:
  "root_rec B fr p [] prefix level chain =
     (case frontier_get fr level prefix of Some h \<Rightarrow> h | None \<Rightarrow> chain ! (smt_depth p - level))"
  by (simp add: root_rec.simps)

lemma root_rec_leaf: "touched \<noteq> [] \<Longrightarrow> level = smt_depth p \<Longrightarrow> root_rec B fr p touched prefix level chain = snd (hd touched)"
  by (simp add: root_rec.simps)

lemma build_frontier_empty:
  "build_frontier_rec B p [] full prefix level chain =
     (if full = [] then []
      else [\<lparr>fn_level = of_nat level, fn_prefix = prefix,
             fn_hash = sparse_root_sorted B p full level (smt_depth p - level) chain\<rparr>])"
  by (simp add: build_frontier_rec.simps)

lemma build_frontier_leaf: "touched \<noteq> [] \<Longrightarrow> level = smt_depth p \<Longrightarrow> build_frontier_rec B p touched full prefix level chain = []"
  by (simp add: build_frontier_rec.simps)

lemma level_u16: "n < 65536 \<Longrightarrow> unat (of_nat n :: 16 word) = n"
  by (simp add: unat_of_nat)

lemma build_frontier_untouched:
  assumes "pads (width p) c prefix" and "length c < 65536"
  shows "cells_below (width p) c (build_frontier_rec B p [] full prefix (length c) chain) \<and>
    distinct (map frontier_key (build_frontier_rec B p [] full prefix (length c) chain))"
proof -
  have "\<exists>x. pads (width p) (c @ x) prefix \<and> unat (of_nat (length c) :: 16 word) = length (c @ x)"
    using assms by (intro exI [of _ "[]"]) (simp add: level_u16)
  then show ?thesis by (simp add: build_frontier_empty cells_below_def)
qed

lemma cells_below_disjoint:
  assumes "cells_below w (c @ [False]) fs" and "cells_below w (c @ [True]) gs"
  shows "frontier_key ` set fs \<inter> frontier_key ` set gs = {}"
proof -
  have "frontier_key n \<notin> frontier_key ` set fs" if n: "n \<in> set gs" for n
  proof -
    obtain x where x: "pads w ((c @ [True]) @ x) (fn_prefix n)" "unat (fn_level n) = length ((c @ [True]) @ x)"
      using assms(2) n unfolding cells_below_def by blast
    have "(length ((c @ [True]) @ x), fn_prefix n) \<notin> frontier_key ` set fs"
      by (rule cells_below_apart [OF assms(1) x(1)]) simp
    moreover have "frontier_key n = (length ((c @ [True]) @ x), fn_prefix n)"
      by (simp add: frontier_key_def x(2))
    ultimately show ?thesis by (simp only: not_False_eq_True)
  qed
  then show ?thesis by (intro equals0I) (metis IntD1 IntD2 imageE)
qed

lemma build_frontier_cells:
  assumes "below (width p) c touched" and "below (width p) c (map fst full)" and "pads (width p) c prefix"
    and "length c + d = smt_depth p" and "smt_depth p < 65536"
  shows "cells_below (width p) c (build_frontier_rec B p touched full prefix (length c) chain) \<and>
    distinct (map frontier_key (build_frontier_rec B p touched full prefix (length c) chain))"
  using assms(1-4)
proof (induction d arbitrary: c touched full prefix)
  case 0
  show ?case
  proof (cases "touched = []")
    case True
    then show ?thesis using build_frontier_untouched [OF "0.prems"(3)] "0.prems"(4) assms(5) by simp
  next
    case False
    then show ?thesis using "0.prems"(4) by (simp add: build_frontier_leaf cells_below_def)
  qed
next
  case (Suc d)
  have len: "length c < 8 * width p" using Suc.prems(4) by (simp add: smt_depth_def)
  show ?case
  proof (cases "touched = []")
    case True
    then show ?thesis using Suc.prems assms(5) by (simp add: build_frontier_untouched)
  next
    case False
    let ?b = "\<lambda>b pfx. build_frontier_rec B p (filter (\<lambda>k. level_bit k (length c) = b) touched)
      (filter (\<lambda>x. level_bit (fst x) (length c) = b) full) pfx (length (c @ [b])) chain"
    have IH: "cells_below (width p) (c @ [b]) (?b b pfx) \<and> distinct (map frontier_key (?b b pfx))"
      if "pads (width p) (c @ [b]) pfx" for b pfx
      using below_filter [OF _ len, of id touched b] below_filter [OF Suc.prems(2) len, of b] Suc.prems that
      by (intro Suc.IH) simp_all
    note F = IH [OF pads_False [OF Suc.prems(3) len]] and T = IH [OF pads_True [OF Suc.prems(3) len]]
    have eq: "build_frontier_rec B p touched full prefix (length c) chain =
        ?b False prefix @ ?b True (set_level_bit prefix (length c))"
      using build_frontier_rec_split [OF Suc.prems(1,2) False, of B prefix chain] Suc.prems(4) by simp
    have "frontier_key ` set (?b False prefix) \<inter> frontier_key ` set (?b True (set_level_bit prefix (length c))) = {}"
      by (rule cells_below_disjoint [OF conjunct1 [OF F] conjunct1 [OF T]])
    then show ?thesis
      using F T cells_below_snoc [OF conjunct1 [OF F]] cells_below_snoc [OF conjunct1 [OF T]]
      by (simp only: eq cells_below_append map_append distinct_append set_map simp_thms)
  qed
qed

text \<open>The hashes of the frontier are where the recomputation looks for them.\<close>

definition finds :: "nat \<Rightarrow> batch_proof \<Rightarrow> bool list \<Rightarrow> frontier_node list \<Rightarrow> bool" where
  "finds w fr c fs \<longleftrightarrow>
     (\<forall>x a. pads w (c @ x) a \<longrightarrow>
        frontier_get fr (length (c @ x)) a = map_of (map (\<lambda>n. (frontier_key n, fn_hash n)) fs) (length (c @ x), a))"

lemma finds_append:
  assumes "finds w fr c (fs @ gs)" and "cells_below w (c @ [False]) fs" and "cells_below w (c @ [True]) gs"
  shows "finds w fr (c @ [False]) fs" and "finds w fr (c @ [True]) gs"
proof -
  let ?m = "\<lambda>fs. map_of (map (\<lambda>n. (frontier_key n, fn_hash n)) fs)"
  have get: "frontier_get fr (length (c @ b # x)) a = ?m (fs @ gs) (length (c @ b # x), a)"
    if "pads w (c @ b # x) a" for b x a
    using assms(1) that unfolding finds_def by blast
  have none: "?m hs (length (c @ b # x), a) = None"
    if "pads w (c @ b # x) a" and "cells_below w (c @ [\<not> b]) hs" for b x a hs
    using cells_below_apart [OF that(2,1)] by (auto simp: map_of_eq_None_iff image_image)
  show "finds w fr (c @ [False]) fs"
    unfolding finds_def
  proof (intro allI impI)
    fix x a
    assume "pads w ((c @ [False]) @ x) a"
    then have q: "pads w (c @ False # x) a" by simp
    from get [OF q] none [OF q, of gs] assms(3)
    show "frontier_get fr (length ((c @ [False]) @ x)) a = ?m fs (length ((c @ [False]) @ x), a)"
      by (simp add: map_add_def split: option.splits)
  qed
  show "finds w fr (c @ [True]) gs"
    unfolding finds_def
  proof (intro allI impI)
    fix x a
    assume "pads w ((c @ [True]) @ x) a"
    then have q: "pads w (c @ True # x) a" by simp
    from get [OF q] none [OF q, of fs] assms(2)
    show "frontier_get fr (length ((c @ [True]) @ x)) a = ?m gs (length ((c @ [True]) @ x), a)"
      by (simp add: map_add_def split: option.splits)
  qed
qed

lemma root_rec_untouched:
  assumes "below (width p) c (map fst full)" and "pads (width p) c prefix"
    and "length c + d = smt_depth p" and "smt_depth p < 65536"
    and "finds (width p) fr c (build_frontier_rec B p [] full prefix (length c) (empty_chain B p))"
  shows "root_rec B fr p [] prefix (length c) (empty_chain B p) =
    smt (node_hash B p) d (\<lambda>bs. leaf_map full (c @ bs))"
proof -
  have "frontier_get fr (length c) prefix =
      map_of (map (\<lambda>n. (frontier_key n, fn_hash n))
        (build_frontier_rec B p [] full prefix (length c) (empty_chain B p))) (length c, prefix)"
    using assms(5) [unfolded finds_def, rule_format, of "[]" prefix] assms(2) by simp
  moreover have "smt_depth p - length c = d" "length c < 65536" using assms(3,4) by simp_all
  ultimately show ?thesis
    using chain.smt_empty [of d p B] assms(3) sparse_root_smt [OF assms(1,3), of B]
    by (simp add: root_rec_empty build_frontier_empty frontier_key_def level_u16)
qed

lemma hd_below_full:
  assumes "below w c (map fst (kv # kvs))" and "length c = 8 * w"
  shows "leaf_map ((kv # kvs) @ full) c = snd kv"
  using assms by (cases kv) (simp add: below_def in_cell_full)

lemma below_width: "below w c (map fst kvs) \<Longrightarrow> \<forall>k \<in> fst ` set kvs. length k = w"
  by (auto simp: below_def in_cell_def)

lemma root_rec_complete:
  assumes "below (width p) c (map fst touched)" and "below (width p) c (map fst full)" and "pads (width p) c prefix"
    and "length c + d = smt_depth p" and "smt_depth p < 65536"
    and "finds (width p) fr c (build_frontier_rec B p (map fst touched) full prefix (length c) (empty_chain B p))"
  shows "root_rec B fr p touched prefix (length c) (empty_chain B p) =
    smt (node_hash B p) d (\<lambda>bs. leaf_map (touched @ full) (c @ bs))"
  using assms(1-4,6)
proof (induction d arbitrary: c touched full prefix)
  case 0
  show ?case
  proof (cases touched)
    case Nil
    then show ?thesis
      using root_rec_untouched [OF "0.prems"(2,3,4) assms(5), of fr B] "0.prems"(5) by simp
  next
    case (Cons kv kvs)
    then show ?thesis
      using "0.prems" hd_below_full [of "width p" c kv kvs full] by (simp add: root_rec_leaf smt_depth_def)
  qed
next
  case (Suc d)
  have len: "length c < 8 * width p" "length c < smt_depth p"
    using Suc.prems(4) by (simp_all add: smt_depth_def)
  show ?case
  proof (cases "touched = []")
    case True
    then show ?thesis
      using root_rec_untouched [OF Suc.prems(2,3,4) assms(5), of fr B] Suc.prems(5) by simp
  next
    case False
    let ?t = "\<lambda>b. filter (\<lambda>x. level_bit (fst x) (length c) = b) touched"
    let ?f = "\<lambda>b. filter (\<lambda>x. level_bit (fst x) (length c) = b) full"
    let ?b = "\<lambda>b pfx. build_frontier_rec B p (map fst (?t b)) (?f b) pfx (length (c @ [b])) (empty_chain B p)"
    note side = below_filter [OF Suc.prems(1) len(1)] below_filter [OF Suc.prems(2) len(1)]
    note pads = pads_False [OF Suc.prems(3) len(1)] pads_True [OF Suc.prems(3) len(1)]
    have cells: "cells_below (width p) (c @ [b]) (?b b pfx)" if "pads (width p) (c @ [b]) pfx" for b pfx
      using build_frontier_cells [OF side that _ assms(5), of d] Suc.prems(4) by simp
    have eq: "build_frontier_rec B p (map fst touched) full prefix (length c) (empty_chain B p) =
        ?b False prefix @ ?b True (set_level_bit prefix (length c))"
      using build_frontier_rec_split [OF Suc.prems(1,2) _ len(2)] False by (simp add: filter_map comp_def)
    have found: "finds (width p) fr (c @ [False]) (?b False prefix)"
        "finds (width p) fr (c @ [True]) (?b True (set_level_bit prefix (length c)))"
      by (rule finds_append [OF Suc.prems(5) [unfolded eq] cells [OF pads(1)] cells [OF pads(2)]])+
    have IH: "root_rec B fr p (?t b) pfx (length (c @ [b])) (empty_chain B p) =
        smt (node_hash B p) d (\<lambda>bs. leaf_map (touched @ full) (c @ b # bs))"
      if "pads (width p) (c @ [b]) pfx" and "finds (width p) fr (c @ [b]) (?b b pfx)" for b pfx
    proof -
      have "root_rec B fr p (?t b) pfx (length (c @ [b])) (empty_chain B p) =
          smt (node_hash B p) d (\<lambda>bs. leaf_map (?t b @ ?f b) ((c @ [b]) @ bs))"
        using Suc.prems(4) that by (intro Suc.IH side) simp_all
      also have "\<dots> = smt (node_hash B p) d (\<lambda>bs. leaf_map (touched @ full) (c @ b # bs))"
        using leaf_map_side [OF len(1), of "touched @ full" b] below_width [OF Suc.prems(1)]
          below_width [OF Suc.prems(2)] by (intro smt_cong) (auto simp: ball_Un image_Un)
      finally show ?thesis .
    qed
    show ?thesis
      using IH [OF pads(1) found(1)] IH [OF pads(2) found(2)]
        root_rec_split [OF Suc.prems(1) False len(2)] by simp
  qed
qed

text \<open>Leaves sorted by key, every key as wide as the tree asks.\<close>

definition wf_leaves :: "smt_params \<Rightarrow> (byte list \<times> 'v) list \<Rightarrow> bool" where
  "wf_leaves p kvs \<longleftrightarrow> sorted_wrt (<) (map fst kvs) \<and> list_all (\<lambda>kv. length (fst kv) = width p) kvs"

definition leaf_of :: "(byte list \<times> hash32) list \<Rightarrow> byte list \<Rightarrow> hash32" where
  "leaf_of kvs k = (case map_of kvs k of None \<Rightarrow> EMPTY_LEAF | Some h \<Rightarrow> h)"

lemma wf_leaves_below: "wf_leaves p kvs \<Longrightarrow> below (width p) [] (map fst kvs)"
  by (auto simp: wf_leaves_def below_def list_all_iff)

lemma root_of_sorted_wf:
  "wf_leaves p kvs \<Longrightarrow> root_of_sorted B p kvs = smt (node_hash B p) (smt_depth p) (leaf_map kvs)"
  by (rule root_of_sorted_smt) (auto simp: wf_leaves_def list_all_iff)

lemma leaf_map_eq:
  assumes "\<And>k. leaf_of a k = leaf_of b k"
  shows "leaf_map a = leaf_map b"
proof
  fix bs
  have none: "leaf_map kvs bs = EMPTY_LEAF" if "\<nexists>k. key_bits k = bs" for kvs
    using that by (induction kvs) auto
  show "leaf_map a bs = leaf_map b bs"
  proof (cases "\<exists>k. key_bits k = bs")
    case True
    then obtain k where "bs = key_bits k" by blast
    then show ?thesis using assms [of k] by (simp add: leaf_map_key leaf_of_def)
  next
    case False
    then show ?thesis by (simp add: none)
  qed
qed

lemma distinct_remdups_adj_sorted: "sorted xs \<Longrightarrow> distinct (remdups_adj xs)"
  by (induction xs rule: remdups_adj.induct) (auto simp: order.antisym)

lemma dedup_sort:
  assumes "sorted_wrt (<) ks" and "set keys = set ks"
  shows "remdups_adj (sort keys) = ks"
proof -
  have "sorted (remdups_adj (sort keys))" by (simp add: sorted_remdups_adj)
  moreover have "distinct (remdups_adj (sort keys))"
    by (simp add: distinct_remdups_adj_sorted)
  ultimately show ?thesis
    using assms by (intro sorted_distinct_set_unique) (simp_all add: strict_sorted_iff)
qed

theorem batch_root_complete:
  assumes "wf_leaves p leaves" and "wf_leaves p touched" and "smt_depth p < 65536"
    and "set keys = fst ` set touched"
  shows "batch_root B (batch_build B p leaves keys) p touched =
    smt (node_hash B p) (smt_depth p) (leaf_map (touched @ leaves))"
proof -
  define fs where "fs = build_frontier_rec B p (map fst touched) leaves (replicate (width p) 0) 0 (empty_chain B p)"
  have dist: "distinct (map frontier_key fs)"
    using build_frontier_cells [OF _ _ pads_init, of p "map fst touched" leaves "smt_depth p" B "empty_chain B p"]
      wf_leaves_below [OF assms(1)] wf_leaves_below [OF assms(2)] assms(3) by (simp add: fs_def)
  have build: "batch_build B p leaves keys = from_frontier fs"
    using assms(2,4) dedup_sort [of "map fst touched" keys] by (simp add: batch_build_def fs_def wf_leaves_def)
  have "finds (width p) (from_frontier fs) [] fs"
    using frontier_get_from_frontier [OF dist] by (simp add: finds_def)
  then show ?thesis
    using root_rec_complete [OF _ _ pads_init, of p touched leaves "smt_depth p" "from_frontier fs" B]
      wf_leaves_below [OF assms(1)] wf_leaves_below [OF assms(2)] assms(3)
    by (simp add: batch_root_def build fs_def [symmetric])
qed

section \<open>Soundness\<close>

text \<open>The pairs of hashes that the recomputation and the computation of a root put through the node
  hash.\<close>

function root_pairs ::
  "blake2b \<Rightarrow> batch_proof \<Rightarrow> smt_params \<Rightarrow> (byte list \<times> hash32) list \<Rightarrow> byte list \<Rightarrow> nat \<Rightarrow> hash32 list \<Rightarrow>
     (hash32 \<times> hash32) list" where
  "root_pairs B frontier p touched prefix level chain =
     (if touched = [] \<or> smt_depth p - level = 0 then []
      else let split = partition_point (\<lambda>(k, _). \<not> level_bit k level) touched;
               prefix_r = set_level_bit prefix level
           in (root_rec B frontier p (take split touched) prefix (level + 1) chain,
               root_rec B frontier p (drop split touched) prefix_r (level + 1) chain) #
              root_pairs B frontier p (take split touched) prefix (level + 1) chain @
              root_pairs B frontier p (drop split touched) prefix_r (level + 1) chain)"
  by pat_completeness auto
termination
  by (relation "measure (\<lambda>(B, frontier, p, touched, prefix, level, chain). smt_depth p - level)") auto

declare root_pairs.simps [simp del]

fun sparse_pairs ::
  "blake2b \<Rightarrow> smt_params \<Rightarrow> (byte list \<times> hash32) list \<Rightarrow> nat \<Rightarrow> nat \<Rightarrow> hash32 list \<Rightarrow> (hash32 \<times> hash32) list" where
  "sparse_pairs B p leaves level 0 chain = []"
| "sparse_pairs B p leaves level (Suc d) chain =
     (if leaves = [] then []
      else let split = partition_point (\<lambda>(k, _). \<not> level_bit k level) leaves
           in (sparse_root_sorted B p (take split leaves) (level + 1) d chain,
               sparse_root_sorted B p (drop split leaves) (level + 1) d chain) #
              sparse_pairs B p (take split leaves) (level + 1) d chain @
              sparse_pairs B p (drop split leaves) (level + 1) d chain)"

definition hashed_pairs ::
  "blake2b \<Rightarrow> smt_params \<Rightarrow> batch_proof \<Rightarrow> (byte list \<times> hash32) list \<Rightarrow> (byte list \<times> hash32) list \<Rightarrow> (hash32 \<times> hash32) list" where
  "hashed_pairs B p frontier touched leaves =
     (let chain = empty_chain B p
      in map (\<lambda>h. (h, h)) (butlast chain) @ root_pairs B frontier p touched (replicate (width p) 0) 0 chain @
         sparse_pairs B p leaves 0 (smt_depth p) chain)"

definition collision_free :: "blake2b \<Rightarrow> smt_params \<Rightarrow> (hash32 \<times> hash32) list \<Rightarrow> bool" where
  "collision_free B p ps \<longleftrightarrow>
     list_all (\<lambda>x. list_all (\<lambda>y. node_hash B p (fst x) (snd x) = node_hash B p (fst y) (snd y) \<longrightarrow> x = y) ps) ps"

lemma collision_freeD:
  assumes "collision_free B p ps" and "node_hash B p a b = node_hash B p c d" and "(a, b) \<in> set ps" and "(c, d) \<in> set ps"
  shows "a = c" and "b = d"
  using assms unfolding collision_free_def list_all_iff by fastforce+

lemma root_pairs_split:
  assumes "below (width p) c (map fst touched)" and "touched \<noteq> []" and "length c < smt_depth p"
  shows "root_pairs B fr p touched prefix (length c) chain =
    (root_rec B fr p (filter (\<lambda>x. \<not> level_bit (fst x) (length c)) touched) prefix (Suc (length c)) chain,
     root_rec B fr p (filter (\<lambda>x. level_bit (fst x) (length c)) touched) (set_level_bit prefix (length c))
       (Suc (length c)) chain) #
    root_pairs B fr p (filter (\<lambda>x. \<not> level_bit (fst x) (length c)) touched) prefix (Suc (length c)) chain @
    root_pairs B fr p (filter (\<lambda>x. level_bit (fst x) (length c)) touched) (set_level_bit prefix (length c))
      (Suc (length c)) chain"
proof -
  have len: "length c < 8 * width p" using assms(3) by (simp add: smt_depth_def)
  show ?thesis
    using assms below_split [OF assms(1) len]
    by (subst root_pairs.simps) (simp add: Let_def case_prod_unfold)
qed

text \<open>A level of the tree, empty or not, is one node hash of the two sides.\<close>

lemma sparse_level:
  fixes B p leaves c d
  defines "l \<equiv> sparse_root_sorted B p (filter (\<lambda>x. \<not> level_bit (fst x) (length c)) leaves) (Suc (length c)) d (empty_chain B p)"
    and "r \<equiv> sparse_root_sorted B p (filter (\<lambda>x. level_bit (fst x) (length c)) leaves) (Suc (length c)) d (empty_chain B p)"
  assumes "below (width p) c (map fst leaves)" and "length c + Suc d = smt_depth p"
  shows "sparse_root_sorted B p leaves (length c) (Suc d) (empty_chain B p) = node_hash B p l r"
    and "(l, r) \<in> (\<lambda>h. (h, h)) ` set (butlast (empty_chain B p)) \<union> set (sparse_pairs B p leaves (length c) (Suc d) (empty_chain B p))"
proof -
  have len: "length c < 8 * width p" using assms(4) by (simp add: smt_depth_def)
  have d: "d < smt_depth p" using assms(4) by simp
  have mem: "empty_chain B p ! d \<in> set (butlast (empty_chain B p))"
    using d nth_butlast [of d "empty_chain B p"] nth_mem [of d "butlast (empty_chain B p)"] by simp
  note split = below_split [OF assms(3) len]
  have e: "sparse_root_sorted B p [] lv n ch = ch ! n" for lv n ch by (cases n) simp_all
  show "sparse_root_sorted B p leaves (length c) (Suc d) (empty_chain B p) = node_hash B p l r"
    using split empty_chain_Suc [OF d, of B] by (cases "leaves = []") (simp_all add: l_def r_def e Let_def case_prod_unfold)
  show "(l, r) \<in> (\<lambda>h. (h, h)) ` set (butlast (empty_chain B p)) \<union> set (sparse_pairs B p leaves (length c) (Suc d) (empty_chain B p))"
    using split mem by (cases "leaves = []") (simp_all add: l_def r_def e Let_def case_prod_unfold)
qed

lemma sparse_pairs_sides:
  assumes "below (width p) c (map fst leaves)" and "length c < smt_depth p"
  shows "set (sparse_pairs B p (filter (\<lambda>x. level_bit (fst x) (length c) = b) leaves) (Suc (length c)) d chain)
    \<subseteq> set (sparse_pairs B p leaves (length c) (Suc d) chain)"
proof -
  have len: "length c < 8 * width p" using assms(2) by (simp add: smt_depth_def)
  have e: "sparse_pairs B p [] lv n ch = []" for lv n ch by (cases n) simp_all
  show ?thesis
    using below_split [OF assms(1) len]
    by (cases "leaves = []"; cases b) (auto simp: e Let_def case_prod_unfold)
qed

definition binds ::
  "blake2b \<Rightarrow> smt_params \<Rightarrow> batch_proof \<Rightarrow> (byte list \<times> hash32) list \<Rightarrow> byte list \<Rightarrow> bool list \<Rightarrow> nat \<Rightarrow>
     (byte list \<times> hash32) list \<Rightarrow> bool" where
  "binds B p fr touched prefix c d leaves \<longleftrightarrow>
     (\<forall>(k, h) \<in> set touched. h = leaf_map leaves (key_bits k)) \<and>
     (\<forall>touched'. map fst touched' = map fst touched \<longrightarrow>
        root_rec B fr p touched' prefix (length c) (empty_chain B p) =
          smt (node_hash B p) d (\<lambda>bs. leaf_map (touched' @ leaves) (c @ bs)))"

lemma binds_untouched:
  assumes "below (width p) c (map fst leaves)" and "length c + d = smt_depth p"
    and "root_rec B fr p [] prefix (length c) (empty_chain B p) =
      sparse_root_sorted B p leaves (length c) d (empty_chain B p)"
  shows "binds B p fr [] prefix c d leaves"
  using assms(3) sparse_root_smt [OF assms(1,2), of B] by (simp add: binds_def)

lemma binds_leaf:
  assumes "below (width p) c (map fst touched)" and "below (width p) c (map fst leaves)"
    and "length c = smt_depth p" and "touched \<noteq> []"
    and "root_rec B fr p touched prefix (length c) (empty_chain B p) =
      sparse_root_sorted B p leaves (length c) 0 (empty_chain B p)"
  shows "binds B p fr touched prefix c 0 leaves"
proof -
  have len: "length c = 8 * width p" using assms(3) by (simp add: smt_depth_def)
  have bits: "key_bits k = c" if "k \<in> fst ` set touched" for k
    using assms(1) that in_cell_full [OF len] by (auto simp: below_def)
  have "touched = [hd touched]"
  proof (cases touched)
    case (Cons kv kvs)
    have "kv' \<notin> set kvs" for kv'
      using assms(1) bits [of "fst kv"] bits [of "fst kv'"] Cons by (fastforce simp: below_def)
    then have "kvs = []" by (cases kvs) auto
    then show ?thesis using Cons by simp
  qed (use assms(4) in simp)
  then obtain k h where t: "touched = [(k, h)]" by (metis surj_pair)
  have root: "root_rec B fr p touched' prefix (length c) (empty_chain B p) = leaf_map (touched' @ leaves) c"
    if "map fst touched' = map fst touched" for touched'
    using that t bits assms(3) by (cases touched') (auto simp: root_rec_leaf)
  have "h = leaf_map leaves c"
    using assms(3,5) sparse_root_smt [OF assms(2), of 0 B] t by (simp add: root_rec_leaf)
  then show ?thesis using root t bits by (simp add: binds_def)
qed

lemma map_fst_side: "map fst (filter (\<lambda>x. P (fst x)) xs) = filter P (map fst xs)"
  by (induction xs) auto

lemma binds_join:
  fixes touched leaves :: "(byte list \<times> hash32) list"
  assumes "below (width p) c (map fst touched)" and "below (width p) c (map fst leaves)"
    and "touched \<noteq> []" and "length c + Suc d = smt_depth p"
    and "binds B p fr (filter (\<lambda>x. \<not> level_bit (fst x) (length c)) touched) prefix (c @ [False]) d
      (filter (\<lambda>x. \<not> level_bit (fst x) (length c)) leaves)"
    and "binds B p fr (filter (\<lambda>x. level_bit (fst x) (length c)) touched) (set_level_bit prefix (length c))
      (c @ [True]) d (filter (\<lambda>x. level_bit (fst x) (length c)) leaves)"
  shows "binds B p fr touched prefix c (Suc d) leaves"
proof -
  let ?t = "\<lambda>b ts. filter (\<lambda>x. level_bit (fst x) (length c) = b) (ts :: (byte list \<times> hash32) list)"
  let ?pfx = "\<lambda>b. if b then set_level_bit prefix (length c) else prefix"
  have len: "length c < 8 * width p" "length c < smt_depth p"
    using assms(4) by (simp_all add: smt_depth_def)
  have IH: "binds B p fr (?t b touched) (?pfx b) (c @ [b]) d (?t b leaves)" for b
    using assms(5,6) by (cases b) simp_all
  have vals: "h = leaf_map leaves (key_bits k)" if kh: "(k, h) \<in> set touched" for k h
  proof -
    have cell: "in_cell (width p) (c @ [level_bit k (length c)]) k"
      using assms(1) kh len(1) by (force simp: below_def in_cell_snoc)
    then obtain bs where bs: "key_bits k = (c @ [level_bit k (length c)]) @ bs" using in_cell_bits by blast
    have "h = leaf_map (?t (level_bit k (length c)) leaves) (key_bits k)"
      using IH [of "level_bit k (length c)"] kh unfolding binds_def by fastforce
    then show ?thesis
      unfolding bs leaf_map_side [OF len(1) below_width [OF assms(2)]] by simp
  qed
  have roots: "root_rec B fr p touched' prefix (length c) (empty_chain B p) =
      smt (node_hash B p) (Suc d) (\<lambda>bs. leaf_map (touched' @ leaves) (c @ bs))"
    if same: "map fst touched' = map fst touched" for touched'
  proof -
    have ne: "touched' \<noteq> []" and bel: "below (width p) c (map fst touched')"
      using same assms(1,3) by auto
    have w: "\<forall>k \<in> fst ` set (touched' @ leaves). length k = width p"
      using below_width [OF bel] below_width [OF assms(2)] by auto
    have "root_rec B fr p (?t b touched') (?pfx b) (length (c @ [b])) (empty_chain B p) =
        smt (node_hash B p) d (\<lambda>bs. leaf_map (?t b touched' @ ?t b leaves) ((c @ [b]) @ bs))" for b
      using IH [of b] same unfolding binds_def
      by (simp only: map_fst_side [of "\<lambda>k. level_bit k (length c) = b"])
    then have side: "root_rec B fr p (?t b touched') (?pfx b) (length (c @ [b])) (empty_chain B p) =
        smt (node_hash B p) d (\<lambda>bs. leaf_map (touched' @ leaves) (c @ b # bs))" for b
      using leaf_map_side [OF len(1) w, of b] by (simp add: filter_append [symmetric] del: filter_append)
    show ?thesis
      using side [of False] side [of True] root_rec_split [OF bel ne len(2), of B fr prefix "empty_chain B p"] by simp
  qed
  show ?thesis using vals roots by (auto simp: binds_def)
qed

lemma root_rec_sound:
  assumes "below (width p) c (map fst touched)" and "below (width p) c (map fst leaves)"
    and "length c + d = smt_depth p" and "collision_free B p ps"
    and "set (root_pairs B fr p touched prefix (length c) (empty_chain B p)) \<subseteq> set ps"
    and "set (sparse_pairs B p leaves (length c) d (empty_chain B p)) \<subseteq> set ps"
    and "(\<lambda>h. (h, h)) ` set (butlast (empty_chain B p)) \<subseteq> set ps"
    and "root_rec B fr p touched prefix (length c) (empty_chain B p) =
      sparse_root_sorted B p leaves (length c) d (empty_chain B p)"
  shows "binds B p fr touched prefix c d leaves"
  using assms(1-3,5,6,8)
proof (induction d arbitrary: c touched leaves prefix)
  case 0
  then show ?case
    by (cases "touched = []") (auto intro: binds_untouched binds_leaf)
next
  case (Suc d)
  have len: "length c < 8 * width p" "length c < smt_depth p"
    using Suc.prems(3) by (simp_all add: smt_depth_def)
  show ?case
  proof (cases "touched = []")
    case True
    then show ?thesis using Suc.prems by (auto intro: binds_untouched)
  next
    case False
    let ?t = "\<lambda>b ts. filter (\<lambda>x. level_bit (fst x) (length c) = b) (ts :: (byte list \<times> hash32) list)"
    let ?pfx = "\<lambda>b. if b then set_level_bit prefix (length c) else prefix"
    let ?l = "\<lambda>b. root_rec B fr p (?t b touched) (?pfx b) (length (c @ [b])) (empty_chain B p)"
    let ?r = "\<lambda>b. sparse_root_sorted B p (?t b leaves) (length (c @ [b])) d (empty_chain B p)"
    note side = below_filter [OF Suc.prems(1) len(1)] below_filter [OF Suc.prems(2) len(1)]
    note rs = root_rec_split [OF Suc.prems(1) False len(2), of B fr prefix "empty_chain B p"]
    note rp = root_pairs_split [OF Suc.prems(1) False len(2), of B fr prefix "empty_chain B p"]
    note sl = sparse_level [OF Suc.prems(2,3), of B]
    have eq: "node_hash B p (?l False) (?l True) = node_hash B p (?r False) (?r True)"
      using Suc.prems(6) rs sl(1) by simp
    have mem: "(?l False, ?l True) \<in> set ps" "(?r False, ?r True) \<in> set ps"
      using Suc.prems(4,5) rp sl(2) assms(7) by auto
    have same: "?l b = ?r b" for b
      using collision_freeD [OF assms(4) eq mem] by (cases b) simp_all
    have sub: "set (root_pairs B fr p (?t b touched) (?pfx b) (length (c @ [b])) (empty_chain B p)) \<subseteq> set ps" for b
      using Suc.prems(4) rp by (cases b) auto
    have IH: "binds B p fr (?t b touched) (?pfx b) (c @ [b]) d (?t b leaves)" for b
      using Suc.prems(3) sub same sparse_pairs_sides [OF Suc.prems(2) len(2), of B b d "empty_chain B p"] Suc.prems(5)
      by (intro Suc.IH side) auto
    show ?thesis using binds_join [OF Suc.prems(1,2) False Suc.prems(3)] IH [of False] IH [of True] by simp
  qed
qed

theorem batch_root_sound:
  assumes "wf_leaves p leaves" and "wf_leaves p touched" and "collision_free B p (hashed_pairs B p fr touched leaves)"
    and "batch_root B fr p touched = root_of_sorted B p leaves"
  shows "(\<forall>(k, h) \<in> set touched. h = leaf_of leaves k) \<and>
    (\<forall>touched'. map fst touched' = map fst touched \<longrightarrow>
       batch_root B fr p touched' = smt (node_hash B p) (smt_depth p) (leaf_map (touched' @ leaves)))"
proof -
  have "binds B p fr touched (replicate (width p) 0) [] (smt_depth p) leaves"
    using assms(4) wf_leaves_below [OF assms(1)] wf_leaves_below [OF assms(2)]
    by (intro root_rec_sound [OF _ _ _ assms(3)])
       (auto simp: hashed_pairs_def Let_def batch_root_def root_of_sorted_def)
  then show ?thesis
    by (simp add: binds_def batch_root_def leaf_map_key leaf_of_def)
qed

end
