(* ===== verification/Smt_Ledger.thy ===== *)
theory Smt_Ledger
  imports Smt_Proofs
begin

text \<open>
  Witnessed ledgers: what \<open>WitnessedLedger\<close> guarantees of a state transition that is computed
  on the touched leaves alone. The real state is a map from keys to leaf contents; its leaves are
  their hashes. The verifying side sees a root, a frontier and the touched contents.
\<close>

section \<open>The real state\<close>

type_synonym contents = "(byte list, byte list) btree"

definition leaves_of :: "blake2b \<Rightarrow> smt_params \<Rightarrow> contents \<Rightarrow> (byte list \<times> hash32) list" where
  "leaves_of B p cs = map (\<lambda>(k, c). (k, leaf_hash B p c)) cs"

datatype ledger_op = LInsert "byte list" "byte list" | LRemove "byte list"

fun op_contents :: "ledger_op \<Rightarrow> contents \<Rightarrow> contents" where
  "op_contents (LInsert k c) cs = bt_insert k c cs"
| "op_contents (LRemove k) cs = bt_remove k cs"

fun op_ledger :: "ledger_op \<Rightarrow> witnessed_ledger \<Rightarrow> ledger_panic + witnessed_ledger" where
  "op_ledger (LInsert k c) me = ledger_insert me k c"
| "op_ledger (LRemove k) me = ledger_remove me k"

fun run_ledger :: "ledger_op list \<Rightarrow> witnessed_ledger \<Rightarrow> ledger_panic + witnessed_ledger" where
  "run_ledger [] me = Inr me"
| "run_ledger (x # ops) me = (case op_ledger x me of Inl e \<Rightarrow> Inl e | Inr me' \<Rightarrow> run_ledger ops me')"

lemma map_fst_leaves_of [simp]: "map fst (leaves_of B p cs) = map fst cs"
  by (simp add: leaves_of_def case_prod_unfold)

lemma wf_leaves_of: "wf_leaves p (leaves_of B p cs) \<longleftrightarrow> wf_leaves p cs"
  by (simp add: wf_leaves_def) (simp add: leaves_of_def list_all_iff case_prod_unfold)

lemma map_of_leaves_of: "map_of (leaves_of B p cs) k = map_option (leaf_hash B p) (bt_get cs k)"
  by (simp add: leaves_of_def map_of_map bt_get_def)

lemma leaf_of_leaves: "leaf_of (leaves_of B p cs) k = slot_hash B p (bt_get cs k)"
  by (simp add: leaf_of_def map_of_leaves_of slot_hash_def split: option.splits)

lemma wf_leaves_bt: "wf_leaves p cs \<longleftrightarrow> bt_wf cs \<and> (\<forall>k. bt_get cs k \<noteq> None \<longrightarrow> length k = width p)"
  by (auto simp: wf_leaves_def bt_wf_def list_all_iff bt_get_None_iff)

lemma wf_leaves_keys:
  "wf_leaves p kvs \<longleftrightarrow> sorted_wrt (<) (map fst kvs) \<and> list_all (\<lambda>k. length k = width p) (map fst kvs)"
  by (simp add: wf_leaves_def list.pred_map comp_def)

lemma wf_leaves_fst: "map fst a = map fst b \<Longrightarrow> wf_leaves p a \<longleftrightarrow> wf_leaves p b"
  by (simp add: wf_leaves_keys)

section \<open>Ledgers over a state\<close>

definition touched_hashes :: "blake2b \<Rightarrow> witnessed_ledger \<Rightarrow> (byte list \<times> hash32) list" where
  "touched_hashes B me = map (\<lambda>(k, v). (k, slot_hash B (wl_params me) v)) (wl_leaves me)"

lemma ledger_root_touched: "ledger_root B me = batch_root B (wl_proof me) (wl_params me) (touched_hashes B me)"
  by (simp add: ledger_root_def touched_hashes_def)

lemma map_of_touched_hashes:
  "map_of (touched_hashes B me) k = map_option (slot_hash B (wl_params me)) (bt_get (wl_leaves me) k)"
  by (simp add: touched_hashes_def map_of_map bt_get_def)

lemma wf_touched_hashes: "wf_leaves p (touched_hashes B me) \<longleftrightarrow> wf_leaves p (wl_leaves me)"
  by (simp add: wf_leaves_def touched_hashes_def list_all_iff case_prod_unfold comp_def)

lemma map_fst_touched [simp]: "map fst (touched_hashes B me) = map fst (wl_leaves me)"
  by (simp add: touched_hashes_def case_prod_unfold)

text \<open>The ledger agrees with the state: on its own keys slot by slot, elsewhere the state has
  not moved.\<close>

definition tracks :: "blake2b \<Rightarrow> smt_params \<Rightarrow> contents \<Rightarrow> witnessed_ledger \<Rightarrow> contents \<Rightarrow> bool" where
  "tracks B p cs0 me cs \<longleftrightarrow>
     (\<forall>k. slot_hash B p (bt_get cs k) =
        (case bt_get (wl_leaves me) k of Some v \<Rightarrow> slot_hash B p v | None \<Rightarrow> slot_hash B p (bt_get cs0 k)))"

lemma bt_keys_insert:
  fixes m :: "('a::linorder, 'b) btree"
  assumes "bt_wf m" and "bt_get m k = Some w"
  shows "map fst (bt_insert k v m) = map fst m"
proof -
  have mem: "x \<in> set (map fst n) \<longleftrightarrow> bt_get n x \<noteq> None" for x and n :: "('a \<times> 'b) list"
    by (simp add: bt_get_None_iff)
  have "set (map fst (bt_insert k v m)) = set (map fst m)"
    using assms(2) unfolding set_eq_iff mem by auto
  then show ?thesis
    using assms(1) bt_wf_insert [OF assms(1), of k v] unfolding bt_wf_def strict_sorted_iff
    by (intro sorted_distinct_set_unique) auto
qed

lemma op_ledger_frame:
  assumes "op_ledger x me = Inr me'" and "bt_wf (wl_leaves me)"
  shows "wl_params me' = wl_params me" and "wl_proof me' = wl_proof me"
    and "map fst (wl_leaves me') = map fst (wl_leaves me)" and "bt_wf (wl_leaves me')"
  using assms
  by (cases x; auto simp: ledger_insert_def ledger_remove_def bt_keys_insert split: option.splits)+

lemma op_ledger_tracks:
  "op_ledger x me = Inr me' \<Longrightarrow> tracks B p cs0 me cs \<Longrightarrow> tracks B p cs0 me' (op_contents x cs)"
  by (cases x; auto simp: ledger_insert_def ledger_remove_def tracks_def split: option.splits if_splits)

lemma run_ledger_tracks:
  assumes "run_ledger ops me = Inr me'" and "bt_wf (wl_leaves me)" and "tracks B p cs0 me cs"
  shows "wl_params me' = wl_params me \<and> wl_proof me' = wl_proof me \<and>
    map fst (wl_leaves me') = map fst (wl_leaves me) \<and> tracks B p cs0 me' (fold op_contents ops cs)"
  using assms
proof (induction ops arbitrary: me cs)
  case (Cons x ops)
  obtain me1 where me1: "op_ledger x me = Inr me1" "run_ledger ops me1 = Inr me'"
    using Cons.prems(1) by (auto split: sum.splits)
  note step = op_ledger_frame [OF me1(1) Cons.prems(2)]
  show ?case
    using Cons.IH [OF me1(2) step(4) op_ledger_tracks [OF me1(1) Cons.prems(3)]] step(1-3) by simp
qed simp

lemma ledger_new_InrD:
  assumes "ledger_new B p proof touched root = Inr me"
  shows "me = \<lparr>wl_params = p, wl_proof = proof, wl_leaves = bt_insert_all touched []\<rparr>"
    and "ledger_root B me = root" and "wf_leaves p (wl_leaves me)"
  using assms
  by (auto simp: ledger_new_def Let_def find_None_iff wf_leaves_def list_all_iff bt_wf_insert_all [of "[]", unfolded bt_wf_def]
      split: option.splits if_splits)

lemma leaf_of_append: "leaf_of (a @ b) k = (case map_of a k of Some h \<Rightarrow> h | None \<Rightarrow> leaf_of b k)"
  by (simp add: leaf_of_def map_add_def split: option.splits)

lemma tracked_root:
  assumes "tracks B p cs0 me cs" and "wl_params me = p"
  shows "leaf_map (touched_hashes B me @ leaves_of B p cs0) = leaf_map (leaves_of B p cs)"
proof (rule leaf_map_eq)
  fix k
  have "slot_hash B p (bt_get cs k) =
      (case bt_get (wl_leaves me) k of Some v \<Rightarrow> slot_hash B p v | None \<Rightarrow> slot_hash B p (bt_get cs0 k))"
    using assms(1) by (simp add: tracks_def)
  then show "leaf_of (touched_hashes B me @ leaves_of B p cs0) k = leaf_of (leaves_of B p cs) k"
    using assms(2) by (cases "bt_get (wl_leaves me) k") (simp_all add: leaf_of_append map_of_touched_hashes leaf_of_leaves)
qed

lemma tracks_start:
  assumes "\<And>k v. bt_get (wl_leaves me) k = Some v \<Longrightarrow> slot_hash B p v = slot_hash B p (bt_get cs k)"
  shows "tracks B p cs me cs"
  using assms by (auto simp: tracks_def split: option.splits)

lemma wf_op_contents: "wf_leaves p cs \<Longrightarrow> op_ledger x me = Inr me' \<Longrightarrow> wf_leaves p (wl_leaves me) \<Longrightarrow>
    wf_leaves p (op_contents x cs)"
  by (cases x) (auto simp: wf_leaves_bt ledger_insert_def split: option.splits if_splits)

lemma wf_run_contents:
  assumes "run_ledger ops me = Inr me'" and "wf_leaves p cs" and "wf_leaves p (wl_leaves me)"
  shows "wf_leaves p (fold op_contents ops cs)"
  using assms
proof (induction ops arbitrary: me cs)
  case (Cons x ops)
  obtain me1 where me1: "op_ledger x me = Inr me1" "run_ledger ops me1 = Inr me'"
    using Cons.prems(1) by (auto split: sum.splits)
  have wf: "bt_wf (wl_leaves me)" using Cons.prems(3) by (simp add: wf_leaves_bt)
  have "wf_leaves p (wl_leaves me1)"
    using wf_leaves_fst [OF op_ledger_frame(3) [OF me1(1) wf]] Cons.prems(3) by blast
  then show ?case using Cons.IH [OF me1(2)] wf_op_contents [OF Cons.prems(2) me1(1) Cons.prems(3)] by simp
qed simp

section \<open>Guarantees\<close>

theorem ledger_sound:
  assumes "wf_leaves p cs" and "ledger_new B p proof touched (root_of_sorted B p (leaves_of B p cs)) = Inr me"
    and "collision_free B p (hashed_pairs B p proof (touched_hashes B me) (leaves_of B p cs))"
  shows "ledger_get me k = Inr v \<Longrightarrow> slot_hash B p v = slot_hash B p (bt_get cs k)"
    and "run_ledger ops me = Inr me' \<Longrightarrow>
      ledger_root B me' = root_of_sorted B p (leaves_of B p (fold op_contents ops cs))"
proof -
  note new = ledger_new_InrD [OF assms(2)]
  have p: "wl_params me = p" "wl_proof me = proof" using new(1) by simp_all
  have "batch_root B proof p (touched_hashes B me) = root_of_sorted B p (leaves_of B p cs)"
    using new(2) p by (simp add: ledger_root_touched)
  note sound = batch_root_sound [OF iffD2 [OF wf_leaves_of assms(1)] iffD2 [OF wf_touched_hashes new(3)] assms(3) this]
  have slot: "slot_hash B p v = slot_hash B p (bt_get cs k)" if "bt_get (wl_leaves me) k = Some v" for k v
  proof -
    have "(k, slot_hash B p v) \<in> set (touched_hashes B me)"
      using map_of_touched_hashes [of B me k] that p by (auto intro: map_of_SomeD)
    then show ?thesis using sound by (auto simp: leaf_of_leaves)
  qed
  show "slot_hash B p v = slot_hash B p (bt_get cs k)" if "ledger_get me k = Inr v"
    using that slot by (auto simp: ledger_get_def split: option.splits)
  show "ledger_root B me' = root_of_sorted B p (leaves_of B p (fold op_contents ops cs))"
    if run: "run_ledger ops me = Inr me'"
  proof -
    have bt: "bt_wf (wl_leaves me)" using new(3) by (simp add: wf_leaves_bt)
    note tr = run_ledger_tracks [OF run bt tracks_start [OF slot]]
    have wf: "wf_leaves p (fold op_contents ops cs)" by (rule wf_run_contents [OF run assms(1) new(3)])
    have "map fst (touched_hashes B me') = map fst (touched_hashes B me)" using tr by simp
    then have "ledger_root B me' = smt (node_hash B p) (smt_depth p) (leaf_map (touched_hashes B me' @ leaves_of B p cs))"
      using sound tr p by (simp add: ledger_root_touched)
    then show ?thesis
      using tracked_root [of B p cs me' "fold op_contents ops cs"] tr p wf
      by (simp add: root_of_sorted_wf wf_leaves_of)
  qed
qed

theorem ledger_complete:
  fixes B :: blake2b
  assumes "wf_leaves p cs" and "smt_depth p < 65536" and "\<forall>k \<in> set keys. length k = width p"
  defines "touched \<equiv> map (\<lambda>k. (k, bt_get cs k)) keys"
    and "fr \<equiv> batch_build B p (leaves_of B p cs) keys"
  shows "\<exists>me. ledger_new B p fr touched (root_of_sorted B p (leaves_of B p cs)) = Inr me \<and>
    (\<forall>k. ledger_get me k = (if k \<in> set keys then Inr (bt_get cs k) else Inl (UnprovenRead k)))"
proof -
  define me where "me = \<lparr>wl_params = p, wl_proof = fr, wl_leaves = bt_insert_all touched []\<rparr>"
  have mo: "map_of (map (\<lambda>k. (k, bt_get cs k)) ks) k = (if k \<in> set ks then Some (bt_get cs k) else None)" for ks k
    by (induction ks) auto
  have get: "bt_get (wl_leaves me) k = (if k \<in> set keys then Some (bt_get cs k) else None)" for k
    by (simp add: me_def bt_get_insert_all touched_def rev_map mo)
  have wf: "wf_leaves p (wl_leaves me)"
  proof -
    have "bt_wf (wl_leaves me)" by (simp add: me_def)
    then show ?thesis using assms(3) by (auto simp: wf_leaves_bt get split: if_splits)
  qed
  have dom: "fst ` set (touched_hashes B me) = set keys"
  proof -
    have "k \<in> fst ` set (wl_leaves me) \<longleftrightarrow> k \<in> set keys" for k
      using get [of k] bt_get_None_iff [of "wl_leaves me" k] by (metis option.distinct(1))
    moreover have "fst ` set (touched_hashes B me) = fst ` set (wl_leaves me)"
      by (metis list.set_map map_fst_touched)
    ultimately show ?thesis by auto
  qed
  have "ledger_root B me = smt (node_hash B p) (smt_depth p) (leaf_map (touched_hashes B me @ leaves_of B p cs))"
    using batch_root_complete [of p "leaves_of B p cs" "touched_hashes B me" keys B] wf assms(1,2) dom
    by (simp add: ledger_root_touched wf_leaves_of wf_touched_hashes me_def fr_def)
  also have "\<dots> = root_of_sorted B p (leaves_of B p cs)"
  proof -
    have "tracks B p cs me cs" by (rule tracks_start) (simp add: get split: if_splits)
    moreover have "wl_params me = p" by (simp add: me_def)
    ultimately show ?thesis using tracked_root assms(1) by (simp add: root_of_sorted_wf wf_leaves_of)
  qed
  finally have root: "ledger_root B me = root_of_sorted B p (leaves_of B p cs)" .
  have "find (\<lambda>k. length k \<noteq> width p) (map fst (wl_leaves me)) = None"
    using wf by (auto simp: find_None_iff wf_leaves_def list_all_iff)
  then have "ledger_new B p fr touched (root_of_sorted B p (leaves_of B p cs)) = Inr me"
    using root by (simp add: ledger_new_def me_def Let_def)
  then show ?thesis using get by (auto simp: ledger_get_def)
qed

end
