(* ===== verification/Storage_Overlay.thy ===== *)
theory Storage_Overlay
  imports Merkle_Encode "HOL-Library.List_Lexorder"
begin

text \<open>
  The dispatch-scoped row overlay of \<open>vos/src/actors/storage.rs\<close>: pending mutations over a read
  cache over the agent's rows, or over the witnessed rows of a Task. The rows the host holds are the
  argument \<open>rows\<close>; \<open>host_read\<close> is the host's side of the \<open>STORAGE_R\<close> call
  (\<open>vos/src/runtime.rs\<close>), which copies as much of a row as the buffer takes and returns its full
  length. The thread-local
  \<open>DispatchState\<close> is passed along; an action returns a panic or its value with the state it
  leaves.

  \<open>view rows s\<close> is the keyspace a dispatch sees, and \<open>runs\<close> the calculus over it: an
  action that, started on a dispatch showing \<open>V\<close>, ends with value \<open>x\<close> on one showing
  \<open>W\<close>. The handles are verified in terms of the views alone.
\<close>

section \<open>Dispatch state\<close>

type_synonym row_key = "byte list"
type_synonym keyspace = "row_key \<Rightarrow> byte list option"

record dispatch_state =
  pending :: "(row_key, byte list option) btree"
  cache :: "(row_key, byte list option) btree"
  witness :: "(row_key, byte list option) btree option"

definition dispatch_new :: dispatch_state where
  "dispatch_new = \<lparr>pending = [], cache = [], witness = None\<rparr>"

datatype storage_panic =
    UnprovenStorageRead row_key
  | ValueTooLarge nat
  | RowTooLarge nat
  | RowChangedSize
  | HandleNotInitialised
  | CorruptRow
  | IndexOutOfBounds
  | MissingElementRow
  | MissingValueRow
  | MissingNodeRow
  | UnknownRefTag byte
  | ForeignLeaf
  | DivergedFromStoredKeys
  | UnreachableCode

type_synonym 'a act = "dispatch_state \<Rightarrow> storage_panic + 'a \<times> dispatch_state"

definition act_return :: "'a \<Rightarrow> 'a act" where
  "act_return x s = Inr (x, s)"

definition act_bind :: "'a act \<Rightarrow> ('a \<Rightarrow> 'b act) \<Rightarrow> 'b act" where
  "act_bind m f s = (case m s of Inl e \<Rightarrow> Inl e | Inr (x, s') \<Rightarrow> f x s')"

definition act_panic :: "storage_panic \<Rightarrow> 'a act" where
  "act_panic e s = Inl e"

definition MAX_VALUE_BYTES :: nat where
  "MAX_VALUE_BYTES = 64 * 1024"

definition PAGE_BYTES :: nat where
  "PAGE_BYTES = 3072"

definition BUF_SIZE :: nat where
  "BUF_SIZE = 8192"

definition HOST_NONE :: nat where
  "HOST_NONE = 2 ^ 64 - 1"

section \<open>Backend\<close>

definition host_read :: "keyspace \<Rightarrow> row_key \<Rightarrow> nat \<Rightarrow> nat \<times> byte list" where
  "host_read rows key buf = (case rows key of None \<Rightarrow> (HOST_NONE, []) | Some v \<Rightarrow> (length v, take buf v))"

definition backend_read :: "keyspace \<Rightarrow> row_key \<Rightarrow> storage_panic + byte list option" where
  "backend_read rows key =
     (let (n, probe) = host_read rows key BUF_SIZE in
      if n = HOST_NONE then Inr None
      else if n \<le> BUF_SIZE then Inr (Some (take n probe))
      else if n > MAX_VALUE_BYTES then Inl (RowTooLarge n)
      else let (m, full) = host_read rows key n in
           if m \<noteq> n then Inl RowChangedSize else Inr (Some full))"

section \<open>Overlay\<close>

definition read_row :: "keyspace \<Rightarrow> row_key \<Rightarrow> dispatch_state \<Rightarrow> storage_panic + byte list option" where
  "read_row rows key s =
     (case witness s of
        Some w \<Rightarrow> (case bt_get w key of Some vl \<Rightarrow> Inr vl | None \<Rightarrow> Inl (UnprovenStorageRead key))
      | None \<Rightarrow> backend_read rows key)"

definition overlay_load :: "keyspace \<Rightarrow> row_key \<Rightarrow> byte list option act" where
  "overlay_load rows key s =
     (case bt_get (pending s) key of
        Some p \<Rightarrow> Inr (p, s)
      | None \<Rightarrow>
          (case bt_get (cache s) key of
             Some c \<Rightarrow> Inr (c, s)
           | None \<Rightarrow>
               (case read_row rows key s of
                  Inl e \<Rightarrow> Inl e
                | Inr vl \<Rightarrow> Inr (vl, s\<lparr>cache := bt_insert key vl (cache s)\<rparr>))))"

definition fits :: "byte list option \<Rightarrow> bool" where
  "fits vl \<longleftrightarrow> (case vl of Some v \<Rightarrow> length v \<le> MAX_VALUE_BYTES | None \<Rightarrow> True)"

definition overlay_store :: "row_key \<Rightarrow> byte list option \<Rightarrow> unit act" where
  "overlay_store key vl s =
     (if \<not> fits vl then Inl (ValueTooLarge (length (the vl)))
      else Inr ((), s\<lparr>pending := bt_insert key vl (pending s)\<rparr>))"

text \<open>The first half of \<open>overlay_mutate\<close>: a pending entry for the row, from the cache or its source.\<close>

definition overlay_seed :: "keyspace \<Rightarrow> row_key \<Rightarrow> dispatch_state \<Rightarrow> storage_panic + dispatch_state" where
  "overlay_seed rows key s =
     (case bt_get (pending s) key of
        Some p \<Rightarrow> Inr s
      | None \<Rightarrow>
          (case bt_get (cache s) key of
             Some c \<Rightarrow> Inr (s\<lparr>pending := bt_insert key c (pending s)\<rparr>)
           | None \<Rightarrow>
               (case read_row rows key s of
                  Inl e \<Rightarrow> Inl e
                | Inr vl \<Rightarrow> Inr (s\<lparr>pending := bt_insert key vl (pending s)\<rparr>))))"

definition overlay_mutate :: "keyspace \<Rightarrow> row_key \<Rightarrow> (byte list option \<Rightarrow> 'a \<times> byte list option) \<Rightarrow> 'a act" where
  "overlay_mutate rows key f s =
     (case overlay_seed rows key s of
        Inl e \<Rightarrow> Inl e
      | Inr s1 \<Rightarrow>
          (let (out, slot) = f (the (bt_get (pending s1) key)) in
           if \<not> fits slot then Inl (ValueTooLarge (length (the slot)))
           else Inr (out, s1\<lparr>pending := bt_insert key slot (pending s1)\<rparr>)))"

definition store_raw :: "row_key \<Rightarrow> byte list \<Rightarrow> unit act" where
  "store_raw key vl = overlay_store key (Some vl)"

definition read_raw :: "keyspace \<Rightarrow> row_key \<Rightarrow> byte list option act" where
  "read_raw rows key = overlay_load rows key"

definition delete_raw :: "keyspace \<Rightarrow> row_key \<Rightarrow> bool act" where
  "delete_raw rows key =
     act_bind (overlay_load rows key) (\<lambda>existed.
     act_bind (overlay_store key None) (\<lambda>_. act_return (existed \<noteq> None)))"

definition seed_witness_rows :: "(row_key, byte list option) btree \<Rightarrow> dispatch_state \<Rightarrow> dispatch_state" where
  "seed_witness_rows w s = s\<lparr>witness := Some w\<rparr>"

definition end_dispatch :: "dispatch_state \<Rightarrow> (row_key \<times> byte list option) list \<times> dispatch_state" where
  "end_dispatch s = (pending s, s\<lparr>cache := [], witness := None, pending := []\<rparr>)"

text \<open>The host's commit of a drained dispatch (\<open>mock::commit\<close>).\<close>

fun commit_rows :: "(row_key \<times> byte list option) list \<Rightarrow> keyspace \<Rightarrow> keyspace" where
  "commit_rows [] rows = rows"
| "commit_rows ((key, vl) # ds) rows = commit_rows ds (rows(key := vl))"

section \<open>Row keys\<close>

definition core_row :: "byte list \<Rightarrow> byte \<Rightarrow> byte list \<Rightarrow> row_key act" where
  "core_row prefix tag suffix =
     (if prefix = [] then act_panic HandleNotInitialised else act_return (prefix @ tag # suffix))"

definition to_be_bytes :: "nat \<Rightarrow> nat \<Rightarrow> byte list" where
  "to_be_bytes n v = rev (to_le_bytes n v)"

definition from_be_bytes :: "byte list \<Rightarrow> nat" where
  "from_be_bytes bs = from_le_bytes (rev bs)"

definition decode_or_panic :: "(byte list \<Rightarrow> 'v option) \<Rightarrow> byte list \<Rightarrow> 'v act" where
  "decode_or_panic dec bytes = (case dec bytes of Some v \<Rightarrow> act_return v | None \<Rightarrow> act_panic CorruptRow)"

section \<open>Views\<close>

definition view :: "keyspace \<Rightarrow> dispatch_state \<Rightarrow> keyspace" where
  "view rows s key =
     (case bt_get (pending s) key of Some p \<Rightarrow> p
      | None \<Rightarrow> (case bt_get (cache s) key of Some c \<Rightarrow> c | None \<Rightarrow> rows key))"

definition small_rows :: "keyspace \<Rightarrow> bool" where
  "small_rows rows \<longleftrightarrow> (\<forall>k. fits (rows k))"

definition live :: "keyspace \<Rightarrow> dispatch_state \<Rightarrow> bool" where
  "live rows s \<longleftrightarrow>
     witness s = None \<and> small_rows rows \<and> (\<forall>k. fits (view rows s k)) \<and> bt_wf (pending s) \<and>
     (\<forall>k v. bt_get (cache s) k = Some v \<longrightarrow> v = rows k)"

definition runs :: "keyspace \<Rightarrow> 'a act \<Rightarrow> keyspace \<Rightarrow> 'a \<Rightarrow> keyspace \<Rightarrow> bool" where
  "runs rows m V x W \<longleftrightarrow>
     (\<forall>s. live rows s \<and> view rows s = V \<longrightarrow> (\<exists>s'. m s = Inr (x, s') \<and> live rows s' \<and> view rows s' = W))"

lemma backend_read_rows:
  assumes "small_rows rows"
  shows "backend_read rows key = Inr (rows key)"
proof (cases "rows key")
  case None
  then show ?thesis by (simp add: backend_read_def host_read_def)
next
  case (Some v)
  have "length v \<le> 65536" using assms Some by (auto simp: small_rows_def fits_def MAX_VALUE_BYTES_def split: option.splits dest: spec [of _ key])
  then show ?thesis using Some by (simp add: backend_read_def host_read_def HOST_NONE_def BUF_SIZE_def MAX_VALUE_BYTES_def)
qed

lemma runs_return: "runs rows (act_return x) V x V"
  by (simp add: runs_def act_return_def)

lemma runs_bind: "runs rows m V x W \<Longrightarrow> runs rows (f x) W y X \<Longrightarrow> runs rows (act_bind m f) V y X"
  unfolding runs_def act_bind_def by fastforce

lemma view_put: "view rows (s\<lparr>pending := bt_insert key vl (pending s)\<rparr>) = (view rows s)(key := vl)"
  by (rule ext) (simp add: view_def split: option.splits)

lemma view_cache:
  "bt_get (pending s) key = None \<Longrightarrow> bt_get (cache s) key = None \<Longrightarrow>
     view rows (s\<lparr>cache := bt_insert key (rows key) (cache s)\<rparr>) = view rows s"
  by (rule ext) (auto simp: view_def split: option.splits)

lemma live_put: "live rows s \<Longrightarrow> fits vl \<Longrightarrow> live rows (s\<lparr>pending := bt_insert key vl (pending s)\<rparr>)"
  by (simp add: live_def view_put)

lemma live_cache:
  "live rows s \<Longrightarrow> bt_get (pending s) key = None \<Longrightarrow> bt_get (cache s) key = None \<Longrightarrow>
     live rows (s\<lparr>cache := bt_insert key (rows key) (cache s)\<rparr>)"
  by (simp add: live_def view_cache)

lemma live_read: "live rows s \<Longrightarrow> read_row rows key s = Inr (rows key)"
  by (simp add: live_def read_row_def backend_read_rows)

lemma view_simps:
  "bt_get (pending s) key = Some p \<Longrightarrow> view rows s key = p"
  "bt_get (pending s) key = None \<Longrightarrow> bt_get (cache s) key = Some c \<Longrightarrow> view rows s key = c"
  "bt_get (pending s) key = None \<Longrightarrow> bt_get (cache s) key = None \<Longrightarrow> view rows s key = rows key"
  by (simp_all add: view_def)

lemma overlay_load_live:
  assumes "live rows s"
  shows "\<exists>s'. overlay_load rows key s = Inr (view rows s key, s') \<and> live rows s' \<and> view rows s' = view rows s"
proof (cases "bt_get (pending s) key")
  case None
  note p = None
  show ?thesis
  proof (cases "bt_get (cache s) key")
    case None
    then show ?thesis
      using p assms by (simp add: overlay_load_def live_read view_simps live_cache view_cache)
  next
    case (Some c)
    then show ?thesis using p assms by (simp add: overlay_load_def view_simps)
  qed
next
  case (Some v)
  then show ?thesis using assms by (simp add: overlay_load_def view_simps)
qed

lemma overlay_seed_live:
  assumes "live rows s"
  shows "\<exists>s'. overlay_seed rows key s = Inr s' \<and> live rows s' \<and> view rows s' = view rows s \<and>
    bt_get (pending s') key = Some (view rows s key)"
proof (cases "bt_get (pending s) key")
  case None
  note p = None
  have fit: "fits (view rows s key)" using assms by (simp add: live_def)
  have put: "view rows (s\<lparr>pending := bt_insert key (view rows s key) (pending s)\<rparr>) = view rows s"
    by (simp add: view_put)
  show ?thesis
  proof (cases "bt_get (cache s) key")
    case None
    then show ?thesis
      using p assms live_put [OF assms fit, of key] put
      by (simp add: overlay_seed_def live_read view_simps)
  next
    case (Some c)
    then show ?thesis
      using p assms live_put [OF assms fit, of key] put
      by (simp add: overlay_seed_def view_simps)
  qed
next
  case (Some v)
  then show ?thesis using assms by (simp add: overlay_seed_def view_simps)
qed

lemma runs_load: "runs rows (overlay_load rows key) V (V key) V"
  unfolding runs_def using overlay_load_live by blast

lemma runs_store: "fits vl \<Longrightarrow> runs rows (overlay_store key vl) V () (V(key := vl))"
  unfolding runs_def using live_put view_put by (fastforce simp: overlay_store_def)

lemma runs_mutate:
  assumes "f (V key) = (x, slot)" and "fits slot"
  shows "runs rows (overlay_mutate rows key f) V x (V(key := slot))"
  unfolding runs_def
proof (intro allI impI)
  fix s
  assume s: "live rows s \<and> view rows s = V"
  then obtain s1 where s1: "overlay_seed rows key s = Inr s1" "live rows s1" "view rows s1 = V"
      "bt_get (pending s1) key = Some (V key)"
    using overlay_seed_live [of rows s key] by auto
  then show "\<exists>s'. overlay_mutate rows key f s = Inr (x, s') \<and> live rows s' \<and> view rows s' = V(key := slot)"
    using assms live_put [OF s1(2) assms(2), of key] view_put [where rows = rows and s = s1 and key = key and vl = slot] by (simp add: overlay_mutate_def)
qed

text \<open>The dispatch after this one, on the committed rows, shows what this one showed.\<close>

lemma commit_rows_map_of: "commit_rows ds rows k = (case map_of (rev ds) k of Some v \<Rightarrow> v | None \<Rightarrow> rows k)"
proof (induction ds arbitrary: rows)
  case (Cons d ds)
  then show ?case by (cases d) (simp add: map_add_def split: option.splits)
qed simp

lemma live_new: "small_rows rows \<Longrightarrow> live rows dispatch_new \<and> view rows dispatch_new = rows"
  by (auto simp: live_def dispatch_new_def view_def small_rows_def)

lemma map_of_rev: "distinct (map fst m) \<Longrightarrow> map_of (rev m) = map_of m"
  by (rule map_of_inject_set [THEN iffD2]) (simp_all add: rev_map [symmetric])

lemma end_dispatch_commit:
  assumes "live rows s"
  shows "commit_rows (fst (end_dispatch s)) rows = view rows s"
    and "snd (end_dispatch s) = dispatch_new" and "small_rows (view rows s)"
proof -
  have "map_of (rev (pending s)) = bt_get (pending s)"
    using assms by (simp add: live_def map_of_rev bt_wf_distinct bt_get_def fun_eq_iff)
  then show "commit_rows (fst (end_dispatch s)) rows = view rows s"
    using assms by (auto simp: fun_eq_iff commit_rows_map_of end_dispatch_def view_def live_def split: option.splits)
  show "snd (end_dispatch s) = dispatch_new"
    by (cases s) (simp add: end_dispatch_def dispatch_new_def)
  show "small_rows (view rows s)" using assms by (simp add: live_def small_rows_def)
qed

text \<open>In a Task, a row outside the witness is never read as absent.\<close>

lemma unproven_read_panics:
  assumes "bt_get w key = None" and "bt_get (pending s) key = None" and "bt_get (cache s) key = None"
  shows "overlay_load rows key (seed_witness_rows w s) = Inl (UnprovenStorageRead key)"
  using assms by (simp add: overlay_load_def read_row_def seed_witness_rows_def)

end
