(* ===== verification/Committed_Map.thy ===== *)
theory Committed_Map
  imports Smt_Ledger Storage_Overlay
begin

text \<open>
  The committed map of \<open>vos/src/actors/storage/committed.rs\<close>: a map whose sparse-Merkle root is
  kept in ordinary rows. Row keys are built by \<open>core_row\<close> and read and written through the
  overlay. The key type's width is a field of the handle and a key is its \<open>width\<close> bytes; the
  value codec is the pair \<open>enc\<close>, \<open>dec\<close>. The loops that follow references found in rows are
  partial functions: \<open>None\<close> is a loop that does not return, as it would on rows whose
  references form a cycle.
\<close>

section \<open>References\<close>

datatype tree_ref =
    RefEmpty
  | RefLeaf "byte list" hash32
  | RefBranch "16 word" "byte list" hash32

definition digest32_of :: "byte list \<Rightarrow> hash32" where
  "digest32_of bs = of_nat (from_be_bytes bs)"

fun ref_encode :: "tree_ref \<Rightarrow> byte list" where
  "ref_encode RefEmpty = [0]"
| "ref_encode (RefLeaf key hash) = [1] @ key @ digest32_bytes hash"
| "ref_encode (RefBranch level prefix hash) = [2] @ to_be_bytes 2 (unat level) @ prefix @ digest32_bytes hash"

definition byte_slice :: "byte list \<Rightarrow> nat \<Rightarrow> nat \<Rightarrow> storage_panic + byte list" where
  "byte_slice bytes at n = (if at + n \<le> length bytes then Inr (take n (drop at bytes)) else Inl IndexOutOfBounds)"

definition ref_decode_from :: "byte list \<Rightarrow> nat \<Rightarrow> nat \<Rightarrow> storage_panic + tree_ref \<times> nat" where
  "ref_decode_from bytes w at =
     (case byte_slice bytes at 1 of
        Inl e \<Rightarrow> Inl e
      | Inr tag \<Rightarrow>
          if hd tag = 0 then Inr (RefEmpty, at + 1)
          else if hd tag = 1 then
            (case byte_slice bytes (at + 1) w of
               Inl e \<Rightarrow> Inl e
             | Inr key \<Rightarrow>
                 (case byte_slice bytes (at + 1 + w) 32 of
                    Inl e \<Rightarrow> Inl e
                  | Inr hash \<Rightarrow> Inr (RefLeaf key (digest32_of hash), at + 1 + w + 32)))
          else if hd tag = 2 then
            (case byte_slice bytes (at + 1) 2 of
               Inl e \<Rightarrow> Inl e
             | Inr level \<Rightarrow>
                 (case byte_slice bytes (at + 1 + 2) w of
                    Inl e \<Rightarrow> Inl e
                  | Inr prefix \<Rightarrow>
                      (case byte_slice bytes (at + 1 + 2 + w) 32 of
                         Inl e \<Rightarrow> Inl e
                       | Inr hash \<Rightarrow>
                           Inr (RefBranch (of_nat (from_be_bytes level)) prefix (digest32_of hash), at + 1 + 2 + w + 32))))
          else Inl (UnknownRefTag (hd tag)))"

definition ref_subtree_hash :: "blake2b \<Rightarrow> smt_params \<Rightarrow> hash32 list \<Rightarrow> tree_ref \<Rightarrow> nat \<Rightarrow> hash32" where
  "ref_subtree_hash B p chain r at_level =
     (let depth = smt_depth p in
      case r of
        RefEmpty \<Rightarrow> chain ! (depth - at_level)
      | RefLeaf key hash \<Rightarrow> spine_hash B p chain key hash 0 (depth - at_level)
      | RefBranch level prefix hash \<Rightarrow> spine_hash B p chain prefix hash (depth - unat level) (depth - at_level))"

definition leading_zeros :: "byte \<Rightarrow> nat" where
  "leading_zeros b = length (takeWhile (\<lambda>x. \<not> x) (byte_bits b))"

text \<open>The loop over the zipped keys; \<open>None\<close> is its \<open>unreachable!\<close>.\<close>

fun first_diff_from :: "nat \<Rightarrow> (byte \<times> byte) list \<Rightarrow> nat option" where
  "first_diff_from i [] = None"
| "first_diff_from i ((x, y) # xys) = (if x \<noteq> y then Some (i * 8 + leading_zeros (x XOR y)) else first_diff_from (i + 1) xys)"

definition first_diff_level :: "byte list \<Rightarrow> byte list \<Rightarrow> nat option" where
  "first_diff_level a b = first_diff_from 0 (zip a b)"

definition diverge_before :: "byte list \<Rightarrow> byte list \<Rightarrow> nat \<Rightarrow> nat option" where
  "diverge_before key prefix limit = find (\<lambda>l. level_bit key l \<noteq> level_bit prefix l) [0..<limit]"

definition prefix_of :: "byte list \<Rightarrow> nat \<Rightarrow> byte list" where
  "prefix_of key level =
     (let full = level div 8;
          out = take full key @ replicate (length key - full) 0
      in if level mod 8 \<noteq> 0 then out[full := key ! full AND NOT (drop_bit (level mod 8) 255)] else out)"

section \<open>Rows\<close>

record committed_map =
  cm_prefix :: "byte list"
  cm_leaf_domain :: "byte list"
  cm_node_domain :: "byte list"
  cm_width :: nat
  cm_chain :: "hash32 list option"

definition cm_default :: "nat \<Rightarrow> committed_map" where
  "cm_default w = \<lparr>cm_prefix = [], cm_leaf_domain = VOS_LEAF_DOMAIN, cm_node_domain = VOS_NODE_DOMAIN,
     cm_width = w, cm_chain = None\<rparr>"

definition cm_init :: "byte list \<Rightarrow> committed_map \<Rightarrow> committed_map" where
  "cm_init prefix m = m\<lparr>cm_prefix := prefix\<rparr>"

definition cm_init_with_domains :: "byte list \<Rightarrow> byte list \<Rightarrow> byte list \<Rightarrow> committed_map \<Rightarrow> committed_map" where
  "cm_init_with_domains prefix ld nd m = m\<lparr>cm_prefix := prefix, cm_leaf_domain := ld, cm_node_domain := nd\<rparr>"

definition cm_params :: "committed_map \<Rightarrow> smt_params" where
  "cm_params m = \<lparr>leaf_domain = cm_leaf_domain m, node_domain = cm_node_domain m, width = cm_width m\<rparr>"

definition value_row :: "committed_map \<Rightarrow> byte list \<Rightarrow> row_key act" where
  "value_row m kb = core_row (cm_prefix m) (of_char CHR ''v'') kb"

definition node_row :: "committed_map \<Rightarrow> 16 word \<Rightarrow> byte list \<Rightarrow> row_key act" where
  "node_row m level prefix = core_row (cm_prefix m) (of_char CHR ''n'') (to_be_bytes 2 (unat level) @ prefix)"

definition root_row :: "committed_map \<Rightarrow> row_key act" where
  "root_row m = core_row (cm_prefix m) (of_char CHR ''r'') []"

definition decode_refs :: "byte list \<Rightarrow> nat \<Rightarrow> (tree_ref \<times> tree_ref) act" where
  "decode_refs bytes w s =
     (case ref_decode_from bytes w 0 of
        Inl e \<Rightarrow> Inl e
      | Inr (left, at) \<Rightarrow>
          (case ref_decode_from bytes w at of Inl e \<Rightarrow> Inl e | Inr (right, at') \<Rightarrow> Inr ((left, right), s)))"

definition read_node :: "keyspace \<Rightarrow> committed_map \<Rightarrow> 16 word \<Rightarrow> byte list \<Rightarrow> (tree_ref \<times> tree_ref) act" where
  "read_node rows m level prefix =
     act_bind (node_row m level prefix) (\<lambda>key.
     act_bind (overlay_load rows key) (\<lambda>loaded.
       case loaded of None \<Rightarrow> act_panic MissingNodeRow | Some bytes \<Rightarrow> decode_refs bytes (cm_width m)))"

definition write_node :: "committed_map \<Rightarrow> 16 word \<Rightarrow> byte list \<Rightarrow> tree_ref \<Rightarrow> tree_ref \<Rightarrow> unit act" where
  "write_node m level prefix left right =
     act_bind (node_row m level prefix) (\<lambda>key.
     overlay_store key (Some (ref_encode left @ ref_encode right)))"

definition decode_root :: "byte list \<Rightarrow> nat \<Rightarrow> (64 word \<times> hash32 option \<times> tree_ref) act" where
  "decode_root bytes w s =
     (case byte_slice bytes 0 8 of
        Inl e \<Rightarrow> Inl e
      | Inr count \<Rightarrow>
          (case byte_slice bytes 8 32 of
             Inl e \<Rightarrow> Inl e
           | Inr hash \<Rightarrow>
               (case ref_decode_from bytes w 40 of
                  Inl e \<Rightarrow> Inl e
                | Inr (tip, at) \<Rightarrow> Inr ((of_nat (from_le_bytes count), Some (digest32_of hash), tip), s))))"

definition read_root :: "keyspace \<Rightarrow> committed_map \<Rightarrow> (64 word \<times> hash32 option \<times> tree_ref) act" where
  "read_root rows m =
     act_bind (root_row m) (\<lambda>key.
     act_bind (overlay_load rows key) (\<lambda>loaded.
       case loaded of None \<Rightarrow> act_return (0, None, RefEmpty) | Some bytes \<Rightarrow> decode_root bytes (cm_width m)))"

definition write_root :: "committed_map \<Rightarrow> 64 word \<Rightarrow> hash32 \<Rightarrow> tree_ref \<Rightarrow> unit act" where
  "write_root m count hash tip =
     act_bind (root_row m) (\<lambda>key.
     overlay_store key (Some (to_le_bytes 8 (unat count) @ digest32_bytes hash @ ref_encode tip)))"

section \<open>Reading\<close>

definition cm_len :: "keyspace \<Rightarrow> committed_map \<Rightarrow> 64 word act" where
  "cm_len rows m = act_bind (read_root rows m) (\<lambda>(count, _). act_return count)"

definition cm_is_empty :: "keyspace \<Rightarrow> committed_map \<Rightarrow> bool act" where
  "cm_is_empty rows m = act_bind (cm_len rows m) (\<lambda>n. act_return (n = 0))"

definition cm_root :: "blake2b \<Rightarrow> keyspace \<Rightarrow> committed_map \<Rightarrow> hash32 act" where
  "cm_root B rows m =
     act_bind (read_root rows m) (\<lambda>(_, root, _).
       case root of Some hash \<Rightarrow> act_return hash | None \<Rightarrow> act_return (last (empty_chain B (cm_params m))))"

definition cm_get :: "(byte list \<Rightarrow> 'v option) \<Rightarrow> keyspace \<Rightarrow> committed_map \<Rightarrow> byte list \<Rightarrow> 'v option act" where
  "cm_get dec rows m key =
     act_bind (value_row m key) (\<lambda>row.
     act_bind (overlay_load rows row) (\<lambda>loaded.
       case loaded of None \<Rightarrow> act_return None
       | Some b \<Rightarrow> act_bind (decode_or_panic dec b) (\<lambda>v. act_return (Some v))))"

definition cm_contains :: "keyspace \<Rightarrow> committed_map \<Rightarrow> byte list \<Rightarrow> bool act" where
  "cm_contains rows m key =
     act_bind (value_row m key) (\<lambda>row.
     act_bind (overlay_load rows row) (\<lambda>loaded. act_return (loaded \<noteq> None)))"

section \<open>Updating the tree\<close>

type_synonym path_entry = "16 word \<times> byte list \<times> tree_ref \<times> tree_ref \<times> bool"

text \<open>A new branch node above the slot the walk stopped at: our leaf on one side, what was there on
  the other.\<close>

definition cm_split ::
  "blake2b \<Rightarrow> committed_map \<Rightarrow> smt_params \<Rightarrow> hash32 list \<Rightarrow> byte list \<Rightarrow> hash32 \<Rightarrow> tree_ref \<Rightarrow> nat \<Rightarrow> tree_ref act" where
  "cm_split B m p chain kb hash theirs d =
     (let prefix = prefix_of kb d;
          ours = RefLeaf kb hash;
          (l, r) = if level_bit kb d then (theirs, ours) else (ours, theirs);
          h = node_hash B p (ref_subtree_hash B p chain l (d + 1)) (ref_subtree_hash B p chain r (d + 1))
      in act_bind (write_node m (of_nat d) prefix l r) (\<lambda>_. act_return (RefBranch (of_nat d) prefix h)))"

text \<open>The walk down: the replacement of the slot (\<open>None\<close> removes it), whether the key set
  changed, the count, and the branch nodes passed, the last one first.\<close>

partial_function (option) cm_walk ::
  "blake2b \<Rightarrow> keyspace \<Rightarrow> committed_map \<Rightarrow> smt_params \<Rightarrow> hash32 list \<Rightarrow> byte list \<Rightarrow> hash32 option \<Rightarrow>
     tree_ref \<Rightarrow> 64 word \<Rightarrow> path_entry list \<Rightarrow> dispatch_state \<Rightarrow>
     (storage_panic + (tree_ref option \<times> bool \<times> 64 word \<times> path_entry list) \<times> dispatch_state) option" where
  [code]: "cm_walk B rows m p chain kb leaf cur count stack s =
     (case cur of
        RefEmpty \<Rightarrow>
          (case leaf of
             Some hash \<Rightarrow> Some (Inr ((Some (RefLeaf kb hash), True, count + 1, stack), s))
           | None \<Rightarrow> Some (Inr ((Some RefEmpty, False, count, stack), s)))
      | RefLeaf k2 h2 \<Rightarrow>
          if k2 = kb then
            (case leaf of
               Some hash \<Rightarrow> Some (Inr ((Some (RefLeaf k2 hash), False, count, stack), s))
             | None \<Rightarrow> Some (Inr ((None, True, count - 1, stack), s)))
          else
            (case leaf of
               None \<Rightarrow> Some (Inl ForeignLeaf)
             | Some hash \<Rightarrow>
                 (case first_diff_level kb k2 of
                    None \<Rightarrow> Some (Inl UnreachableCode)
                  | Some d \<Rightarrow>
                      (case cm_split B m p chain kb hash (RefLeaf k2 h2) d s of
                         Inl e \<Rightarrow> Some (Inl e)
                       | Inr (r, s1) \<Rightarrow> Some (Inr ((Some r, True, count + 1, stack), s1)))))
      | RefBranch level prefix h2 \<Rightarrow>
          (case diverge_before kb prefix (unat level) of
             Some d \<Rightarrow>
               (case leaf of
                  None \<Rightarrow> Some (Inl DivergedFromStoredKeys)
                | Some lhash \<Rightarrow>
                    (case cm_split B m p chain kb lhash (RefBranch level prefix h2) d s of
                       Inl e \<Rightarrow> Some (Inl e)
                     | Inr (r, s1) \<Rightarrow> Some (Inr ((Some r, True, count + 1, stack), s1))))
           | None \<Rightarrow>
               (case read_node rows m level prefix s of
                  Inl e \<Rightarrow> Some (Inl e)
                | Inr ((left, right), s1) \<Rightarrow>
                    (let side = level_bit kb (unat level) in
                     cm_walk B rows m p chain kb leaf (if side then right else left) count
                       ((level, prefix, left, right, side) # stack) s1))))"

text \<open>The ref that flows into the parent slot: a removed leaf collapses its parent node.\<close>

fun cm_collapse :: "committed_map \<Rightarrow> tree_ref option \<Rightarrow> path_entry list \<Rightarrow> (tree_ref \<times> path_entry list) act" where
  "cm_collapse m (Some r) stack = act_return (r, stack)"
| "cm_collapse m None [] = act_return (RefEmpty, [])"
| "cm_collapse m None ((level, prefix, left, right, side) # stack) =
     act_bind (node_row m level prefix) (\<lambda>key.
     act_bind (overlay_store key None) (\<lambda>_.
     act_return (if side then left else right, stack)))"

fun cm_bubble ::
  "blake2b \<Rightarrow> committed_map \<Rightarrow> smt_params \<Rightarrow> hash32 list \<Rightarrow> tree_ref \<Rightarrow> path_entry list \<Rightarrow> tree_ref act" where
  "cm_bubble B m p chain child [] = act_return child"
| "cm_bubble B m p chain child ((level, prefix, left, right, side) # stack) =
     (let right' = (if side then child else right);
          left' = (if side then left else child);
          h = node_hash B p (ref_subtree_hash B p chain left' (unat level + 1))
                (ref_subtree_hash B p chain right' (unat level + 1))
      in act_bind (write_node m level prefix left' right') (\<lambda>_.
         cm_bubble B m p chain (RefBranch level prefix h) stack))"

definition cm_finish ::
  "blake2b \<Rightarrow> committed_map \<Rightarrow> smt_params \<Rightarrow> hash32 list \<Rightarrow> tree_ref option \<times> bool \<times> 64 word \<times> path_entry list \<Rightarrow>
     (bool \<times> committed_map) act" where
  "cm_finish B m p chain w =
     (case w of (replacement, changed, count, stack) \<Rightarrow>
      act_bind (cm_collapse m replacement stack) (\<lambda>(child0, stack').
      act_bind (cm_bubble B m p chain child0 stack') (\<lambda>child.
      act_bind (write_root m count (ref_subtree_hash B p chain child 0) child) (\<lambda>_.
      act_return (changed, m\<lparr>cm_chain := Some chain\<rparr>)))))"

definition update_tree ::
  "blake2b \<Rightarrow> keyspace \<Rightarrow> committed_map \<Rightarrow> byte list \<Rightarrow> hash32 option \<Rightarrow> dispatch_state \<Rightarrow>
     (storage_panic + (bool \<times> committed_map) \<times> dispatch_state) option" where
  "update_tree B rows m kb leaf s =
     (let p = cm_params m;
          chain = (case cm_chain m of Some c \<Rightarrow> c | None \<Rightarrow> empty_chain B p)
      in case read_root rows m s of
           Inl e \<Rightarrow> Some (Inl e)
         | Inr ((count, _, tip), s1) \<Rightarrow>
             (case cm_walk B rows m p chain kb leaf tip count [] s1 of
                None \<Rightarrow> None
              | Some (Inl e) \<Rightarrow> Some (Inl e)
              | Some (Inr (w, s2)) \<Rightarrow> Some (cm_finish B m p chain w s2)))"

definition insert_encoded ::
  "blake2b \<Rightarrow> keyspace \<Rightarrow> committed_map \<Rightarrow> byte list \<Rightarrow> byte list \<Rightarrow> byte list \<Rightarrow> dispatch_state \<Rightarrow>
     (storage_panic + (bool \<times> committed_map) \<times> dispatch_state) option" where
  "insert_encoded B rows m kb value_bytes leaf_content s =
     (let leaf = leaf_hash B (cm_params m) leaf_content in
      case act_bind (value_row m kb) (\<lambda>row. overlay_store row (Some value_bytes)) s of
        Inl e \<Rightarrow> Some (Inl e)
      | Inr (_, s1) \<Rightarrow> update_tree B rows m kb (Some leaf) s1)"

definition cm_insert ::
  "('v \<Rightarrow> byte list) \<Rightarrow> blake2b \<Rightarrow> keyspace \<Rightarrow> committed_map \<Rightarrow> byte list \<Rightarrow> 'v \<Rightarrow> dispatch_state \<Rightarrow>
     (storage_panic + (bool \<times> committed_map) \<times> dispatch_state) option" where
  "cm_insert enc B rows m key v = (let encoded = enc v in insert_encoded B rows m key encoded encoded)"

definition insert_with_leaf ::
  "('v \<Rightarrow> byte list) \<Rightarrow> blake2b \<Rightarrow> keyspace \<Rightarrow> committed_map \<Rightarrow> byte list \<Rightarrow> 'v \<Rightarrow> byte list \<Rightarrow> dispatch_state \<Rightarrow>
     (storage_panic + (bool \<times> committed_map) \<times> dispatch_state) option" where
  "insert_with_leaf enc B rows m key v leaf_content = insert_encoded B rows m key (enc v) leaf_content"

definition cm_remove ::
  "blake2b \<Rightarrow> keyspace \<Rightarrow> committed_map \<Rightarrow> byte list \<Rightarrow> dispatch_state \<Rightarrow>
     (storage_panic + (bool \<times> committed_map) \<times> dispatch_state) option" where
  "cm_remove B rows m kb s =
     (case act_bind (value_row m kb) (\<lambda>row. act_bind (overlay_load rows row) (\<lambda>loaded. act_return (row, loaded))) s of
        Inl e \<Rightarrow> Some (Inl e)
      | Inr ((row, None), s1) \<Rightarrow> Some (Inr ((False, m), s1))
      | Inr ((row, Some _), s1) \<Rightarrow>
          (case overlay_store row None s1 of
             Inl e \<Rightarrow> Some (Inl e)
           | Inr (_, s2) \<Rightarrow> update_tree B rows m kb None s2))"

section \<open>Iteration\<close>

partial_function (option) cm_next ::
  "(byte list \<Rightarrow> 'v option) \<Rightarrow> keyspace \<Rightarrow> committed_map \<Rightarrow> tree_ref list \<Rightarrow> dispatch_state \<Rightarrow>
     (storage_panic + ((byte list \<times> 'v) option \<times> tree_ref list) \<times> dispatch_state) option" where
  [code]: "cm_next dec rows m stack s =
     (case stack of
        [] \<Rightarrow> Some (Inr ((None, []), s))
      | r # stack' \<Rightarrow>
          (case r of
             RefEmpty \<Rightarrow> cm_next dec rows m stack' s
           | RefLeaf key _ \<Rightarrow>
               Some (act_bind (value_row m key) (\<lambda>row.
                     act_bind (overlay_load rows row) (\<lambda>loaded.
                       case loaded of None \<Rightarrow> act_panic MissingValueRow
                       | Some b \<Rightarrow> act_bind (decode_or_panic dec b) (\<lambda>v. act_return (Some (key, v), stack')))) s)
           | RefBranch level prefix _ \<Rightarrow>
               (case read_node rows m level prefix s of
                  Inl e \<Rightarrow> Some (Inl e)
                | Inr ((left, right), s1) \<Rightarrow> cm_next dec rows m (left # right # stack') s1)))"

text \<open>\<open>iter().collect()\<close>.\<close>

partial_function (option) cm_collect ::
  "(byte list \<Rightarrow> 'v option) \<Rightarrow> keyspace \<Rightarrow> committed_map \<Rightarrow> tree_ref list \<Rightarrow> (byte list \<times> 'v) list \<Rightarrow> dispatch_state \<Rightarrow>
     (storage_panic + (byte list \<times> 'v) list \<times> dispatch_state) option" where
  [code]: "cm_collect dec rows m stack acc s =
     (case cm_next dec rows m stack s of
        None \<Rightarrow> None
      | Some (Inl e) \<Rightarrow> Some (Inl e)
      | Some (Inr ((None, stack'), s1)) \<Rightarrow> Some (Inr (acc, s1))
      | Some (Inr ((Some kv, stack'), s1)) \<Rightarrow> cm_collect dec rows m stack' (acc @ [kv]) s1)"

definition cm_iter ::
  "(byte list \<Rightarrow> 'v option) \<Rightarrow> keyspace \<Rightarrow> committed_map \<Rightarrow> dispatch_state \<Rightarrow>
     (storage_panic + (byte list \<times> 'v) list \<times> dispatch_state) option" where
  "cm_iter dec rows m s =
     (case read_root rows m s of
        Inl e \<Rightarrow> Some (Inl e)
      | Inr ((_, _, tip), s1) \<Rightarrow> cm_collect dec rows m [tip] [] s1)"

section \<open>Multiproofs from the stored tree\<close>

text \<open>The two slots below a non-empty one, one level down.\<close>

definition ref_sides :: "keyspace \<Rightarrow> committed_map \<Rightarrow> tree_ref \<Rightarrow> nat \<Rightarrow> (tree_ref \<times> tree_ref) act" where
  "ref_sides rows m r level =
     (case r of
        RefEmpty \<Rightarrow> act_panic UnreachableCode
      | RefLeaf key _ \<Rightarrow> act_return (if level_bit key level then (RefEmpty, r) else (r, RefEmpty))
      | RefBranch node_level node_prefix _ \<Rightarrow>
          if level < unat node_level then
            act_return (if level_bit node_prefix level then (RefEmpty, r) else (r, RefEmpty))
          else read_node rows m node_level node_prefix)"

partial_function (option) collect_frontier ::
  "blake2b \<Rightarrow> keyspace \<Rightarrow> committed_map \<Rightarrow> smt_params \<Rightarrow> hash32 list \<Rightarrow> byte list list \<Rightarrow>
     (tree_ref \<times> nat \<times> byte list \<times> nat \<times> nat) list \<Rightarrow> frontier_node list \<Rightarrow> dispatch_state \<Rightarrow>
     (storage_panic + frontier_node list \<times> dispatch_state) option" where
  [code]: "collect_frontier B rows m p chain touched work out s =
     (case work of
        [] \<Rightarrow> Some (Inr (out, s))
      | (r, level, prefix, start, stop) # work' \<Rightarrow>
          if start = stop then
            collect_frontier B rows m p chain touched work'
              (if r = RefEmpty then out
               else out @ [\<lparr>fn_level = of_nat level, fn_prefix = prefix,
                 fn_hash = ref_subtree_hash B p chain r level\<rparr>]) s
          else if r = RefEmpty \<or> smt_depth p = level then
            collect_frontier B rows m p chain touched work' out s
          else
            (case ref_sides rows m r level s of
               Inl e \<Rightarrow> Some (Inl e)
             | Inr ((left_ref, right_ref), s1) \<Rightarrow>
                 (let split = start + partition_point (\<lambda>k. \<not> level_bit k level) (take (stop - start) (drop start touched));
                      prefix_r = set_level_bit prefix level
                  in collect_frontier B rows m p chain touched
                       ((left_ref, level + 1, prefix, start, split) # (right_ref, level + 1, prefix_r, split, stop) # work')
                       out s1)))"

fun load_values :: "keyspace \<Rightarrow> committed_map \<Rightarrow> byte list list \<Rightarrow> (byte list \<times> byte list option) list act" where
  "load_values rows m [] = act_return []"
| "load_values rows m (kb # kbs) =
     act_bind (value_row m kb) (\<lambda>row.
     act_bind (overlay_load rows row) (\<lambda>loaded.
     act_bind (load_values rows m kbs) (\<lambda>rest. act_return ((kb, loaded) # rest))))"

definition cm_batch_proof ::
  "blake2b \<Rightarrow> keyspace \<Rightarrow> committed_map \<Rightarrow> byte list list \<Rightarrow> dispatch_state \<Rightarrow>
     (storage_panic + (batch_proof \<times> (byte list \<times> byte list option) list) \<times> dispatch_state) option" where
  "cm_batch_proof B rows m touched s =
     (let p = cm_params m;
          chain = empty_chain B p;
          keys = remdups_adj (sort touched)
      in case act_bind (load_values rows m keys) (\<lambda>vals. act_bind (read_root rows m) (\<lambda>(_, _, tip). act_return (vals, tip))) s of
           Inl e \<Rightarrow> Some (Inl e)
         | Inr ((vals, tip), s1) \<Rightarrow>
             (case collect_frontier B rows m p chain keys [(tip, 0, replicate (width p) 0, 0, length keys)] [] s1 of
                None \<Rightarrow> None
              | Some (Inl e) \<Rightarrow> Some (Inl e)
              | Some (Inr (frontier, s2)) \<Rightarrow> Some (Inr ((from_frontier frontier, vals), s2))))"

end
