(* ===== verification/Committed_Bits.thy ===== *)
theory Committed_Bits
  imports Committed_Map
begin

text \<open>
  The encodings and the key arithmetic of the committed map: a reference and a node row are read
  back as written; \<open>first_diff_level\<close>, \<open>diverge_before\<close> and \<open>prefix_of\<close> compute, on
  bytes, the first differing bit and the padded prefix of the bit lists.
\<close>

section \<open>Rows\<close>

lemma from_to_be_bytes: "v < 256 ^ n \<Longrightarrow> from_be_bytes (to_be_bytes n v) = v"
  by (simp add: from_be_bytes_def to_be_bytes_def from_to_le_bytes)

lemma length_to_be_bytes [simp]: "length (to_be_bytes n v) = n"
  by (simp add: to_be_bytes_def)

lemma digest32_of_bytes [simp]: "digest32_of (digest32_bytes h) = h"
  using from_digest32 [of h] by (simp add: digest32_of_def from_be_bytes_def)

lemma byte_slice_append: "byte_slice (a @ b @ c) (length a) (length b) = Inr b"
  by (simp add: byte_slice_def)

lemma byte_slice_at: "n = length a \<Longrightarrow> l = length b \<Longrightarrow> byte_slice (a @ b @ c) n l = Inr b"
  by (simp add: byte_slice_def)

fun ref_ok :: "nat \<Rightarrow> tree_ref \<Rightarrow> bool" where
  "ref_ok w RefEmpty = True"
| "ref_ok w (RefLeaf key hash) = (length key = w)"
| "ref_ok w (RefBranch level prefix hash) = (length prefix = w)"

lemma level_bytes: "of_nat (from_be_bytes (to_be_bytes 2 (unat level))) = (level :: 16 word)"
proof -
  have "unat level < 256 ^ 2" using unsigned_less [of level] by simp
  then show ?thesis by (simp only: from_to_be_bytes) simp
qed

lemma ref_decode_encode:
  assumes "ref_ok w r"
  shows "ref_decode_from (pre @ ref_encode r @ post) w (length pre) = Inr (r, length pre + length (ref_encode r))"
proof (cases r)
  case RefEmpty
  have "byte_slice (pre @ [0] @ post) (length pre) 1 = Inr [0]" by (rule byte_slice_at) simp_all
  then show ?thesis using RefEmpty by (simp add: ref_decode_from_def)
next
  case (RefLeaf key hash)
  let ?b = "pre @ ref_encode r @ post"
  have "byte_slice ?b (length pre) 1 = Inr [1]"
    using byte_slice_at [of _ pre _ "[1]" "key @ digest32_bytes hash @ post"] RefLeaf by simp
  moreover have "byte_slice ?b (length pre + 1) w = Inr key"
    using byte_slice_at [of _ "pre @ [1]" _ key "digest32_bytes hash @ post"] RefLeaf assms by simp
  moreover have "byte_slice ?b (length pre + 1 + w) 32 = Inr (digest32_bytes hash)"
    using byte_slice_at [of _ "pre @ [1] @ key" _ "digest32_bytes hash" post] RefLeaf assms by simp
  ultimately show ?thesis
    unfolding ref_decode_from_def using RefLeaf assms by simp
next
  case (RefBranch level prefix hash)
  let ?b = "pre @ ref_encode r @ post" and ?l = "to_be_bytes 2 (unat level)"
  have "byte_slice ?b (length pre) 1 = Inr [2]"
    using byte_slice_at [of _ pre _ "[2]" "?l @ prefix @ digest32_bytes hash @ post"] RefBranch by simp
  moreover have "byte_slice ?b (length pre + 1) 2 = Inr ?l"
    using byte_slice_at [of _ "pre @ [2]" _ ?l "prefix @ digest32_bytes hash @ post"] RefBranch by simp
  moreover have "byte_slice ?b (length pre + 1 + 2) w = Inr prefix"
    using byte_slice_at [of "length pre + 1 + 2" "pre @ [2] @ ?l" _ prefix "digest32_bytes hash @ post"] RefBranch assms by simp
  moreover have "byte_slice ?b (length pre + 1 + 2 + w) 32 = Inr (digest32_bytes hash)"
    using byte_slice_at [of "length pre + 1 + 2 + w" "pre @ [2] @ ?l @ prefix" _ "digest32_bytes hash" post] RefBranch assms by simp
  ultimately show ?thesis
    unfolding ref_decode_from_def using RefBranch assms by (simp add: level_bytes)
qed

lemma decode_refs_encode:
  assumes "ref_ok w l" and "ref_ok w r"
  shows "decode_refs (ref_encode l @ ref_encode r) w s = Inr ((l, r), s)"
  using ref_decode_encode [OF assms(1), of "[]" "ref_encode r"] ref_decode_encode [OF assms(2), of "ref_encode l" "[]"]
  by (simp add: decode_refs_def)

lemma decode_root_encode:
  assumes "ref_ok w r"
  shows "decode_root (to_le_bytes 8 (unat count) @ digest32_bytes h @ ref_encode r) w s = Inr ((count, Some h, r), s)"
proof -
  let ?c = "to_le_bytes 8 (unat count)"
  have "byte_slice (?c @ digest32_bytes h @ ref_encode r) 0 8 = Inr ?c"
    using byte_slice_at [of _ "[]" _ ?c "digest32_bytes h @ ref_encode r"] by (simp del: to_le_bytes.simps)
  moreover have "byte_slice (?c @ digest32_bytes h @ ref_encode r) 8 32 = Inr (digest32_bytes h)"
    using byte_slice_at [of _ ?c _ "digest32_bytes h" "ref_encode r"] by (simp del: to_le_bytes.simps)
  moreover have "ref_decode_from (?c @ digest32_bytes h @ ref_encode r) w 40 = Inr (r, 40 + length (ref_encode r))"
    using ref_decode_encode [OF assms, of "?c @ digest32_bytes h" "[]"] by (simp del: to_le_bytes.simps)
  moreover have "of_nat (from_le_bytes ?c) = count"
  proof -
    have "unat count < 256 ^ 8" using unsigned_less [of count] by simp
    then show ?thesis by (simp only: from_to_le_bytes) simp
  qed
  ultimately show ?thesis by (simp add: decode_root_def del: to_le_bytes.simps)
qed

section \<open>First differing bit\<close>

definition common :: "bool list \<Rightarrow> bool list \<Rightarrow> nat" where
  "common xs ys = length (takeWhile (\<lambda>x. \<not> x) (map2 (\<noteq>) xs ys))"

lemma common_Cons [simp]: "common (x # xs) (y # ys) = (if x = y then Suc (common xs ys) else 0)"
  by (simp add: common_def)

lemma first_difference:
  "length xs = length ys \<Longrightarrow> xs \<noteq> ys \<Longrightarrow>
     common xs ys < length xs \<and> take (common xs ys) xs = take (common xs ys) ys \<and> xs ! common xs ys \<noteq> ys ! common xs ys"
  by (induction xs ys rule: list_induct2) auto

lemma byte_bits_xor: "byte_bits (x XOR y) = map2 (\<noteq>) (byte_bits x) (byte_bits y)"
  by (rule nth_equalityI) (simp_all add: nth_byte_bits bit_xor_iff)

lemma first_diff_from_bits:
  assumes "length a = length b" and "a \<noteq> b"
  shows "\<exists>d. first_diff_from i (zip a b) = Some (i * 8 + d) \<and> d < 8 * length a \<and>
    take d (key_bits a) = take d (key_bits b) \<and> key_bits a ! d \<noteq> key_bits b ! d"
  using assms
proof (induction a b arbitrary: i rule: list_induct2)
  case (Cons x a y b)
  show ?case
  proof (cases "x = y")
    case True
    then obtain d where d: "first_diff_from (i + 1) (zip a b) = Some ((i + 1) * 8 + d)" "d < 8 * length a"
        "take d (key_bits a) = take d (key_bits b)" "key_bits a ! d \<noteq> key_bits b ! d"
      using Cons.IH [of "i + 1"] Cons.prems by blast
    then show ?thesis using True by (intro exI [of _ "8 + d"]) (simp add: nth_append)
  next
    case False
    define d where "d = leading_zeros (x XOR y)"
    have "byte_bits x \<noteq> byte_bits y" using False byte_bits_inj by blast
    then have d: "d < 8" "take d (byte_bits x) = take d (byte_bits y)" "byte_bits x ! d \<noteq> byte_bits y ! d"
      using first_difference [of "byte_bits x" "byte_bits y"]
      by (simp_all add: d_def leading_zeros_def byte_bits_xor common_def)
    then show ?thesis using False by (intro exI [of _ d]) (simp add: nth_append d_def)
  qed
qed simp

lemma first_diff_level_bits:
  assumes "length a = length b" and "a \<noteq> b"
  obtains d where "first_diff_level a b = Some d" and "d < 8 * length a"
    and "take d (key_bits a) = take d (key_bits b)" and "key_bits a ! d \<noteq> key_bits b ! d"
  using first_diff_from_bits [OF assms, of 0] by (auto simp: first_diff_level_def)

lemma diverge_before_None:
  assumes "length k = length q" and "limit \<le> 8 * length k"
  shows "diverge_before k q limit = None \<longleftrightarrow> take limit (key_bits k) = take limit (key_bits q)"
proof -
  have "diverge_before k q limit = None \<longleftrightarrow> (\<forall>l < limit. level_bit k l = level_bit q l)"
    by (auto simp: diverge_before_def find_None_iff)
  also have "\<dots> \<longleftrightarrow> take limit (key_bits k) = take limit (key_bits q)"
    using assms by (auto simp: list_eq_iff_nth_eq nth_key_bits)
  finally show ?thesis .
qed

lemma diverge_before_Some:
  assumes "diverge_before k q limit = Some d" and "length k = length q" and "limit \<le> 8 * length k"
  shows "d < limit" and "take d (key_bits k) = take d (key_bits q)" and "key_bits k ! d \<noteq> key_bits q ! d"
proof -
  obtain i where i: "i < limit" "d = i" "level_bit k d \<noteq> level_bit q d" "\<forall>j < i. level_bit k j = level_bit q j"
    using assms(1) by (auto simp: diverge_before_def find_Some_iff)
  then show "d < limit" and "take d (key_bits k) = take d (key_bits q)" and "key_bits k ! d \<noteq> key_bits q ! d"
    using assms(2,3) by (auto simp: list_eq_iff_nth_eq nth_key_bits)
qed

section \<open>Prefixes\<close>

lemma bit_low_mask: "bit (drop_bit r 255 :: byte) i \<longleftrightarrow> i + r < 8"
proof -
  have "(255 :: byte) = mask 8" by (simp add: mask_eq_exp_minus_1)
  then show ?thesis unfolding bit_drop_bit_eq by (simp only: comp_def bit_mask_iff) auto
qed

lemma length_prefix_of [simp]: "level \<le> 8 * length key \<Longrightarrow> length (prefix_of key level) = length key"
  by (auto simp: prefix_of_def Let_def)

lemma level_bit_prefix_of:
  assumes "level \<le> 8 * length key" and "m < 8 * length key"
  shows "level_bit (prefix_of key level) m \<longleftrightarrow> m < level \<and> level_bit key m"
proof -
  let ?full = "level div 8" and ?i = "m div 8"
  have len: "?i < length key" using assms(2) by simp
  consider "?i < ?full" | "?i = ?full" | "?full < ?i" by linarith
  then show ?thesis
  proof cases
    case 1
    then have "m < level" by (metis div_le_mono linorder_not_less)
    then show ?thesis using 1 len by (auto simp: prefix_of_def Let_def level_bit_iff nth_append nth_list_update)
  next
    case 2
    then have m: "m < level \<longleftrightarrow> m mod 8 < level mod 8"
      by (metis div_mult_mod_eq nat_add_left_cancel_less)
    have "7 - m mod 8 + level mod 8 < 8 \<longleftrightarrow> \<not> m mod 8 < level mod 8" by (auto simp: less_Suc_eq_le)
    moreover have "7 - m mod 8 < 8" by simp
    ultimately show ?thesis
      using 2 len m by (auto simp: prefix_of_def Let_def level_bit_iff nth_append bit_and_iff bit_not_iff bit_low_mask)
  next
    case 3
    then have "\<not> m < level" by (metis div_le_mono leD less_imp_le_nat)
    then show ?thesis using 3 len by (auto simp: prefix_of_def Let_def level_bit_iff nth_append nth_list_update)
  qed
qed

lemma pads_prefix_of:
  assumes "level \<le> 8 * length key"
  shows "pads (length key) (take level (key_bits key)) (prefix_of key level)"
proof -
  have "key_bits (prefix_of key level) = take level (key_bits key) @ replicate (8 * length key - level) False"
    using assms by (intro nth_equalityI) (auto simp: nth_key_bits level_bit_prefix_of nth_append)
  then show ?thesis using assms by (simp add: pads_def min_def)
qed

end
