(* ===== verification/Committed_Tree.thy ===== *)
theory Committed_Tree
  imports Committed_Bits
begin

text \<open>
  The radix tree that the rows of a committed map spell out, as a pure data structure: a tip is a
  leaf, a fork a branching point with the bits its keys share. Insertion and deletion are what
  \<open>update_tree\<close> does, without rows; the leaves of the result are those of the sorted map, and a
  well-formed tree is determined by its leaves.
\<close>

section \<open>Trees\<close>

datatype ptree = Tip "byte list" hash32 | Fork "bool list" ptree ptree

fun leaves :: "ptree \<Rightarrow> (byte list, hash32) btree" where
  "leaves (Tip k h) = [(k, h)]"
| "leaves (Fork f l r) = leaves l @ leaves r"

fun pwf :: "nat \<Rightarrow> bool list \<Rightarrow> ptree \<Rightarrow> bool" where
  "pwf w c (Tip k h) = in_cell w c k"
| "pwf w c (Fork f l r) =
     (length c \<le> length f \<and> take (length c) f = c \<and> length f < 8 * w \<and> pwf w (f @ [False]) l \<and> pwf w (f @ [True]) r)"

definition branch_at :: "byte list \<Rightarrow> hash32 \<Rightarrow> ptree \<Rightarrow> nat \<Rightarrow> ptree" where
  "branch_at k h t d =
     (if key_bits k ! d then Fork (take d (key_bits k)) t (Tip k h) else Fork (take d (key_bits k)) (Tip k h) t)"

fun pinsert :: "byte list \<Rightarrow> hash32 \<Rightarrow> ptree \<Rightarrow> ptree" where
  "pinsert k h (Tip k2 h2) =
     (if k2 = k then Tip k h else branch_at k h (Tip k2 h2) (common (key_bits k) (key_bits k2)))"
| "pinsert k h (Fork f l r) =
     (if common (key_bits k) f < length f then branch_at k h (Fork f l r) (common (key_bits k) f)
      else if key_bits k ! length f then Fork f l (pinsert k h r) else Fork f (pinsert k h l) r)"

fun pdelete :: "byte list \<Rightarrow> ptree \<Rightarrow> ptree option" where
  "pdelete k (Tip k2 h2) = (if k2 = k then None else Some (Tip k2 h2))"
| "pdelete k (Fork f l r) =
     (if key_bits k ! length f
      then (case pdelete k r of None \<Rightarrow> Some l | Some r' \<Rightarrow> Some (Fork f l r'))
      else (case pdelete k l of None \<Rightarrow> Some r | Some l' \<Rightarrow> Some (Fork f l' r)))"

lemma leaves_not_Nil [simp]: "leaves t \<noteq> []"
  by (induction t) simp_all

section \<open>Cells\<close>

lemma in_cell_take: "in_cell w f k \<Longrightarrow> length c \<le> length f \<Longrightarrow> take (length c) f = c \<Longrightarrow> in_cell w c k"
  unfolding in_cell_def by (metis le_trans min.absorb1 take_take)

lemma in_cell_le: "in_cell w c k \<Longrightarrow> length c \<le> 8 * w"
  by (simp add: in_cell_def)

lemma cell_less:
  assumes "in_cell w (f @ [False]) a" and "in_cell w (f @ [True]) b"
  shows "a < b"
proof -
  obtain x y where xy: "key_bits a = (f @ [False]) @ x" "key_bits b = (f @ [True]) @ y"
    using in_cell_bits assms by blast
  have "key_bits a < key_bits b" unfolding xy by (rule append_less) (simp_all add: append_less_same)
  moreover have "length a = length b" using assms by (simp add: in_cell_def)
  ultimately show ?thesis using key_bits_mono [of b a] by (metis linorder_neqE order_less_asym)
qed

lemma pwf_below: "pwf w c t \<Longrightarrow> below w c (map fst (leaves t))"
proof (induction t arbitrary: c)
  case (Tip k h)
  then show ?case by (simp add: below_def)
next
  case (Fork f l r)
  have l: "below w (f @ [False]) (map fst (leaves l))" and r: "below w (f @ [True]) (map fst (leaves r))"
    using Fork by simp_all
  have "in_cell w c k" if "k \<in> set (map fst (leaves (Fork f l r)))" for k
  proof -
    have "in_cell w (f @ [False]) k \<or> in_cell w (f @ [True]) k" using that l r by (auto simp: below_def)
    then show ?thesis using Fork.prems by (auto intro: in_cell_take)
  qed
  then show ?case using l r cell_less by (fastforce simp: below_def sorted_wrt_append)
qed

lemma pwf_leaves_wf: "pwf w c t \<Longrightarrow> bt_wf (leaves t)"
  using pwf_below by (auto simp: below_def bt_wf_def)

lemma pwf_in_cell: "pwf w c t \<Longrightarrow> k \<in> fst ` set (leaves t) \<Longrightarrow> in_cell w c k"
  using pwf_below by (fastforce simp: below_def)

lemma bt_get_append: "bt_get (a @ b) k = (case bt_get a k of Some v \<Rightarrow> Some v | None \<Rightarrow> bt_get b k)"
  by (simp add: bt_get_def map_add_def split: option.splits)

lemma pwf_get_None: "pwf w c t \<Longrightarrow> \<not> in_cell w c k \<Longrightarrow> bt_get (leaves t) k = None"
  using pwf_in_cell [of w c t k] by (metis bt_get_None_iff)

lemma pwf_down:
  assumes "pwf w f t" and "length c \<le> length f" and "take (length c) f = c"
  shows "pwf w c t"
proof (cases t)
  case (Tip k h)
  then show ?thesis using assms in_cell_take by simp
next
  case (Fork g l r)
  have "take (length c) g = c" using assms Fork by (metis min.absorb1 pwf.simps(2) take_take)
  then show ?thesis using assms Fork by simp
qed

section \<open>First difference\<close>

lemma common_le: "common xs f \<le> length f"
proof -
  have "length (takeWhile P zs) \<le> length zs" for P and zs :: "bool list" by (rule length_takeWhile_le)
  then show ?thesis unfolding common_def by (rule order_trans) simp
qed

lemma common_take: "take (common xs f) xs = take (common xs f) f"
proof (induction f arbitrary: xs)
  case (Cons b f)
  then show ?case by (cases xs) (simp_all add: common_def)
qed (simp add: common_def)

lemma common_diff: "common xs f < length f \<Longrightarrow> length f \<le> length xs \<Longrightarrow> xs ! common xs f \<noteq> f ! common xs f"
proof (induction f arbitrary: xs)
  case (Cons b f)
  then show ?case by (cases xs) auto
qed simp

lemma common_full: "\<not> common xs f < length f \<Longrightarrow> take (length f) xs = f"
  using common_take [of xs f] common_le [of xs f] by simp

section \<open>Insertion\<close>

lemma in_cell_at:
  assumes "length k = w" and "d < 8 * w"
  shows "in_cell w (take d (key_bits k) @ [key_bits k ! d]) k"
  using assms by (simp add: in_cell_def take_Suc_conv_app_nth)

lemma branch_at_wf:
  assumes k: "in_cell w c k" and t: "pwf w (take d (key_bits k) @ [\<not> key_bits k ! d]) t"
    and d: "length c \<le> d" "d < 8 * w"
  shows "pwf w c (branch_at k h t d)"
proof -
  have len: "length (take d (key_bits k)) = d" using k d by (simp add: in_cell_def)
  have c: "take (length c) (take d (key_bits k)) = c" using k d by (simp add: in_cell_def min_def)
  have "in_cell w (take d (key_bits k) @ [key_bits k ! d]) k" using k d by (intro in_cell_at) (simp_all add: in_cell_def)
  then show ?thesis using t c len d by (cases "key_bits k ! d") (simp_all add: branch_at_def del: length_take)
qed

lemma branch_at_get:
  assumes "bt_get (leaves t) k = None"
  shows "bt_get (leaves (branch_at k h t d)) = (bt_get (leaves t))(k \<mapsto> h)"
  using assms by (auto simp: branch_at_def bt_get_append bt_get_Cons fun_eq_iff split: option.splits)

lemma tip_apart:
  assumes "length k = length k2" and "k \<noteq> k2"
  defines "d \<equiv> common (key_bits k) (key_bits k2)"
  shows "d < 8 * length k" and "in_cell (length k) (take d (key_bits k) @ [\<not> key_bits k ! d]) k2"
proof -
  have ne: "key_bits k \<noteq> key_bits k2" using assms(2) by simp
  then have d: "d < 8 * length k" "take d (key_bits k) = take d (key_bits k2)" "key_bits k ! d \<noteq> key_bits k2 ! d"
    using first_difference [of "key_bits k" "key_bits k2"] assms(1) by (simp_all add: d_def)
  have "(\<not> key_bits k ! d) = key_bits k2 ! d" using d(3) by auto
  then show "d < 8 * length k" and "in_cell (length k) (take d (key_bits k) @ [\<not> key_bits k ! d]) k2"
    using d in_cell_at [of k2 "length k" d] assms(1) by simp_all
qed

lemma fork_apart:
  assumes "length f < 8 * length k" and "pwf (length k) f t" and "common (key_bits k) f < length f"
  defines "d \<equiv> common (key_bits k) f"
  shows "pwf (length k) (take d (key_bits k) @ [\<not> key_bits k ! d]) t"
    and "bt_get (leaves t) k = None"
proof -
  have d: "take d (key_bits k) = take d f" "key_bits k ! d \<noteq> f ! d"
    using common_take [of "key_bits k" f] common_diff [of "key_bits k" f] assms by (simp_all add: d_def)
  have "(\<not> key_bits k ! d) = f ! d" using d(2) by auto
  then have eq: "take d (key_bits k) @ [\<not> key_bits k ! d] = take (Suc d) f"
    using d(1) assms(3) by (simp add: d_def take_Suc_conv_app_nth)
  then show "pwf (length k) (take d (key_bits k) @ [\<not> key_bits k ! d]) t"
    unfolding eq using assms(3) by (intro pwf_down [OF assms(2)]) (simp_all add: d_def min_def)
  have "\<not> in_cell (length k) f k"
    using d(2) assms(3) nth_take [of d "length f" "key_bits k"] unfolding in_cell_def d_def by metis
  then show "bt_get (leaves t) k = None" by (rule pwf_get_None [OF assms(2)])
qed

lemma pwf_self: "pwf w c (Fork f l r) \<Longrightarrow> pwf w f (Fork f l r)"
  by simp

lemma pinsert_wf:
  "pwf (length k) c t \<Longrightarrow> in_cell (length k) c k \<Longrightarrow>
     pwf (length k) c (pinsert k h t) \<and> bt_get (leaves (pinsert k h t)) = (bt_get (leaves t))(k \<mapsto> h)"
proof (induction t arbitrary: c)
  case (Tip k2 h2)
  show ?case
  proof (cases "k2 = k")
    case True
    then show ?thesis using Tip by (simp add: bt_get_Cons fun_eq_iff)
  next
    case False
    let ?d = "common (key_bits k) (key_bits k2)"
    have len: "length k = length k2" using Tip by (simp add: in_cell_def)
    note ap = tip_apart [OF len False [symmetric]]
    have "take (length c) (key_bits k) = take (length c) (key_bits k2)" using Tip by (simp add: in_cell_def)
    then have "length c \<le> ?d"
      using first_difference [of "key_bits k" "key_bits k2"] False len Tip(2)
      by (metis in_cell_le key_bits_eq_iff length_key_bits linorder_not_less nth_take)
    moreover have "bt_get (leaves (Tip k2 h2)) k = None" using False by (simp add: bt_get_Cons)
    ultimately show ?thesis
      using branch_at_wf [OF Tip(2), of ?d "Tip k2 h2" h] ap branch_at_get [of "Tip k2 h2" k h ?d] False
      by simp
  qed
next
  case (Fork f l r)
  have len: "length f < 8 * length k" "length c \<le> length f" "take (length c) f = c" using Fork.prems by simp_all
  let ?d = "common (key_bits k) f"
  show ?case
  proof (cases "?d < length f")
    case True
    note ap = fork_apart [OF len(1) pwf_self [OF Fork.prems(1)] True]
    have "length c \<le> ?d"
      using common_diff [OF True] len Fork.prems(2)
      by (metis in_cell_def length_key_bits less_imp_le linorder_not_less nth_take)
    then show ?thesis
      using branch_at_wf [OF Fork.prems(2) ap(1)] branch_at_get [OF ap(2)] True len by simp
  next
    case False
    have f: "take (length f) (key_bits k) = f" by (rule common_full [OF False])
    have cell: "in_cell (length k) (f @ [key_bits k ! length f]) k"
      using in_cell_at [of k "length k" "length f"] len(1) f by simp
    have other: "\<not> in_cell (length k) (f @ [\<not> key_bits k ! length f]) k"
      using len(1) by (simp add: in_cell_snoc nth_key_bits)
    show ?thesis
    proof (cases "key_bits k ! length f")
      case True
      have "bt_get (leaves l) k = None"
        using pwf_get_None [of "length k" "f @ [False]" l k] Fork.prems(1) other True by simp
      then show ?thesis
        using Fork.IH(2) [of "f @ [True]"] Fork.prems cell True False
        by (auto simp: bt_get_append fun_eq_iff split: option.splits)
    next
      case False
      then show ?thesis
        using Fork.IH(1) [of "f @ [False]"] Fork.prems cell \<open>\<not> ?d < length f\<close>
        by (auto simp: bt_get_append fun_eq_iff)
    qed
  qed
qed

lemma leaves_pinsert:
  assumes "pwf (length k) c t" and "in_cell (length k) c k"
  shows "leaves (pinsert k h t) = bt_insert k h (leaves t)"
  using pinsert_wf [OF assms, of h] pwf_leaves_wf assms(1)
  by (intro bt_wf_ext) (auto simp: fun_eq_iff)

section \<open>Deletion\<close>

lemma fork_side:
  assumes "pwf w c (Fork f l r)" and "bt_get (leaves (Fork f l r)) k \<noteq> None"
  shows "length k = w" and "take (length f) (key_bits k) = f"
    and "key_bits k ! length f \<Longrightarrow> bt_get (leaves l) k = None \<and> bt_get (leaves r) k \<noteq> None"
    and "\<not> key_bits k ! length f \<Longrightarrow> bt_get (leaves r) k = None \<and> bt_get (leaves l) k \<noteq> None"
proof -
  have "k \<in> fst ` set (leaves (Fork f l r))" using assms(2) by (metis bt_get_None_iff)
  then have cell: "in_cell w f k" using pwf_in_cell [OF pwf_self [OF assms(1)]] by blast
  then show w: "length k = w" and "take (length f) (key_bits k) = f" by (simp_all add: in_cell_def)
  have f: "length f < 8 * w" "pwf w (f @ [False]) l" "pwf w (f @ [True]) r" using assms(1) by simp_all
  have snoc: "in_cell w (f @ [b]) k \<longleftrightarrow> key_bits k ! length f = b" for b
    using in_cell_snoc [OF f(1)] cell nth_key_bits [of "length f" k] f(1) w by simp
  show "key_bits k ! length f \<Longrightarrow> bt_get (leaves l) k = None \<and> bt_get (leaves r) k \<noteq> None"
    using pwf_get_None [OF f(2), of k] assms(2) snoc by (simp add: bt_get_append)
  show "\<not> key_bits k ! length f \<Longrightarrow> bt_get (leaves r) k = None \<and> bt_get (leaves l) k \<noteq> None"
    using pwf_get_None [OF f(3), of k] assms(2) snoc by (simp add: bt_get_append split: option.splits)
qed

lemma pdelete_wf:
  "pwf w c t \<Longrightarrow> bt_get (leaves t) k \<noteq> None \<Longrightarrow>
     (case pdelete k t of
        None \<Rightarrow> \<exists>h. t = Tip k h
      | Some t' \<Rightarrow> pwf w c t' \<and> bt_get (leaves t') = (bt_get (leaves t))(k := None))"
proof (induction t arbitrary: c)
  case (Tip k2 h2)
  then show ?case by (simp add: bt_get_Cons split: if_splits)
next
  case (Fork f l r)
  note side = fork_side [OF Fork.prems]
  have wf: "length c \<le> length f" "take (length c) f = c" "pwf w (f @ [False]) l" "pwf w (f @ [True]) r"
    using Fork.prems(1) by simp_all
  have down: "pwf w c l" "pwf w c r"
    using pwf_down [OF wf(3), of c] pwf_down [OF wf(4), of c] wf by simp_all
  show ?case
  proof (cases "key_bits k ! length f")
    case True
    then show ?thesis
      using side(3) Fork.IH(2) [OF wf(4)] Fork.prems(1) down
      by (cases "pdelete k r")
         (auto simp: bt_get_append bt_get_Cons fun_eq_iff split: option.splits)
  next
    case False
    then show ?thesis
      using side(4) Fork.IH(1) [OF wf(3)] Fork.prems(1) down
      by (cases "pdelete k l")
         (auto simp: bt_get_append bt_get_Cons fun_eq_iff split: option.splits)
  qed
qed

lemma leaves_pdelete:
  assumes "pwf w c t" and "bt_get (leaves t) k \<noteq> None"
  shows "(case pdelete k t of None \<Rightarrow> [] | Some t' \<Rightarrow> leaves t') = bt_remove k (leaves t)"
proof (cases "pdelete k t")
  case None
  then show ?thesis using pdelete_wf [OF assms] by (auto simp: bt_remove_def)
next
  case (Some t')
  then have "pwf w c t'" "bt_get (leaves t') = (bt_get (leaves t))(k := None)" using pdelete_wf [OF assms] by simp_all
  then show ?thesis
    using Some pwf_leaves_wf assms(1) by (simp, intro bt_wf_ext) (auto simp: fun_eq_iff)
qed

section \<open>One tree per set of leaves\<close>

lemma fork_keys_split:
  assumes "pwf w c (Fork f l r)" and "(k, h) \<in> set (leaves (Fork f l r))"
  shows "take (length f) (key_bits k) = f"
    and "(k, h) \<in> set (leaves l) \<longleftrightarrow> \<not> level_bit k (length f)" and "(k, h) \<in> set (leaves r) \<longleftrightarrow> level_bit k (length f)"
proof -
  have f: "length f < 8 * w" "pwf w (f @ [False]) l" "pwf w (f @ [True]) r" using assms(1) by simp_all
  have l: "in_cell w f k \<and> \<not> level_bit k (length f)" if "(k, h) \<in> set (leaves l)"
  proof -
    have "k \<in> fst ` set (leaves l)" using that by (metis fst_conv image_eqI)
    then show ?thesis using pwf_in_cell [OF f(2)] in_cell_snoc [OF f(1)] by simp
  qed
  have r: "in_cell w f k \<and> level_bit k (length f)" if "(k, h) \<in> set (leaves r)"
  proof -
    have "k \<in> fst ` set (leaves r)" using that by (metis fst_conv image_eqI)
    then show ?thesis using pwf_in_cell [OF f(3)] in_cell_snoc [OF f(1)] by simp
  qed
  have lr: "(k, h) \<in> set (leaves l) \<or> (k, h) \<in> set (leaves r)" using assms(2) by simp
  show "take (length f) (key_bits k) = f" using lr l r unfolding in_cell_def by blast
  show "(k, h) \<in> set (leaves l) \<longleftrightarrow> \<not> level_bit k (length f)" using lr l r by blast
  show "(k, h) \<in> set (leaves r) \<longleftrightarrow> level_bit k (length f)" using lr l r by blast
qed

lemma fork_leaves_filter:
  assumes "pwf w c (Fork f l r)"
  shows "leaves l = filter (\<lambda>x. \<not> level_bit (fst x) (length f)) (leaves (Fork f l r))"
    and "leaves r = filter (\<lambda>x. level_bit (fst x) (length f)) (leaves (Fork f l r))"
proof -
  have side: "x \<in> set (leaves l) \<Longrightarrow> \<not> level_bit (fst x) (length f)" "x \<in> set (leaves r) \<Longrightarrow> level_bit (fst x) (length f)" for x
    using fork_keys_split(2,3) [OF assms, of "fst x" "snd x"] by auto
  have "filter (\<lambda>x. \<not> level_bit (fst x) (length f)) (leaves l) = leaves l"
    and "filter (\<lambda>x. level_bit (fst x) (length f)) (leaves r) = leaves r"
    and "filter (\<lambda>x. \<not> level_bit (fst x) (length f)) (leaves r) = []"
    and "filter (\<lambda>x. level_bit (fst x) (length f)) (leaves l) = []"
    using side unfolding filter_id_conv filter_empty_conv by blast+
  then show "leaves l = filter (\<lambda>x. \<not> level_bit (fst x) (length f)) (leaves (Fork f l r))"
    and "leaves r = filter (\<lambda>x. level_bit (fst x) (length f)) (leaves (Fork f l r))" by simp_all
qed

lemma fork_not_single: "length (leaves (Fork f l r)) \<noteq> 1"
  by (cases "leaves l"; cases "leaves r") auto

lemma fork_bits:
  assumes "pwf w c (Fork f l r)" and "pwf w c' (Fork f' l' r')" and "leaves (Fork f l r) = leaves (Fork f' l' r')"
    and "length f \<le> length f'"
  shows "f = f'"
proof (rule ccontr)
  assume ne: "f \<noteq> f'"
  obtain a b where a: "a \<in> set (leaves l)" and b: "b \<in> set (leaves r)"
    using leaves_not_Nil by (metis last_in_set)
  have ab: "(fst a, snd a) \<in> set (leaves (Fork f l r))" "(fst b, snd b) \<in> set (leaves (Fork f l r))" using a b by simp_all
  note s = fork_keys_split [OF assms(1) ab(1)] fork_keys_split [OF assms(1) ab(2)]
  note s' = fork_keys_split(1) [OF assms(2) ab(1) [unfolded assms(3)]] fork_keys_split(1) [OF assms(2) ab(2) [unfolded assms(3)]]
  have "length f \<noteq> length f'" using s(1) s'(1) ne by metis
  then have lt: "length f < length f'" using assms(4) by simp
  have w: "length f < 8 * w" "length (fst a) = w" "length (fst b) = w"
    using assms(1) pwf_in_cell [OF assms(1)] ab by (force simp: in_cell_def)+
  have "key_bits (fst a) ! length f = f' ! length f" "key_bits (fst b) ! length f = f' ! length f"
    using s' lt by (metis nth_take)+
  then show False using s(2,6) a b w by (simp add: nth_key_bits)
qed

theorem leaves_determine_tree:
  "pwf w c t \<Longrightarrow> pwf w c' t' \<Longrightarrow> leaves t = leaves t' \<Longrightarrow> t = t'"
proof (induction t arbitrary: c c' t')
  case (Tip k h)
  show ?case
  proof (cases t')
    case (Fork f' l' r')
    have "length (leaves t') = 1" unfolding Tip.prems(3) [symmetric] by simp
    then show ?thesis unfolding Fork using fork_not_single by blast
  next
    case (Tip k' h')
    then show ?thesis using \<open>leaves (ptree.Tip k h) = leaves t'\<close> by simp
  qed
next
  case (Fork f l r)
  show ?case
  proof (cases t')
    case (Tip k' h')
    have "length (leaves (Fork f l r)) = 1" unfolding Fork.prems(3) Tip by simp
    then show ?thesis using fork_not_single by blast
  next
    case F': (Fork f' l' r')
    note wf = Fork.prems(1) Fork.prems(2) [unfolded F'] Fork.prems(3) [unfolded F']
    have f: "f = f'"
      using fork_bits [OF wf] fork_bits [OF wf(2,1) wf(3) [symmetric]] nat_le_linear by blast
    have l: "leaves l = leaves l'" and r: "leaves r = leaves r'"
      using fork_leaves_filter [OF wf(1)] fork_leaves_filter [OF wf(2)] wf(3) f by metis+
    have "l = l'" by (rule Fork.IH(1) [OF _ _ l, of "f @ [False]" "f' @ [False]"]) (use wf in simp_all)
    moreover have "r = r'" by (rule Fork.IH(2) [OF _ _ r, of "f @ [True]" "f' @ [True]"]) (use wf in simp_all)
    ultimately show ?thesis unfolding F' f by simp
  qed
qed

end
