(* ===== verification/Smt_Properties.thy ===== *)
theory Smt_Properties
  imports Smt_Ledger Committed_Tree
begin

text \<open>
  The properties of sparse Merkle multiproofs and witnessed ledgers, applied to a tree of width one
  with a linear stand-in for the hash function.
\<close>

section \<open>A small tree\<close>

definition demo_blake :: blake2b where
  "demo_blake d ps =
     (if length ps = 1 then 1 + digest32_of (hd ps) else digest32_of (hd ps) * 31 + digest32_of (last ps) * 17 + 7)"

definition demo_tree :: smt_params where
  "demo_tree = \<lparr>leaf_domain = [1], node_domain = [2, 2], width = 1\<rparr>"

definition demo_contents :: contents where
  "demo_contents = [([5], [1])]"

definition demo_ledger :: witnessed_ledger where
  "demo_ledger = \<lparr>wl_params = demo_tree, wl_proof = [], wl_leaves = [([5], Some [1])]\<rparr>"

lemma demo_node: "node_hash demo_blake p l r = l * 31 + r * 17 + 7"
  by (simp add: node_hash_def demo_blake_def)

lemma demo_depth: "smt_depth demo_tree = Suc (Suc (Suc (Suc (Suc (Suc (Suc (Suc 0)))))))"
  by (simp add: smt_depth_def demo_tree_def)

lemma demo_chain:
  "empty_chain demo_blake demo_tree =
     [0, 7, 343, 16471, 790615, 37949527, 1821577303, 87435710551, 4196914106455]"
  by (simp add: empty_chain_def demo_depth EMPTY_LEAF_def Let_def demo_node)

lemma demo_leaves: "leaves_of demo_blake demo_tree demo_contents = [([5], 2)]"
  by (simp add: leaves_of_def demo_contents_def leaf_hash_def demo_blake_def digest32_of_def from_be_bytes_def)

lemma demo_bits:
  "\<not> level_bit [5] 0" "\<not> level_bit [5] (Suc 0)" "\<not> level_bit [5] 2" "\<not> level_bit [5] 3" "\<not> level_bit [5] 4"
  "level_bit [5] 5" "\<not> level_bit [5] 6" "level_bit [5] 7"
  by code_simp+

text \<open>The recursions, one level at a time on an explicit list.\<close>

lemma sparse_step:
  "sparse_root_sorted B p [] lv d ch = ch ! d"
  "sparse_root_sorted B p (x # xs) lv 0 ch = snd x"
  "sparse_root_sorted B p (x # xs) lv (Suc d) ch =
     node_hash B p (sparse_root_sorted B p (takeWhile (\<lambda>(k, _). \<not> level_bit k lv) (x # xs)) (lv + 1) d ch)
       (sparse_root_sorted B p (dropWhile (\<lambda>(k, _). \<not> level_bit k lv) (x # xs)) (lv + 1) d ch)"
  by (cases d; simp)
     (simp_all only: sparse_root_sorted.simps list.distinct if_False partition_point_def Let_def
       takeWhile_eq_take [symmetric] dropWhile_eq_drop [symmetric] list.sel)

lemma sparse_pairs_step:
  "sparse_pairs B p [] lv d ch = []"
  "sparse_pairs B p xs lv 0 ch = []"
  "sparse_pairs B p (x # xs) lv (Suc d) ch =
     (let l = takeWhile (\<lambda>(k, _). \<not> level_bit k lv) (x # xs); r = dropWhile (\<lambda>(k, _). \<not> level_bit k lv) (x # xs)
      in (sparse_root_sorted B p l (lv + 1) d ch, sparse_root_sorted B p r (lv + 1) d ch) #
         sparse_pairs B p l (lv + 1) d ch @ sparse_pairs B p r (lv + 1) d ch)"
  by (cases d; simp)
     (simp_all only: sparse_pairs.simps list.distinct if_False partition_point_def Let_def
       takeWhile_eq_take [symmetric] dropWhile_eq_drop [symmetric])

lemma demo_levels:
  "0 + 1 = Suc 0" "Suc 0 + 1 = 2" "(2 :: nat) + 1 = 3" "(3 :: nat) + 1 = 4" "(4 :: nat) + 1 = 5"
  "(5 :: nat) + 1 = 6" "(6 :: nat) + 1 = 7" "(7 :: nat) + 1 = 8"
  by simp_all

lemmas demo_run =
  demo_depth demo_chain demo_bits demo_levels sparse_step sparse_pairs_step takeWhile.simps dropWhile.simps
  split if_True if_False not_True_eq_False not_False_eq_True nth_Cons_0 nth_Cons_Suc snd_conv Let_def append.simps

text \<open>Without a frontier the recomputation is the computation of the root.\<close>

lemma frontier_get_Nil: "frontier_get [] level prefix = None"
  by (simp add: frontier_get_def binary_search_by_def)

lemma root_rec_no_frontier:
  "level + d = smt_depth p \<Longrightarrow> root_rec B [] p touched prefix level chain = sparse_root_sorted B p touched level d chain"
proof (induction d arbitrary: level touched prefix)
  case 0
  then show ?case by (subst root_rec.simps) (simp add: frontier_get_Nil)
next
  case (Suc d)
  then have "smt_depth p - level = Suc d" by simp
  then show ?case
    using Suc.IH [of "level + 1"] Suc.prems
    by (subst root_rec.simps) (simp add: frontier_get_Nil Let_def)
qed

lemma root_pairs_no_frontier:
  "level + d = smt_depth p \<Longrightarrow> root_pairs B [] p touched prefix level chain = sparse_pairs B p touched level d chain"
proof (induction d arbitrary: level touched prefix)
  case 0
  then show ?case by (subst root_pairs.simps) simp
next
  case (Suc d)
  then have "smt_depth p - level = Suc d" by simp
  then show ?case
    using Suc.IH [of "level + 1"] Suc.prems root_rec_no_frontier [of "level + 1" d p]
    by (subst root_pairs.simps) (simp add: Let_def)
qed

lemma distinct_collision_free:
  assumes "distinct (map (\<lambda>(l, r). node_hash B p l r) ps)" and "set qs \<subseteq> set ps"
  shows "collision_free B p qs"
  unfolding collision_free_def list_all_iff
proof (intro ballI impI)
  fix x y
  assume "x \<in> set qs" and "y \<in> set qs" and eq: "node_hash B p (fst x) (snd x) = node_hash B p (fst y) (snd y)"
  then have "x \<in> set ps" "y \<in> set ps" using assms(2) by blast+
  moreover have "inj_on (\<lambda>(l, r). node_hash B p l r) (set ps)" using assms(1) by (simp add: distinct_map)
  ultimately show "x = y" using eq by (intro inj_onD [of "\<lambda>(l, r). node_hash B p l r"]) (simp_all add: case_prod_unfold)
qed

definition demo_hashed :: "(hash32 \<times> hash32) list" where
  "demo_hashed = map (\<lambda>h. (h, h)) (empty_chain demo_blake demo_tree) @
     sparse_pairs demo_blake demo_tree [([5], 2)] 0 (smt_depth demo_tree) (empty_chain demo_blake demo_tree)"

lemma demo_hashes:
  "map (\<lambda>(l, r). node_hash demo_blake demo_tree l r) demo_hashed = map of_nat
     [7, 343, 16471, 790615, 37949527, 1821577303, 87435710551, 4196914106455, 201451877109847,
      4709891234073, 103983359829, 2355372441, 55168725, 1346073, 34389, 1397, 41]"
  unfolding demo_hashed_def
  by (simp only: demo_run map_append list.map) (simp add: demo_node)

lemma inj_on_small: "inj_on (of_nat :: nat \<Rightarrow> hash32) {..< 2 ^ 256}"
proof (rule inj_onI)
  fix x y :: nat
  assume b: "x \<in> {..< 2 ^ 256}" "y \<in> {..< 2 ^ 256}" and "(of_nat x :: hash32) = of_nat y"
  then have "unat (of_nat x :: hash32) = unat (of_nat y :: hash32)" by simp
  then have "x mod 2 ^ 256 = y mod 2 ^ 256" by (simp add: unat_of_nat)
  then show "x = y" using b by (simp only: lessThan_iff mod_less)
qed

lemma demo_no_collision: "distinct (map (\<lambda>(l, r). node_hash demo_blake demo_tree l r) demo_hashed)"
  unfolding demo_hashes distinct_map
proof
  show "inj_on (of_nat :: nat \<Rightarrow> hash32) (set [7, 343, 16471, 790615, 37949527, 1821577303, 87435710551, 4196914106455, 201451877109847,
      4709891234073, 103983359829, 2355372441, 55168725, 1346073, 34389, 1397, 41])"
    by (rule inj_on_subset [OF inj_on_small]) simp
qed simp

lemma demo_wf: "wf_leaves demo_tree demo_contents"
  by code_simp

lemma demo_new:
  "ledger_new demo_blake demo_tree [] [([5], Some [1])]
     (root_of_sorted demo_blake demo_tree (leaves_of demo_blake demo_tree demo_contents)) = Inr demo_ledger"
proof -
  have "slot_hash demo_blake demo_tree (Some [1]) = 2"
    by (simp add: slot_hash_def leaf_hash_def demo_blake_def digest32_of_def from_be_bytes_def)
  then have "ledger_root demo_blake demo_ledger =
      root_of_sorted demo_blake demo_tree (leaves_of demo_blake demo_tree demo_contents)"
    by (simp add: ledger_root_def demo_ledger_def batch_root_def root_of_sorted_def demo_leaves root_rec_no_frontier)
  then show ?thesis
    by (simp add: ledger_new_def demo_ledger_def bt_insert_def bt_remove_def demo_tree_def)
qed

lemma demo_collision_free:
  "collision_free demo_blake demo_tree
     (hashed_pairs demo_blake demo_tree [] (touched_hashes demo_blake demo_ledger) (leaves_of demo_blake demo_tree demo_contents))"
proof (rule distinct_collision_free [OF demo_no_collision])
  have "touched_hashes demo_blake demo_ledger = [([5], 2)]"
    by (simp add: touched_hashes_def demo_ledger_def slot_hash_def leaf_hash_def demo_blake_def digest32_of_def from_be_bytes_def)
  then show "set (hashed_pairs demo_blake demo_tree [] (touched_hashes demo_blake demo_ledger)
      (leaves_of demo_blake demo_tree demo_contents)) \<subseteq> set demo_hashed"
    by (auto simp: hashed_pairs_def demo_hashed_def demo_leaves Let_def root_pairs_no_frontier dest: in_set_butlastD)
qed

section \<open>Properties\<close>

text \<open>C32 (\<open>witnessed_transition_sound\<close>): if a witness, with whatever frontier, is accepted against the
  root of a state, then every content it lets the handler read hashes as that state's leaf (or its
  absence), and after any run of inserts and removes that does not panic the ledger's root is the
  root of the state with these operations applied, unless two different pairs among those hashed for
  the two roots collide.\<close>

theorem witnessed_transition_sound:
  assumes "wf_leaves p cs" and "ledger_new B p fr touched (root_of_sorted B p (leaves_of B p cs)) = Inr me"
    and "collision_free B p (hashed_pairs B p fr (touched_hashes B me) (leaves_of B p cs))"
  shows "(\<forall>k v. ledger_get me k = Inr v \<longrightarrow> slot_hash B p v = slot_hash B p (bt_get cs k)) \<and>
    (\<forall>ops me'. run_ledger ops me = Inr me' \<longrightarrow>
       ledger_root B me' = root_of_sorted B p (leaves_of B p (fold op_contents ops cs)))"
  using ledger_sound [OF assms] by blast

theorem witnessed_transition_sound_witness:
  "ledger_new demo_blake demo_tree [] [([5], Some [1])]
     (root_of_sorted demo_blake demo_tree (leaves_of demo_blake demo_tree demo_contents)) = Inr demo_ledger \<and>
   (\<exists>me'. run_ledger [LInsert [5] [9]] demo_ledger = Inr me' \<and>
      ledger_root demo_blake me' = root_of_sorted demo_blake demo_tree (leaves_of demo_blake demo_tree [([5], [9])]))"
proof -
  have "\<exists>me'. run_ledger [LInsert [5] [9]] demo_ledger = Inr me'"
    by (simp add: ledger_insert_def demo_ledger_def bt_get_Cons)
  moreover have "fold op_contents [LInsert [5] [9]] demo_contents = [([5], [9])]"
    by (simp add: demo_contents_def bt_insert_def bt_remove_def)
  ultimately show ?thesis
    using witnessed_transition_sound [OF demo_wf demo_new demo_collision_free] demo_new by metis
qed

text \<open>C33 (\<open>honest_witness_accepted\<close>): with keys of fewer than 65536 bits (the level of a frontier entry is a
  \<open>u16\<close>), the witness built from the real state for any keys, in any order and with repetitions, is accepted against its root; the ledger then reads exactly those keys, with their
  contents or their absence, and panics on every other key.\<close>

theorem honest_witness_accepted:
  fixes B :: blake2b
  assumes "wf_leaves p cs" and "smt_depth p < 65536" and "\<forall>k \<in> set keys. length k = width p"
  shows "\<exists>me. ledger_new B p (batch_build B p (leaves_of B p cs) keys) (map (\<lambda>k. (k, bt_get cs k)) keys)
      (root_of_sorted B p (leaves_of B p cs)) = Inr me \<and>
    (\<forall>k. ledger_get me k = (if k \<in> set keys then Inr (bt_get cs k) else Inl (UnprovenRead k)))"
  by (rule ledger_complete [OF assms])

theorem honest_witness_accepted_witness:
  "\<exists>me. ledger_new demo_blake demo_tree (batch_build demo_blake demo_tree
        (leaves_of demo_blake demo_tree demo_contents) [[7], [5], [7]])
      [([7], None), ([5], Some [1]), ([7], None)]
      (root_of_sorted demo_blake demo_tree (leaves_of demo_blake demo_tree demo_contents)) = Inr me \<and>
    ledger_get me [5] = Inr (Some [1]) \<and> ledger_get me [7] = Inr None \<and> ledger_get me [9] = Inl (UnprovenRead [9])"
proof -
  let ?keys = "[[7], [5], [7]]"
  have hyp: "smt_depth demo_tree < 65536" "\<forall>k \<in> set ?keys. length k = width demo_tree"
    by (simp_all add: smt_depth_def demo_tree_def)
  have get: "bt_get demo_contents [7] = None" "bt_get demo_contents [5] = Some [1]"
    by (simp_all add: demo_contents_def bt_get_Cons)
  have touched: "map (\<lambda>k. (k, bt_get demo_contents k)) ?keys = [([7], None), ([5], Some [1]), ([7], None)]"
    by (simp only: list.map get)
  obtain me where me: "ledger_new demo_blake demo_tree (batch_build demo_blake demo_tree
        (leaves_of demo_blake demo_tree demo_contents) ?keys) (map (\<lambda>k. (k, bt_get demo_contents k)) ?keys)
        (root_of_sorted demo_blake demo_tree (leaves_of demo_blake demo_tree demo_contents)) = Inr me"
      "\<forall>k. ledger_get me k = (if k \<in> set ?keys then Inr (bt_get demo_contents k) else Inl (UnprovenRead k))"
    using honest_witness_accepted [OF demo_wf hyp, of demo_blake] by blast
  have "ledger_get me [5] = Inr (Some [1])" "ledger_get me [7] = Inr None" "ledger_get me [9] = Inl (UnprovenRead [9])"
    using me(2) get by simp_all
  then show ?thesis using me(1) unfolding touched by blast
qed

text \<open>C34 (\<open>multiproof_update_root\<close>): with keys of fewer than 65536 bits, the multiproof built for a set of keys recomputes, from any new leaf
  hashes for exactly these keys, the root that a full recomputation gives over the updated leaves.\<close>

theorem multiproof_update_root:
  fixes B :: blake2b
  assumes "wf_leaves p old" and "wf_leaves p touched" and "wf_leaves p new" and "smt_depth p < 65536"
    and "set keys = fst ` set touched"
    and "\<forall>k. leaf_of new k = (if k \<in> set keys then leaf_of touched k else leaf_of old k)"
  shows "batch_root B (batch_build B p old keys) p touched = root_of_sorted B p new"
proof -
  have "leaf_of (touched @ old) k = leaf_of new k" for k
  proof (cases "k \<in> set keys")
    case True
    then obtain h where "map_of touched k = Some h" using assms(5) by (metis map_of_eq_None_iff not_None_eq)
    then show ?thesis using True assms(6) by (simp add: leaf_of_append leaf_of_def)
  next
    case False
    then have "map_of touched k = None" using assms(5) by (simp add: map_of_eq_None_iff)
    then show ?thesis using False assms(6) by (simp add: leaf_of_append)
  qed
  then have "leaf_map (touched @ old) = leaf_map new" by (rule leaf_map_eq)
  then show ?thesis using batch_root_complete [OF assms(1,2,4,5), of B] root_of_sorted_wf [OF assms(3), of B] by simp
qed

theorem multiproof_update_root_witness:
  "batch_root demo_blake (batch_build demo_blake demo_tree [([5], 2), ([200], 3)] [[7], [5]]) demo_tree [([5], 0), ([7], 9)] =
     root_of_sorted demo_blake demo_tree [([7], 9), ([200], 3)]"
proof (rule multiproof_update_root)
  show "wf_leaves demo_tree [([5], 2 :: hash32), ([200], 3)]" "wf_leaves demo_tree [([5], 0 :: hash32), ([7], 9)]"
      "wf_leaves demo_tree [([7], 9 :: hash32), ([200], 3)]"
    by (simp_all add: wf_leaves_def demo_tree_def)
  show "smt_depth demo_tree < 65536" by (simp add: demo_depth)
qed (auto simp: leaf_of_def EMPTY_LEAF_def)

end
