(* ===== verification/Spec2Isabelle.thy ===== *)
theory Spec2Isabelle
  imports Raft_Scenarios Merkle_Properties Smt_Properties
begin

text \<open>
  A verification library for the state of VOS, an actor runtime. The state of an actor is
  replicated in one of two ways: under a Raft log (crate \<open>support/vos-raft\<close>) or under a
  Merkle-CRDT (crate \<open>support/merkle-crdt\<close>). It is read and proved through sparse Merkle trees:
  a stateless verifier replays a handler over a witnessed ledger (\<open>vos/src/zk/state.rs\<close>), and an
  actor keeps a committed map in the rows of its store, read and written through the overlay of a
  dispatch (\<open>vos/src/actors/storage.rs\<close>, \<open>vos/src/actors/storage/committed.rs\<close>). The logic of the
  two crates and of these modules is modelled; their threads, channels, databases and transports
  are not.

  \<^bold>\<open>Conventions.\<close> A struct is a record, an enum a datatype, a trait a record of operations with
  its contract in a locale. \<open>Result\<close> is a sum with the error on the left, and a handler
  returns its result together with the state it leaves, on the error paths too. \<open>BTreeMap\<close> and
  \<open>BTreeSet\<close> are ascending association lists and lists (\<open>Vos_Prelude\<close>). Terms, log
  indices and byte offsets of the Raft core are natural numbers, its saturating operations written
  out; they are \<open>u64\<close> in the source, and \<open>Raft_Range\<close> bounds how far a run can raise them, so that
  the theorems on runs carry the bound under which none wraps around. The generator and the
  timeouts, where wrapping is part of the computation, the counts of the committed map, and all
  bytes are machine words. A
  loop that could run forever is a partial function into options; that it returns is part of what
  is proved of it, and no fuel is used. Everything is executable, and every theorem with a
  hypothesis is applied to a concrete run.

  \<^bold>\<open>Raft\<close> (\<open>src/support/vos-raft/src\<close>).
  \<^item> \<open>Raft_Types\<close>: \<open>role.rs\<close>, \<open>log_entry.rs\<close>, \<open>meta.rs\<close>, \<open>config.rs\<close>,
    \<open>rpc.rs\<close>. \<open>Raft_Storage\<close>: \<open>storage.rs\<close>, with the locale \<open>raft_storage\<close>, that a
    backend behaves as \<open>MemStorage\<close> through an abstraction function and that a batch lands
    whole or not at all; \<open>MemStorage\<close> and the fault-injecting backend of the tests are
    interpretations. \<open>Raft_Quorum\<close>: \<open>ActiveConfig\<close> and the commit floor.
    \<open>Raft_Clock\<close>: \<open>clock.rs\<close> and the election timeout.
  \<^item> \<open>Raft_Worker\<close>, \<open>Raft_Handlers\<close>, \<open>Raft_Driver\<close>: \<open>worker.rs\<close>. The worker is one
    record; its clock readings, random draws, outbound calls and replies are parts of it. A turn of
    the driver loop is \<open>loop_turn\<close>, one event in, one state out, and \<open>loop_run\<close> a sequence of them.
  \<^item> \<open>Raft_Frame\<close>, \<open>Raft_Safety\<close>, \<open>Raft_Election\<close>, \<open>Raft_Log\<close>, \<open>Raft_Leader\<close>: what the
    handlers leave alone; the worker invariant and the order in which the durable scalars evolve,
    for every backend; votes and quorums; the log after an append, a compaction, a snapshot; commit
    rule, membership changes and reads. \<open>Raft_Range\<close>: by how much a turn can raise terms and
    indices. \<open>Raft_Membership\<close>: the membership through whole turns. \<open>Raft_Install\<close>,
    \<open>Raft_Snapshot\<close>: what an installed snapshot leaves, the bound on its buffer, and the chunked
    transfer.
  \<^item> \<open>Raft_Cluster\<close>: workers over a network that delays, repeats, reorders and loses, and
    nodes that fail and restart. \<open>Raft_Properties\<close>, \<open>Raft_Scenarios\<close>: the properties, and
    the runs that exhibit the behaviours where the code departs from its comments.
    \<open>Raft_Demo\<close>: the concrete workers they use.

  \<^bold>\<open>Merkle-CRDT\<close> (\<open>src/support/merkle-crdt/src\<close>).
  \<^item> \<open>Merkle_Encode\<close>: \<open>encode.rs\<close>, with the locale \<open>codec\<close> that relates an encoder to
    its decoder. \<open>Merkle_Node\<close>: \<open>hasher.rs\<close>, \<open>cid.rs\<close>, \<open>node.rs\<close>, \<open>store.rs\<close>,
    with the locale \<open>dag_store\<close> for stores. \<open>Merkle_Graph\<close>: ancestry, and the one invariant
    and induction rule of every traversal of the crate.
  \<^item> \<open>Merkle_Clock\<close>: \<open>clock.rs\<close>; \<open>Merkle_Walk\<close>: its depth-first walk.
    \<open>Merkle_Sync\<close>: \<open>sync.rs\<close>, with the reference order \<open>kahn_order\<close>.
    \<open>Merkle_Crdt\<close>: \<open>crdt.rs\<close>.
  \<^item> \<open>Merkle_State\<close>: the state a DAG stands for. \<open>Merkle_Replica\<close>: what the operations of
    a replica do, and the refinement of a replica to its set of events. \<open>Merkle_Network\<close>: any
    number of replicas that record and synchronize in any order. \<open>Merkle_Properties\<close>: the
    properties.

  \<^bold>\<open>Committed state\<close> (\<open>src/vos/src\<close>).
  \<^item> \<open>Smt_State\<close>, \<open>Smt_Tree\<close>: \<open>zk/state.rs\<close>, the sparse Merkle root, single proofs and
    multiproofs. \<open>Smt_Proofs\<close>: that a multiproof recomputes the root, and that a root binds what is
    below it up to a collision among the pairs that are hashed. \<open>Smt_Ledger\<close>: the witnessed
    ledger. \<open>Smt_Properties\<close>: the properties.
  \<^item> \<open>Storage_Overlay\<close>: \<open>actors/storage.rs\<close>, the rows of a dispatch over those of the host, with
    the view of them the handles have. \<open>Committed_Map\<close>: \<open>actors/storage/committed.rs\<close>, a map kept
    as a compressed sparse Merkle tree in rows. \<open>Committed_Bits\<close>, \<open>Committed_Tree\<close>: bit paths,
    row encodings and the tree that the rows stand for.

  \<^bold>\<open>What is assumed.\<close> Storage backends and stores meet the contracts of their traits. The hash
  function is a parameter of which nothing is assumed; the convergence results are about runs in
  which no two nodes met have the same identifier, and the results on ledgers name the pairs that
  must not collide. Election safety is about a fixed membership with
  the pre-vote phase off; with it on, \<open>prevote_two_leaders\<close> is a counterexample.

  \<^bold>\<open>Not modelled.\<close> Threads, channels, the transport trait and the spawning of runtimes in
  \<open>vos-raft\<close>, and \<open>store_redb.rs\<close>, which calls a database, are input and output. The node
  runtime, the network layer, the command line tool and the extensions of VOS run on third-party
  libraries (libp2p, redb, the PVM). The proof system \<open>zkpvm\<close> stands on a third-party prover, and
  the macros generate code at compile time.
\<close>

end
